(* ===== verification/Xv6_Prelude.thy ===== *)
theory Xv6_Prelude
  imports Main "HOL-Library.Word"
begin

unbundle bit_operations_syntax

text \<open>
  Prelude of the development: the outcome type of kernel code and its sequencing operator, the
  search loop that the kernel writes over its fixed-size tables, little-endian access to byte
  arrays, and the block copy and fill that reference definitions use.

  Kernel code is modelled by functions from a state to an outcome:
  \<^item> \<open>Ret x s\<close>: the function returned \<open>x\<close> and left the state \<open>s\<close>;
  \<^item> \<open>Panic msg\<close>: it called \<open>panic(msg)\<close> (src/console.c), which never returns;
  \<^item> \<open>Undef what\<close>: it left the defined behaviour of C (an access outside an array, a null
    dereference);
  \<^item> \<open>Swtch k s\<close>: it called \<open>sched()\<close> (src/proc.c) and the CPU switched to the scheduler.
    The process table in \<open>s\<close> says why (the process is SLEEPING, RUNNABLE or ZOMBIE); \<open>k\<close> is the
    loop counter that stays in the kernel stack frame of the suspended thread;
  \<^item> \<open>Diverge\<close>: it never returns (a loop whose exit condition never becomes true).
\<close>

section \<open>Machine integers\<close>

type_synonym u8 = "8 word"
type_synonym u16 = "16 word"
type_synonym u32 = "32 word"

lemma unat_u32: "unat (x :: u32) < 4294967296"
  using unsigned_less [of x] by simp

lemma sint_small: "sint x = int (unat x)" if "unat x < 2 ^ 31" for x :: u32
proof -
  have "int (unat x) < int (2 ^ 31)" using that by (simp only: of_nat_less_iff)
  then have "uint x < 2 ^ 31" by simp
  moreover have "- (2 ^ 31) \<le> uint x" by (rule order_trans [of _ 0]) simp_all
  ultimately have "signed_take_bit 31 (uint x) = uint x"
    by (intro signed_take_bit_int_eq_self)
  then show ?thesis by (simp add: sint_uint)
qed

section \<open>Modes of \<open>open\<close>\<close>

definition O_RDONLY :: u32 where "O_RDONLY = 0x000"
definition O_WRONLY :: u32 where "O_WRONLY = 0x001"
definition O_RDWR :: u32 where "O_RDWR = 0x002"
definition O_CREATE :: u32 where "O_CREATE = 0x200"

section \<open>Outcomes of kernel code\<close>

datatype ('s, 'a) outcome =
    Ret 'a 's
  | Panic string
  | Undef string
  | Swtch nat 's
  | Diverge

primrec bindK :: "('s, 'a) outcome \<Rightarrow> ('a \<Rightarrow> 's \<Rightarrow> ('s, 'b) outcome) \<Rightarrow> ('s, 'b) outcome" where
  "bindK (Ret x s) f = f x s"
| "bindK (Panic m) f = Panic m"
| "bindK (Undef m) f = Undef m"
| "bindK (Swtch k s) f = Swtch k s"
| "bindK Diverge f = Diverge"

text \<open>
  \<open>on_ret m Q\<close> is the weakest precondition of partial correctness: if the function returned, \<open>Q\<close>
  holds of its result and state. \<open>returns m Q\<close> is total correctness: it did return.
\<close>

primrec on_ret :: "('s, 'a) outcome \<Rightarrow> ('a \<Rightarrow> 's \<Rightarrow> bool) \<Rightarrow> bool" where
  "on_ret (Ret x s) Q = Q x s"
| "on_ret (Panic m) Q = True"
| "on_ret (Undef m) Q = True"
| "on_ret (Swtch k s) Q = True"
| "on_ret Diverge Q = True"

primrec returns :: "('s, 'a) outcome \<Rightarrow> ('a \<Rightarrow> 's \<Rightarrow> bool) \<Rightarrow> bool" where
  "returns (Ret x s) Q = Q x s"
| "returns (Panic m) Q = False"
| "returns (Undef m) Q = False"
| "returns (Swtch k s) Q = False"
| "returns Diverge Q = False"

named_theorems outcome_inv \<open>inversion of outcomes that are known to be returns\<close>
named_theorems kernel_defs \<open>definitions of straight-line kernel operations\<close>
named_theorems frame_rules \<open>what an operation leaves unchanged when it returns\<close>

lemma bindK_Ret_iff [outcome_inv]:
  "bindK m f = Ret y t \<longleftrightarrow> (\<exists>x s. m = Ret x s \<and> f x s = Ret y t)"
  by (cases m) auto

lemma bindK_assoc: "bindK (bindK m f) g = bindK m (\<lambda>x s. bindK (f x s) g)"
  by (cases m) auto

lemma on_ret_bindK [simp]:
  "on_ret (bindK m f) Q \<longleftrightarrow> on_ret m (\<lambda>x s. on_ret (f x s) Q)"
  by (cases m) auto

lemma returns_bindK [simp]:
  "returns (bindK m f) Q \<longleftrightarrow> returns m (\<lambda>x s. returns (f x s) Q)"
  by (cases m) auto

lemma on_ret_iff: "on_ret m Q \<longleftrightarrow> (\<forall>x s. m = Ret x s \<longrightarrow> Q x s)"
  by (cases m) auto

lemma returns_iff: "returns m Q \<longleftrightarrow> (\<exists>x s. m = Ret x s \<and> Q x s)"
  by (cases m) auto

lemma on_ret_mono: "on_ret m P \<Longrightarrow> (\<And>x s. P x s \<Longrightarrow> Q x s) \<Longrightarrow> on_ret m Q"
  by (cases m) auto

lemma returns_mono: "returns m P \<Longrightarrow> (\<And>x s. P x s \<Longrightarrow> Q x s) \<Longrightarrow> returns m Q"
  by (cases m) auto

lemma returns_on_ret: "returns m P \<Longrightarrow> on_ret m P"
  by (cases m) auto

lemma on_retD: "on_ret m Q \<Longrightarrow> m = Ret x s \<Longrightarrow> Q x s"
  by simp

section \<open>The table search loop\<close>

text \<open>
  \<open>for(i = a; i < a+k; i++) if(P i) return i;\<close>, the loop by which the kernel searches its tables.
\<close>

fun find_from :: "(nat \<Rightarrow> bool) \<Rightarrow> nat \<Rightarrow> nat \<Rightarrow> nat option" where
  "find_from P a 0 = None"
| "find_from P a (Suc k) = (if P a then Some a else find_from P (Suc a) k)"

lemma range_Suc_iff:
  "(\<forall>l. a \<le> l \<and> l < b \<longrightarrow> Q l) \<longleftrightarrow> (a < b \<longrightarrow> Q a) \<and> (\<forall>l. Suc a \<le> l \<and> l < b \<longrightarrow> Q l)"
  for a b :: nat
  by (metis Suc_leD Suc_leI le_less order_refl)

lemma find_from_None: "find_from P a k = None \<longleftrightarrow> (\<forall>l. a \<le> l \<and> l < a + k \<longrightarrow> \<not> P l)"
proof (induction k arbitrary: a)
  case 0
  then show ?case by auto
next
  case (Suc k)
  have "(\<forall>l. a \<le> l \<and> l < a + Suc k \<longrightarrow> \<not> P l)
      \<longleftrightarrow> \<not> P a \<and> (\<forall>l. Suc a \<le> l \<and> l < Suc a + k \<longrightarrow> \<not> P l)"
    using range_Suc_iff [of a "a + Suc k" "\<lambda>l. \<not> P l"] by simp
  with Suc [of "Suc a"] show ?case by simp
qed

lemma find_from_Some:
  "find_from P a k = Some j \<longleftrightarrow> a \<le> j \<and> j < a + k \<and> P j \<and> (\<forall>l. a \<le> l \<and> l < j \<longrightarrow> \<not> P l)"
proof (induction k arbitrary: a)
  case 0
  then show ?case by auto
next
  case (Suc k)
  show ?case
  proof (cases "P a")
    case True
    have "a = j" if "a \<le> j" "\<forall>l. a \<le> l \<and> l < j \<longrightarrow> \<not> P l"
      using that True by (metis le_eq_less_or_eq)
    with True show ?thesis by auto
  next
    case False
    have "find_from P a (Suc k) = Some j \<longleftrightarrow> Suc a \<le> j \<and> j < Suc a + k \<and> P j
        \<and> (\<forall>l. Suc a \<le> l \<and> l < j \<longrightarrow> \<not> P l)"
      using False Suc [of "Suc a"] by simp
    moreover have "Suc a \<le> j \<and> P j \<longleftrightarrow> a \<le> j \<and> P j"
      using False by (metis Suc_le_eq le_eq_less_or_eq)
    moreover have "(\<forall>l. a \<le> l \<and> l < j \<longrightarrow> \<not> P l) \<longleftrightarrow> (\<forall>l. Suc a \<le> l \<and> l < j \<longrightarrow> \<not> P l)"
      using False range_Suc_iff [of a j "\<lambda>l. \<not> P l"] by blast
    ultimately show ?thesis by (metis add_Suc add_Suc_right)
  qed
qed

lemma find_from_numeral [simp]:
  "find_from P a (numeral w) = (if P a then Some a else find_from P (Suc a) (pred_numeral w))"
  by (simp add: numeral_eq_Suc)

section \<open>Counting loops\<close>

text \<open>\<open>for(i = a; i < a+k; i++) body\<close>, for a body that cannot fail and for one that can.\<close>

fun for_range :: "nat \<Rightarrow> nat \<Rightarrow> (nat \<Rightarrow> 's \<Rightarrow> 's) \<Rightarrow> 's \<Rightarrow> 's" where
  "for_range a 0 body s = s"
| "for_range a (Suc k) body s = for_range (Suc a) k body (body a s)"

fun for_rangeK :: "nat \<Rightarrow> nat \<Rightarrow> (nat \<Rightarrow> 's \<Rightarrow> ('s, unit) outcome) \<Rightarrow> 's \<Rightarrow> ('s, unit) outcome" where
  "for_rangeK a 0 body s = Ret () s"
| "for_rangeK a (Suc k) body s = bindK (body a s) (\<lambda>_ s. for_rangeK (Suc a) k body s)"

lemma for_range_inv:
  assumes "P a s" "\<And>i s. a \<le> i \<Longrightarrow> i < a + k \<Longrightarrow> P i s \<Longrightarrow> P (Suc i) (body i s)"
  shows "P (a + k) (for_range a k body s)"
  using assms
proof (induction k arbitrary: a s)
  case (Suc k)
  have "P (Suc a + k) (for_range (Suc a) k body (body a s))"
    using Suc.prems by (intro Suc.IH) auto
  then show ?case by simp
qed simp

lemma for_rangeK_inv:
  assumes "P a s" "\<And>i s. a \<le> i \<Longrightarrow> i < a + k \<Longrightarrow> P i s \<Longrightarrow> on_ret (body i s) (\<lambda>_ t. P (Suc i) t)"
  shows "on_ret (for_rangeK a k body s) (\<lambda>_ t. P (a + k) t)"
  using assms
proof (induction k arbitrary: a s)
  case (Suc k)
  have "on_ret (body a s) (\<lambda>_ t. P (Suc a) t)" using Suc.prems by auto
  moreover have "on_ret (for_rangeK (Suc a) k body t) (\<lambda>_ u. P (Suc a + k) u)" if "P (Suc a) t" for t
    using Suc.prems that by (intro Suc.IH) auto
  ultimately show ?case by (auto elim!: on_ret_mono)
qed simp

lemma for_rangeK_total:
  assumes "P a s" "\<And>i s. a \<le> i \<Longrightarrow> i < a + k \<Longrightarrow> P i s \<Longrightarrow> returns (body i s) (\<lambda>_ t. P (Suc i) t)"
  shows "returns (for_rangeK a k body s) (\<lambda>_ t. P (a + k) t)"
  using assms
proof (induction k arbitrary: a s)
  case (Suc k)
  have "returns (body a s) (\<lambda>_ t. P (Suc a) t)" using Suc.prems by auto
  moreover have "returns (for_rangeK (Suc a) k body t) (\<lambda>_ u. P (Suc a + k) u)" if "P (Suc a) t" for t
    using Suc.prems that by (intro Suc.IH) auto
  ultimately show ?case by (auto elim!: returns_mono)
qed simp

section \<open>Writing a list into an array\<close>

definition overlay :: "nat \<Rightarrow> 'a list \<Rightarrow> (nat \<Rightarrow> 'a) \<Rightarrow> (nat \<Rightarrow> 'a)" where
  "overlay n xs f = (\<lambda>i. if n \<le> i \<and> i < n + length xs then xs ! (i - n) else f i)"

lemma overlay_Nil [simp]: "overlay n [] f = f"
  by (auto simp: overlay_def fun_eq_iff)

lemma overlay_Cons: "overlay n (x # xs) f = overlay (Suc n) xs (f(n := x))"
  by (auto simp: overlay_def fun_eq_iff nth_Cons' le_less)

lemma overlay_at: "n \<le> i \<Longrightarrow> i < n + length xs \<Longrightarrow> overlay n xs f i = xs ! (i - n)"
  by (simp add: overlay_def)

lemma overlay_below: "i < n \<Longrightarrow> overlay n xs f i = f i"
  by (simp add: overlay_def)

section \<open>Byte arrays\<close>

text \<open>
  A C byte array (a disk block, a page, a string buffer) is a function from offsets to bytes. Only
  the offsets below the array's size are ever read or written by the code that is modelled.
\<close>

type_synonym bytes = "nat \<Rightarrow> u8"

definition get32 :: "bytes \<Rightarrow> nat \<Rightarrow> u32" where
  "get32 m a = ucast (m a) OR push_bit 8 (ucast (m (a + 1)))
     OR push_bit 16 (ucast (m (a + 2))) OR push_bit 24 (ucast (m (a + 3)))"

definition put32 :: "bytes \<Rightarrow> nat \<Rightarrow> u32 \<Rightarrow> bytes" where
  "put32 m a v = m(a := ucast v, a + 1 := ucast (drop_bit 8 v),
     a + 2 := ucast (drop_bit 16 v), a + 3 := ucast (drop_bit 24 v))"

definition get16 :: "bytes \<Rightarrow> nat \<Rightarrow> u16" where
  "get16 m a = ucast (m a) OR push_bit 8 (ucast (m (a + 1)))"

definition put16 :: "bytes \<Rightarrow> nat \<Rightarrow> u16 \<Rightarrow> bytes" where
  "put16 m a v = m(a := ucast v, a + 1 := ucast (drop_bit 8 v))"

lemma get32_put32_same [simp]: "get32 (put32 m a v) a = v"
proof (rule bit_word_eqI)
  fix n
  assume "n < LENGTH(32)"
  then have "n < 8 \<or> 8 \<le> n \<and> n < 16 \<or> 16 \<le> n \<and> n < 24 \<or> 24 \<le> n \<and> n < 32" by auto
  then show "bit (get32 (put32 m a v) a) n = bit v n"
    by (elim disjE) (auto simp: get32_def put32_def bit_simps)
qed

lemma get16_put16_same [simp]: "get16 (put16 m a v) a = v"
  by (rule bit_word_eqI) (auto simp: get16_def put16_def bit_simps)

lemma get32_put32_other: "a + 4 \<le> b \<or> b + 4 \<le> a \<Longrightarrow> get32 (put32 m a v) b = get32 m b"
  by (auto simp: get32_def put32_def)

lemma get32_word_index [simp]: "get32 (put32 m (4 * i) v) (4 * j) = (if i = j then v else get32 m (4 * j))"
  by (cases i j rule: linorder_cases) (auto intro!: get32_put32_other)

lemma get16_put16_other: "a + 2 \<le> b \<or> b + 2 \<le> a \<Longrightarrow> get16 (put16 m a v) b = get16 m b"
  by (auto simp: get16_def put16_def)

lemma put32_same_outside: "i < a \<or> a + 4 \<le> i \<Longrightarrow> put32 m a v i = m i"
  by (auto simp: put32_def)

lemma get32_zero [simp]: "get32 (\<lambda>_. 0) a = 0"
  by (simp add: get32_def)

lemma get16_zero [simp]: "get16 (\<lambda>_. 0) a = 0"
  by (simp add: get16_def)

text \<open>Reference copy and fill: all bytes move at once.\<close>

definition copy_bytes :: "bytes \<Rightarrow> nat \<Rightarrow> bytes \<Rightarrow> nat \<Rightarrow> nat \<Rightarrow> bytes" where
  "copy_bytes dst d src s n = (\<lambda>i. if d \<le> i \<and> i < d + n then src (s + (i - d)) else dst i)"

definition fill_bytes :: "bytes \<Rightarrow> nat \<Rightarrow> u8 \<Rightarrow> nat \<Rightarrow> bytes" where
  "fill_bytes m d c n = (\<lambda>i. if d \<le> i \<and> i < d + n then c else m i)"

lemma copy_bytes_0 [simp]: "copy_bytes dst d src s 0 = dst"
  by (rule ext) (auto simp: copy_bytes_def)

lemma fill_bytes_0 [simp]: "fill_bytes m d c 0 = m"
  by (rule ext) (auto simp: fill_bytes_def)

end
