(* ===== verification/Xv6_String.thy ===== *)
theory Xv6_String
  imports Xv6_Prelude
begin

text \<open>
  The kernel's string and memory routines (src/string.c). Memory is one byte array; pointers are
  offsets into it, so that the overlap test of \<open>memmove\<close> means what it means in the source. A count
  that the C code compares with 0 as a signed integer is an \<open>int\<close>; the loops recurse on it as a
  natural number. The lemmas compare every routine with a one-line reference definition.
\<close>

unbundle bit_operations_syntax

section \<open>memset\<close>

text \<open>\<open>rep stosb\<close> and \<open>rep stosl\<close> of src/x86.h: store the byte or the word \<open>cnt\<close> times.\<close>

fun stosb :: "bytes \<Rightarrow> nat \<Rightarrow> u32 \<Rightarrow> nat \<Rightarrow> bytes" where
  "stosb m addr data 0 = m"
| "stosb m addr data (Suc cnt) = stosb (m(addr := ucast data)) (addr + 1) data cnt"

fun stosl :: "bytes \<Rightarrow> nat \<Rightarrow> u32 \<Rightarrow> nat \<Rightarrow> bytes" where
  "stosl m addr data 0 = m"
| "stosl m addr data (Suc cnt) = stosl (put32 m addr data) (addr + 4) data cnt"

definition memset :: "bytes \<Rightarrow> nat \<Rightarrow> u32 \<Rightarrow> nat \<Rightarrow> bytes" where
  "memset m dst c n =
     (if dst mod 4 = 0 \<and> n mod 4 = 0 then
        let c = c AND 0xFF
        in stosl m dst (push_bit 24 c OR push_bit 16 c OR push_bit 8 c OR c) (n div 4)
      else stosb m dst c n)"

lemma stosb_fill: "stosb m addr data cnt = fill_bytes m addr (ucast data) cnt"
proof (induction m addr data cnt rule: stosb.induct)
  case (2 m addr data cnt)
  have "stosb m addr data (Suc cnt) = fill_bytes (m(addr := ucast data)) (addr + 1) (ucast data) cnt"
    using "2.IH" by (simp del: fun_upd_apply)
  also have "\<dots> = fill_bytes m addr (ucast data) (Suc cnt)"
    by (auto simp: fill_bytes_def fun_eq_iff)
  finally show ?case .
qed simp

lemma put32_spread:
  "put32 m a (push_bit 24 c OR push_bit 16 c OR push_bit 8 c OR c) = fill_bytes m a (ucast c) 4"
  if "c = (c AND 0xFF :: u32)"
proof -
  have small: "\<not> bit c n" if "8 \<le> n" for n
  proof -
    have "bit c n \<longleftrightarrow> bit (c AND mask 8) n"
      using \<open>c = c AND 0xFF\<close> by (simp add: mask_eq_exp_minus_1)
    with that show ?thesis by (simp add: bit_simps)
  qed
  let ?v = "push_bit 24 c OR push_bit 16 c OR push_bit 8 c OR c"
  have "ucast (drop_bit k ?v) = (ucast c :: u8)" if "k \<in> {0, 8, 16, 24}" for k
    using that by (auto intro!: bit_word_eqI simp: bit_simps small)
  from this [of 0] this [of 8] this [of 16] this [of 24] show ?thesis
    by (auto simp: put32_def fill_bytes_def fun_eq_iff)
qed

lemma stosl_fill:
  "c = (c AND 0xFF :: u32) \<Longrightarrow>
   stosl m a (push_bit 24 c OR push_bit 16 c OR push_bit 8 c OR c) k = fill_bytes m a (ucast c) (4 * k)"
proof (induction k arbitrary: m a)
  case (Suc k)
  then show ?case by (auto simp: put32_spread fill_bytes_def fun_eq_iff)
qed simp

lemma ucast_mask_low: "(ucast (c AND mask 8 :: u32) :: u8) = ucast c"
  by (rule bit_word_eqI) (auto simp: bit_simps)

lemma ucast_low_byte: "(ucast (c AND 0xFF :: u32) :: u8) = ucast c"
  using ucast_mask_low [of c] by (simp add: mask_eq_exp_minus_1)

lemma memset_fill: "memset m dst c n = fill_bytes m dst (ucast c) n"
proof (cases "dst mod 4 = 0 \<and> n mod 4 = 0")
  case True
  then have "4 * (n div 4) = n" by auto
  with True show ?thesis
    by (simp add: memset_def Let_def stosl_fill ucast_low_byte del: push_bit_and)
next
  case False
  then show ?thesis by (auto simp: memset_def stosb_fill)
qed

section \<open>memcmp\<close>

fun memcmp :: "bytes \<Rightarrow> nat \<Rightarrow> nat \<Rightarrow> nat \<Rightarrow> int" where
  "memcmp m s1 s2 0 = 0"
| "memcmp m s1 s2 (Suc n) =
     (if m s1 \<noteq> m s2 then uint (m s1) - uint (m s2) else memcmp m (s1 + 1) (s2 + 1) n)"

lemma all_less_Suc2: "(\<forall>i < Suc n. P i) \<longleftrightarrow> P 0 \<and> (\<forall>i < n. P (Suc i))"
  by (auto simp: less_Suc_eq_0_disj)

lemma memcmp_zero: "memcmp m a b n = 0 \<longleftrightarrow> (\<forall>i < n. m (a + i) = m (b + i))"
proof (induction m a b n rule: memcmp.induct)
  case (2 m a b n)
  then show ?case by (auto simp: all_less_Suc2 simp flip: word_uint_eq_iff)
qed simp

section \<open>memmove\<close>

text \<open>The two loops of \<open>memmove\<close>: downwards from the ends, and upwards from the starts.\<close>

fun memmove_down :: "bytes \<Rightarrow> nat \<Rightarrow> nat \<Rightarrow> nat \<Rightarrow> bytes" where
  "memmove_down m d s 0 = m"
| "memmove_down m d s (Suc n) = memmove_down (m(d - 1 := m (s - 1))) (d - 1) (s - 1) n"

fun memmove_up :: "bytes \<Rightarrow> nat \<Rightarrow> nat \<Rightarrow> nat \<Rightarrow> bytes" where
  "memmove_up m d s 0 = m"
| "memmove_up m d s (Suc n) = memmove_up (m(d := m s)) (d + 1) (s + 1) n"

definition memmove :: "bytes \<Rightarrow> nat \<Rightarrow> nat \<Rightarrow> nat \<Rightarrow> bytes" where
  "memmove m dst src n =
     (if src < dst \<and> src + n > dst then memmove_down m (dst + n) (src + n) n
      else memmove_up m dst src n)"

lemma memmove_down_copy:
  "s < d \<Longrightarrow> memmove_down m (d + n) (s + n) n = copy_bytes m d m s n"
proof (induction n arbitrary: m)
  case (Suc n)
  have "memmove_down m (d + Suc n) (s + Suc n) (Suc n)
      = copy_bytes (m(d + n := m (s + n))) d (m(d + n := m (s + n))) s n"
    using Suc by simp
  also have "\<dots> = copy_bytes m d m s (Suc n)"
    using \<open>s < d\<close> by (auto simp: copy_bytes_def fun_eq_iff less_Suc_eq)
  finally show ?case .
qed simp

lemma memmove_up_copy:
  "d \<le> s \<or> s + n \<le> d \<Longrightarrow> memmove_up m d s n = copy_bytes m d m s n"
proof (induction n arbitrary: m d s)
  case (Suc n)
  have "memmove_up m d s (Suc n) = copy_bytes (m(d := m s)) (d + 1) (m(d := m s)) (s + 1) n"
    using Suc.IH [of "d + 1" "s + 1" "m(d := m s)"] Suc.prems by (auto simp del: fun_upd_apply)
  also have "\<dots> = copy_bytes m d m s (Suc n)"
  proof -
    have "Suc (s + x - Suc d) = s + x - d" if "d < x" for x using that by arith
    then show ?thesis
      using Suc.prems by (auto simp: copy_bytes_def fun_eq_iff le_Suc_eq Suc_le_eq)
  qed
  finally show ?case .
qed simp

lemma memmove_copy: "memmove m dst src n = copy_bytes m dst m src n"
  by (auto simp: memmove_def memmove_down_copy memmove_up_copy)

definition memcpy :: "bytes \<Rightarrow> nat \<Rightarrow> nat \<Rightarrow> nat \<Rightarrow> bytes" where
  "memcpy m dst src n = memmove m dst src n"

section \<open>String comparison and copying\<close>

fun strncmp :: "bytes \<Rightarrow> nat \<Rightarrow> nat \<Rightarrow> nat \<Rightarrow> int" where
  "strncmp m p q 0 = 0"
| "strncmp m p q (Suc n) =
     (if m p \<noteq> 0 \<and> m p = m q then strncmp m (p + 1) (q + 1) n else uint (m p) - uint (m q))"

text \<open>
  Two strings agree on their first \<open>n\<close> characters: they have the same bytes up to position \<open>n\<close> or up
  to and including the first NUL.
\<close>

definition same_prefix :: "bytes \<Rightarrow> nat \<Rightarrow> nat \<Rightarrow> nat \<Rightarrow> bool" where
  "same_prefix m p q n \<longleftrightarrow> (\<forall>i < n. (\<forall>j < i. m (p + j) \<noteq> 0) \<longrightarrow> m (p + i) = m (q + i))"

lemma same_prefix_Suc:
  "same_prefix m p q (Suc n) \<longleftrightarrow> m p = m q \<and> (m p \<noteq> 0 \<longrightarrow> same_prefix m (p + 1) (q + 1) n)"
  by (auto simp: same_prefix_def all_less_Suc2)

lemma strncmp_zero: "strncmp m p q n = 0 \<longleftrightarrow> same_prefix m p q n"
proof (induction m p q n rule: strncmp.induct)
  case (1 m p q)
  then show ?case by (simp add: same_prefix_def)
next
  case (2 m p q n)
  then show ?case by (auto simp: same_prefix_Suc simp flip: word_uint_eq_iff)
qed

fun strncpy_pad :: "bytes \<Rightarrow> nat \<Rightarrow> nat \<Rightarrow> bytes" where
  "strncpy_pad m s 0 = m"
| "strncpy_pad m s (Suc n) = strncpy_pad (m(s := 0)) (s + 1) n"

fun strncpy_loop :: "bytes \<Rightarrow> nat \<Rightarrow> nat \<Rightarrow> nat \<Rightarrow> bytes" where
  "strncpy_loop m s t 0 = m"
| "strncpy_loop m s t (Suc n) =
     (let c = m t; m = m(s := c)
      in if c \<noteq> 0 then strncpy_loop m (s + 1) (t + 1) n else strncpy_pad m (s + 1) n)"

definition strncpy :: "bytes \<Rightarrow> nat \<Rightarrow> nat \<Rightarrow> int \<Rightarrow> bytes" where
  "strncpy m s t n = strncpy_loop m s t (nat n)"

text \<open>
  \<open>while(--n > 0 && (*s++ = *t++) != 0); *s = 0;\<close> where the counter is \<open>Suc n\<close> before the decrement.
\<close>

fun safestrcpy_loop :: "bytes \<Rightarrow> nat \<Rightarrow> nat \<Rightarrow> nat \<Rightarrow> bytes" where
  "safestrcpy_loop m s t 0 = m(s := 0)"
| "safestrcpy_loop m s t (Suc n) =
     (let c = m t; m = m(s := c)
      in if c \<noteq> 0 then safestrcpy_loop m (s + 1) (t + 1) n else m(s + 1 := 0))"

definition safestrcpy :: "bytes \<Rightarrow> nat \<Rightarrow> nat \<Rightarrow> int \<Rightarrow> bytes" where
  "safestrcpy m s t n = (if n \<le> 0 then m else safestrcpy_loop m s t (nat n - 1))"

partial_function (option) strlen_from :: "bytes \<Rightarrow> nat \<Rightarrow> nat \<Rightarrow> nat option" where
  "strlen_from m s n = (if m (s + n) \<noteq> 0 then strlen_from m s (n + 1) else Some n)"

definition strlen :: "bytes \<Rightarrow> nat \<Rightarrow> nat option" where
  "strlen m s = strlen_from m s 0"

text \<open>A NUL-terminated string of length \<open>n\<close> at \<open>s\<close>.\<close>

definition cstring :: "bytes \<Rightarrow> nat \<Rightarrow> nat \<Rightarrow> bool" where
  "cstring m s n \<longleftrightarrow> m (s + n) = 0 \<and> (\<forall>i < n. m (s + i) \<noteq> 0)"

lemma strlen_from_cstring:
  "cstring m s n \<Longrightarrow> k \<le> n \<Longrightarrow> strlen_from m s k = Some n"
proof (induction "n - k" arbitrary: k)
  case 0
  then show ?case by (simp add: strlen_from.simps cstring_def)
next
  case (Suc d)
  then have "m (s + k) \<noteq> 0" "strlen_from m s (k + 1) = Some n" by (auto simp: cstring_def)
  then show ?case by (simp add: strlen_from.simps [of m s k])
qed

lemma strlen_cstring: "cstring m s n \<Longrightarrow> strlen m s = Some n"
  by (simp add: strlen_def strlen_from_cstring)

lemma safestrcpy_loop_outside:
  "i < s \<or> s + n < i \<Longrightarrow> safestrcpy_loop m s t n i = m i"
  by (induction m s t n rule: safestrcpy_loop.induct) (auto simp: Let_def)

lemma safestrcpy_loop_copies:
  assumes "cstring m t k" "t + k < s \<or> s + n < t"
  shows "cstring (safestrcpy_loop m s t n) s (min n k)
    \<and> (\<forall>i < min n k. safestrcpy_loop m s t n (s + i) = m (t + i))"
  using assms
proof (induction n arbitrary: m s t k)
  case 0
  then show ?case by (simp add: cstring_def)
next
  case (Suc n)
  show ?case
  proof (cases k)
    case 0
    with Suc.prems show ?thesis by (simp add: cstring_def Let_def)
  next
    case (Suc k')
    let ?m = "m(s := m t)"
    have ne: "m t \<noteq> 0" using Suc.prems(1) Suc by (auto simp: cstring_def)
    have "cstring ?m (t + 1) k'"
      using Suc.prems Suc by (auto simp: cstring_def)
    then have IH: "cstring (safestrcpy_loop ?m (s + 1) (t + 1) n) (s + 1) (min n k')
      \<and> (\<forall>i < min n k'. safestrcpy_loop ?m (s + 1) (t + 1) n (s + 1 + i) = ?m (t + 1 + i))"
      using Suc.IH [of ?m "t + 1" k' "s + 1"] Suc.prems(2) Suc by (auto simp del: fun_upd_apply)
    have first: "safestrcpy_loop ?m (s + 1) (t + 1) n s = m t"
      by (simp add: safestrcpy_loop_outside)
    from IH first ne Suc Suc.prems(2) show ?thesis
      by (auto simp: cstring_def Let_def all_less_Suc2 less_Suc_eq_0_disj)
  qed
qed

end
