(* ===== verification/Xv6_Spinlock.thy ===== *)
theory Xv6_Spinlock
  imports Xv6_Prelude
begin

text \<open>
  Spin locks (src/spinlock.c), at two levels.

  The first level is the C code on a multiprocessor: the per-CPU interrupt flag, \<open>ncli\<close> and
  \<open>intena\<close> (struct cpu of src/proc.h), the fields of struct spinlock, \<open>pushcli\<close>, \<open>popcli\<close>,
  \<open>mycpu\<close>, \<open>holding\<close>, and the steps of \<open>acquire\<close> and \<open>release\<close> between which other CPUs may run.
  A step relation interleaves the CPUs; its invariant gives mutual exclusion.

  The second level is what the rest of the kernel uses: the set \<open>held\<close> of locks that the running
  CPU holds. A simulation shows that every step of the first level is a step or a stutter of the
  second. All later components run at the second level: a spin loop is not visible there, since
  \<open>acquire\<close> only returns when the lock was free.
\<close>

section \<open>Locks and channels of the kernel\<close>

text \<open>
  Sleep locks live in buffers and inodes; each contains a spin lock. Two locks are the same when
  they are the same object, so an address is modelled by the name of the object.
\<close>

datatype sleepid = SBuf nat | SInode nat

datatype lockid =
    LPtable | LPptable | LTicks | LKmem | LBcache | LLog | LIcache | LFtable | LCons | LIde
  | LSleep sleepid
  | LPipe nat

section \<open>The C code on several CPUs\<close>

record cpu =
  apicid :: u8
  cpu_if :: bool
  ncli :: int
  intena :: bool

record spinlock =
  lk_locked :: u32
  lk_cpu :: "nat option"

record smp =
  cpus :: "nat \<Rightarrow> cpu"
  ncpu :: nat
  hw_apicid :: "nat \<Rightarrow> u8"
  locks :: "lockid \<Rightarrow> spinlock"

definition initlock :: "lockid \<Rightarrow> smp \<Rightarrow> smp" where
  "initlock L s = s\<lparr>locks := (locks s)(L := \<lparr>lk_locked = 0, lk_cpu = None\<rparr>)\<rparr>"

text \<open>
  \<open>mycpu\<close> of src/proc.c: \<open>c\<close> is the processor that executes the call; the code reads its local
  APIC id and searches the table \<open>cpus\<close> for it.
\<close>

definition mycpu :: "nat \<Rightarrow> smp \<Rightarrow> (smp, nat) outcome" where
  "mycpu c s =
     (if cpu_if (cpus s c) then Panic ''mycpu called with interrupts enabled''
      else case find_from (\<lambda>i. apicid (cpus s i) = hw_apicid s c) 0 (ncpu s) of
             Some i \<Rightarrow> Ret i s
           | None \<Rightarrow> Panic ''unknown apicid'')"

definition upd_cpu :: "nat \<Rightarrow> (cpu \<Rightarrow> cpu) \<Rightarrow> smp \<Rightarrow> smp" where
  "upd_cpu i f s = s\<lparr>cpus := (cpus s)(i := f (cpus s i))\<rparr>"

definition pushcli :: "nat \<Rightarrow> smp \<Rightarrow> (smp, unit) outcome" where
  "pushcli c s =
     (let eflags = cpu_if (cpus s c);
          s = upd_cpu c (cpu_if_update (\<lambda>_. False)) s
      in bindK (mycpu c s) (\<lambda>i s.
         let s = (if ncli (cpus s i) = 0 then upd_cpu i (intena_update (\<lambda>_. eflags)) s else s)
         in Ret () (upd_cpu i (ncli_update (\<lambda>n. n + 1)) s)))"

definition popcli :: "nat \<Rightarrow> smp \<Rightarrow> (smp, unit) outcome" where
  "popcli c s =
     (if cpu_if (cpus s c) then Panic ''popcli - interruptible''
      else bindK (mycpu c s) (\<lambda>i s.
        let s = upd_cpu i (ncli_update (\<lambda>n. n - 1)) s
        in if ncli (cpus s i) < 0 then Panic ''popcli''
           else if ncli (cpus s i) = 0 \<and> intena (cpus s i)
           then Ret () (upd_cpu c (cpu_if_update (\<lambda>_. True)) s)
           else Ret () s))"

definition holding :: "nat \<Rightarrow> lockid \<Rightarrow> smp \<Rightarrow> (smp, bool) outcome" where
  "holding c L s =
     bindK (pushcli c s) (\<lambda>_ s.
     bindK (mycpu c s) (\<lambda>i s.
     let r = (lk_locked (locks s L) \<noteq> 0 \<and> lk_cpu (locks s L) = Some i)
     in bindK (popcli c s) (\<lambda>_ s. Ret r s)))"

text \<open>
  \<open>acquire\<close> up to its spin loop, one iteration of the loop (the atomic \<open>xchg\<close>), and the rest.
\<close>

definition acquire_enter :: "nat \<Rightarrow> lockid \<Rightarrow> smp \<Rightarrow> (smp, unit) outcome" where
  "acquire_enter c L s =
     bindK (pushcli c s) (\<lambda>_ s.
     bindK (holding c L s) (\<lambda>h s.
     if h then Panic ''acquire'' else Ret () s))"

definition acquire_xchg :: "lockid \<Rightarrow> smp \<Rightarrow> bool \<times> smp" where
  "acquire_xchg L s =
     (lk_locked (locks s L) = 0, s\<lparr>locks := (locks s)(L := (locks s L)\<lparr>lk_locked := 1\<rparr>)\<rparr>)"

definition acquire_record :: "nat \<Rightarrow> lockid \<Rightarrow> smp \<Rightarrow> (smp, unit) outcome" where
  "acquire_record c L s =
     bindK (mycpu c s) (\<lambda>i s.
     Ret () (s\<lparr>locks := (locks s)(L := (locks s L)\<lparr>lk_cpu := Some i\<rparr>)\<rparr>))"

text \<open>\<open>release\<close> up to the barrier, and the store that frees the lock with the final \<open>popcli\<close>.\<close>

definition release_check :: "nat \<Rightarrow> lockid \<Rightarrow> smp \<Rightarrow> (smp, unit) outcome" where
  "release_check c L s =
     bindK (holding c L s) (\<lambda>h s.
     if \<not> h then Panic ''release''
     else Ret () (s\<lparr>locks := (locks s)(L := (locks s L)\<lparr>lk_cpu := None\<rparr>)\<rparr>))"

definition release_store :: "nat \<Rightarrow> lockid \<Rightarrow> smp \<Rightarrow> (smp, unit) outcome" where
  "release_store c L s =
     popcli c (s\<lparr>locks := (locks s)(L := (locks s L)\<lparr>lk_locked := 0\<rparr>)\<rparr>)"

text \<open>
  The call stack that \<open>acquire\<close> records for debugging: at most ten frames, following saved frame
  pointers through kernel memory; \<open>rd\<close> reads the word at an address.
\<close>

fun callerpcs_walk :: "(u32 \<Rightarrow> u32) \<Rightarrow> u32 \<Rightarrow> nat \<Rightarrow> u32 list" where
  "callerpcs_walk rd ebp 0 = []"
| "callerpcs_walk rd ebp (Suc k) =
     (if ebp = 0 \<or> ebp < 0x80000000 \<or> ebp = 0xffffffff then []
      else rd (ebp + 4) # callerpcs_walk rd (rd ebp) k)"

definition getcallerpcs :: "(u32 \<Rightarrow> u32) \<Rightarrow> u32 \<Rightarrow> u32 list" where
  "getcallerpcs rd v =
     (let pcs = callerpcs_walk rd (v - 8) 10 in pcs @ replicate (10 - length pcs) 0)"

lemma length_callerpcs_walk: "length (callerpcs_walk rd ebp k) \<le> k"
  by (induction rd ebp k rule: callerpcs_walk.induct) auto

lemma length_getcallerpcs: "length (getcallerpcs rd v) = 10"
  using length_callerpcs_walk [of rd "v - 8" 10] by (simp add: getcallerpcs_def Let_def)

section \<open>Interrupt nesting\<close>

text \<open>The APIC ids in the table are those of the processors, and no two are the same.\<close>

definition apics_ok :: "smp \<Rightarrow> bool" where
  "apics_ok s \<longleftrightarrow> (\<forall>i < ncpu s. apicid (cpus s i) = hw_apicid s i) \<and> inj_on (hw_apicid s) {..<ncpu s}"

lemma mycpu_self:
  "apics_ok s \<Longrightarrow> c < ncpu s \<Longrightarrow> \<not> cpu_if (cpus s c) \<Longrightarrow> mycpu c s = Ret c s"
proof -
  assume a: "apics_ok s" "c < ncpu s" "\<not> cpu_if (cpus s c)"
  then have "find_from (\<lambda>i. apicid (cpus s i) = hw_apicid s c) 0 (ncpu s) = Some c"
    by (auto simp: find_from_Some apics_ok_def inj_on_def)
  with a show ?thesis by (simp add: mycpu_def)
qed

lemma upd_cpu_sels [simp]:
  "ncpu (upd_cpu i f s) = ncpu s" "hw_apicid (upd_cpu i f s) = hw_apicid s"
  "locks (upd_cpu i f s) = locks s" "cpus (upd_cpu i f s) = (cpus s)(i := f (cpus s i))"
  by (simp_all add: upd_cpu_def)

lemma apics_ok_upd [simp]:
  "apicid (f (cpus s i)) = apicid (cpus s i) \<Longrightarrow> apics_ok (upd_cpu i f s) = apics_ok s"
  by (auto simp: apics_ok_def)

lemma apics_ok_locks [simp]: "apics_ok (s\<lparr>locks := l\<rparr>) = apics_ok s"
  by (simp add: apics_ok_def)

text \<open>The processor after \<open>pushcli\<close> and after \<open>popcli\<close>.\<close>

definition cli_cpu :: "cpu \<Rightarrow> cpu" where
  "cli_cpu p = p\<lparr>cpu_if := False, ncli := ncli p + 1,
     intena := (if ncli p = 0 then cpu_if p else intena p)\<rparr>"

definition sti_cpu :: "cpu \<Rightarrow> cpu" where
  "sti_cpu p = p\<lparr>cpu_if := (ncli p = 1 \<and> intena p), ncli := ncli p - 1\<rparr>"

lemma upd_cpu_upd_cpu: "upd_cpu i f (upd_cpu i g s) = upd_cpu i (f \<circ> g) s"
  by (simp add: upd_cpu_def)

lemma upd_cpu_cong: "f (cpus s i) = g (cpus s i) \<Longrightarrow> upd_cpu i f s = upd_cpu i g s"
  by (simp add: upd_cpu_def)

lemma pushcli_eq:
  assumes "apics_ok s" "c < ncpu s"
  shows "pushcli c s = Ret () (upd_cpu c cli_cpu s)"
proof -
  let ?s = "upd_cpu c (cpu_if_update (\<lambda>_. False)) s"
  have "mycpu c ?s = Ret c ?s" using assms by (intro mycpu_self) auto
  then show ?thesis
    by (auto simp: pushcli_def Let_def upd_cpu_upd_cpu cli_cpu_def intro!: upd_cpu_cong)
qed

lemma popcli_eq:
  assumes "apics_ok s" "c < ncpu s" "\<not> cpu_if (cpus s c)" "0 < ncli (cpus s c)"
  shows "popcli c s = Ret () (upd_cpu c sti_cpu s)"
proof -
  have "mycpu c s = Ret c s" using assms by (intro mycpu_self) auto
  with assms show ?thesis
    by (auto simp: popcli_def Let_def upd_cpu_upd_cpu sti_cpu_def intro!: upd_cpu_cong)
qed

lemma sti_cli: "sti_cpu (cli_cpu p) = p\<lparr>intena := (if ncli p = 0 then cpu_if p else intena p)\<rparr>"
  if "ncli p \<noteq> 0 \<longrightarrow> \<not> cpu_if p"
  using that by (auto simp: sti_cpu_def cli_cpu_def)

text \<open>A processor is sane when interrupts are off while \<open>ncli\<close> is positive.\<close>

definition cpu_ok :: "cpu \<Rightarrow> bool" where
  "cpu_ok p \<longleftrightarrow> 0 \<le> ncli p \<and> (0 < ncli p \<longrightarrow> \<not> cpu_if p)"

lemma cpu_ok_cli [simp]: "cpu_ok p \<Longrightarrow> cpu_ok (cli_cpu p)"
  by (auto simp: cpu_ok_def cli_cpu_def)

lemma cpu_ok_sti: "cpu_ok p \<Longrightarrow> 0 < ncli p \<Longrightarrow> cpu_ok (sti_cpu p)"
  by (auto simp: cpu_ok_def sti_cpu_def)

lemma cli_cpu_sels [simp]:
  "apicid (cli_cpu p) = apicid p" "\<not> cpu_if (cli_cpu p)" "ncli (cli_cpu p) = ncli p + 1"
  "intena (cli_cpu p) = (if ncli p = 0 then cpu_if p else intena p)"
  by (simp_all add: cli_cpu_def)

lemma sti_cpu_sels [simp]:
  "apicid (sti_cpu p) = apicid p" "ncli (sti_cpu p) = ncli p - 1"
  by (simp_all add: sti_cpu_def)

text \<open>\<open>k\<close> calls of \<open>pushcli\<close>, then \<open>k\<close> calls of \<open>popcli\<close>.\<close>

fun repeatK :: "nat \<Rightarrow> ('s \<Rightarrow> ('s, unit) outcome) \<Rightarrow> 's \<Rightarrow> ('s, unit) outcome" where
  "repeatK 0 f s = Ret () s"
| "repeatK (Suc k) f s = bindK (f s) (\<lambda>_ s. repeatK k f s)"

lemma upd_cpu_id: "(\<And>p. f p = p) \<Longrightarrow> upd_cpu i f s = s"
  by (simp add: upd_cpu_def)

lemma repeat_pushcli:
  "apics_ok s \<Longrightarrow> c < ncpu s \<Longrightarrow> repeatK k (pushcli c) s = Ret () (upd_cpu c (cli_cpu ^^ k) s)"
proof (induction k arbitrary: s)
  case 0
  then show ?case by (simp add: upd_cpu_id)
next
  case (Suc k)
  then have "repeatK (Suc k) (pushcli c) s = repeatK k (pushcli c) (upd_cpu c cli_cpu s)"
    by (simp add: pushcli_eq)
  also have "\<dots> = Ret () (upd_cpu c (cli_cpu ^^ k) (upd_cpu c cli_cpu s))"
    using Suc by simp
  also have "\<dots> = Ret () (upd_cpu c (cli_cpu ^^ Suc k) s)"
    by (simp add: upd_cpu_upd_cpu funpow_Suc_right del: funpow.simps)
  finally show ?case .
qed

lemma ncli_cli_pow [simp]: "ncli ((cli_cpu ^^ k) p) = ncli p + int k"
  by (induction k) auto

lemma apicid_cli_pow [simp]: "apicid ((cli_cpu ^^ k) p) = apicid p"
  by (induction k) auto

lemma if_cli_pow: "0 < k \<Longrightarrow> \<not> cpu_if ((cli_cpu ^^ k) p)"
  by (cases k) auto

lemma intena_cli_pow:
  "0 \<le> ncli p \<Longrightarrow> 0 < k \<Longrightarrow>
   intena ((cli_cpu ^^ k) p) = (if ncli p = 0 then cpu_if p else intena p)"
proof (induction k)
  case (Suc k)
  then show ?case by (cases k) auto
qed simp

lemma repeat_popcli:
  "\<lbrakk>apics_ok s; c < ncpu s; \<not> cpu_if (cpus s c); int k \<le> ncli (cpus s c)\<rbrakk> \<Longrightarrow>
   repeatK k (popcli c) s = Ret () (upd_cpu c (sti_cpu ^^ k) s)"
proof (induction k arbitrary: s)
  case 0
  then show ?case by (simp add: upd_cpu_id)
next
  case (Suc k)
  have one: "repeatK (Suc k) (popcli c) s = repeatK k (popcli c) (upd_cpu c sti_cpu s)"
    using Suc.prems by (simp add: popcli_eq)
  show ?case
  proof (cases k)
    case 0
    with Suc.prems one show ?thesis by simp
  next
    case (Suc j)
    have "\<not> cpu_if (sti_cpu (cpus s c))"
      using Suc.prems Suc by (auto simp: sti_cpu_def)
    then have "repeatK k (popcli c) (upd_cpu c sti_cpu s)
        = Ret () (upd_cpu c (sti_cpu ^^ k) (upd_cpu c sti_cpu s))"
      using Suc.prems by (intro Suc.IH) auto
    then show ?thesis
      using one by (simp add: upd_cpu_upd_cpu funpow_Suc_right del: funpow.simps)
  qed
qed

lemma ncli_sti_pow [simp]: "ncli ((sti_cpu ^^ k) p) = ncli p - int k"
  by (induction k) auto

lemma intena_sti_pow [simp]: "intena ((sti_cpu ^^ k) p) = intena p"
  by (induction k) (auto simp: sti_cpu_def)

lemma if_sti_pow: "0 < k \<Longrightarrow> cpu_if ((sti_cpu ^^ k) p) \<longleftrightarrow> ncli p = int k \<and> intena p"
  by (cases k) (auto simp: sti_cpu_def)

text \<open>After \<open>k\<close> matched pairs the interrupt flag and the depth are what they were.\<close>

lemma push_pop_balanced:
  assumes "apics_ok s" "c < ncpu s" "cpu_ok (cpus s c)" "0 < k"
  shows "returns (bindK (repeatK k (pushcli c) s) (\<lambda>_ s'. repeatK k (popcli c) s'))
    (\<lambda>_ s'. cpu_if (cpus s' c) = cpu_if (cpus s c) \<and> ncli (cpus s' c) = ncli (cpus s c)
       \<and> locks s' = locks s)"
proof -
  let ?p = "cpus s c"
  let ?q = "(cli_cpu ^^ k) ?p"
  have q: "ncli ?q = ncli ?p + int k" "\<not> cpu_if ?q"
    "intena ?q = (if ncli ?p = 0 then cpu_if ?p else intena ?p)"
    using assms by (auto simp: if_cli_pow intena_cli_pow cpu_ok_def)
  have "cpu_if ((sti_cpu ^^ k) ?q) = cpu_if ?p" "ncli ((sti_cpu ^^ k) ?q) = ncli ?p"
    using q if_sti_pow [of k ?q] assms(3,4) by (auto simp: cpu_ok_def)
  moreover have "repeatK k (popcli c) (upd_cpu c (cli_cpu ^^ k) s)
      = Ret () (upd_cpu c (sti_cpu ^^ k) (upd_cpu c (cli_cpu ^^ k) s))"
    using assms q by (intro repeat_popcli) (auto simp: cpu_ok_def)
  ultimately show ?thesis
    using assms by (simp add: repeat_pushcli upd_cpu_upd_cpu)
qed

section \<open>Interleaving of the CPUs\<close>

text \<open>
  Where each CPU is: outside the lock routines, in the spin loop of \<open>acquire\<close>, after the \<open>xchg\<close>
  that won the lock, or in \<open>release\<close> before the store. \<open>crit\<close> is the set of locks whose critical
  section the CPU is in.
\<close>

datatype lpc = Run | Spin lockid | Won lockid | Rel lockid

record mach =
  sys :: smp
  lpc_of :: "nat \<Rightarrow> lpc"
  crit :: "nat \<Rightarrow> lockid set"

inductive lock_step :: "mach \<Rightarrow> mach \<Rightarrow> bool" where
  enter: "\<lbrakk>c < ncpu (sys m); lpc_of m c = Run; acquire_enter c L (sys m) = Ret () s\<rbrakk> \<Longrightarrow>
    lock_step m (m\<lparr>sys := s, lpc_of := (lpc_of m)(c := Spin L)\<rparr>)"
| spin: "\<lbrakk>c < ncpu (sys m); lpc_of m c = Spin L; acquire_xchg L (sys m) = (False, s)\<rbrakk> \<Longrightarrow>
    lock_step m (m\<lparr>sys := s\<rparr>)"
| win: "\<lbrakk>c < ncpu (sys m); lpc_of m c = Spin L; acquire_xchg L (sys m) = (True, s)\<rbrakk> \<Longrightarrow>
    lock_step m (m\<lparr>sys := s, lpc_of := (lpc_of m)(c := Won L)\<rparr>)"
| rec_cpu: "\<lbrakk>c < ncpu (sys m); lpc_of m c = Won L; acquire_record c L (sys m) = Ret () s\<rbrakk> \<Longrightarrow>
    lock_step m (m\<lparr>sys := s, lpc_of := (lpc_of m)(c := Run),
      crit := (crit m)(c := insert L (crit m c))\<rparr>)"
| rel: "\<lbrakk>c < ncpu (sys m); lpc_of m c = Run; release_check c L (sys m) = Ret () s\<rbrakk> \<Longrightarrow>
    lock_step m (m\<lparr>sys := s, lpc_of := (lpc_of m)(c := Rel L),
      crit := (crit m)(c := crit m c - {L})\<rparr>)"
| store: "\<lbrakk>c < ncpu (sys m); lpc_of m c = Rel L; release_store c L (sys m) = Ret () s\<rbrakk> \<Longrightarrow>
    lock_step m (m\<lparr>sys := s, lpc_of := (lpc_of m)(c := Run)\<rparr>)"

text \<open>The machine at boot: every lock initialised, no CPU in a lock routine.\<close>

definition lock_boot :: "mach \<Rightarrow> bool" where
  "lock_boot m \<longleftrightarrow> apics_ok (sys m)
     \<and> (\<forall>c < ncpu (sys m). ncli (cpus (sys m) c) = 0)
     \<and> (\<forall>L. locks (sys m) L = \<lparr>lk_locked = 0, lk_cpu = None\<rparr>)
     \<and> (\<forall>c. lpc_of m c = Run \<and> crit m c = {})"

inductive lock_reach :: "mach \<Rightarrow> bool" where
  boot: "lock_boot m \<Longrightarrow> lock_reach m"
| step: "lock_reach m \<Longrightarrow> lock_step m n \<Longrightarrow> lock_reach n"

text \<open>CPU \<open>c\<close> owns \<open>L\<close> from the winning \<open>xchg\<close> to the store that frees it.\<close>

definition owns :: "mach \<Rightarrow> nat \<Rightarrow> lockid \<Rightarrow> bool" where
  "owns m c L \<longleftrightarrow> L \<in> crit m c \<or> lpc_of m c = Won L \<or> lpc_of m c = Rel L"

definition own_inv :: "mach \<Rightarrow> bool" where
  "own_inv m \<longleftrightarrow> (\<forall>c L. owns m c L \<longrightarrow> c < ncpu (sys m) \<and> lk_locked (locks (sys m) L) \<noteq> 0
     \<and> (\<forall>d. owns m d L \<longrightarrow> d = c))"

definition cpu_field_inv :: "mach \<Rightarrow> bool" where
  "cpu_field_inv m \<longleftrightarrow> (\<forall>c L. lk_cpu (locks (sys m) L) = Some c \<longleftrightarrow> L \<in> crit m c)"

definition pc_inv :: "mach \<Rightarrow> bool" where
  "pc_inv m \<longleftrightarrow> (\<forall>c L. lpc_of m c = Spin L \<or> lpc_of m c = Won L \<or> lpc_of m c = Rel L \<longrightarrow> L \<notin> crit m c)"

definition depth_inv :: "mach \<Rightarrow> bool" where
  "depth_inv m \<longleftrightarrow> (\<forall>c < ncpu (sys m). cpu_ok (cpus (sys m) c) \<and> finite (crit m c)
     \<and> ncli (cpus (sys m) c) = int (card (crit m c)) + (if lpc_of m c = Run then 0 else 1))"

definition lock_inv :: "mach \<Rightarrow> bool" where
  "lock_inv m \<longleftrightarrow> apics_ok (sys m) \<and> own_inv m \<and> cpu_field_inv m \<and> pc_inv m \<and> depth_inv m"

lemmas lock_inv_defs = lock_inv_def own_inv_def cpu_field_inv_def pc_inv_def depth_inv_def

lemma lock_invD:
  assumes "lock_inv m"
  shows "apics_ok (sys m)"
    and "owns m c L \<Longrightarrow> c < ncpu (sys m)"
    and "owns m c L \<Longrightarrow> lk_locked (locks (sys m) L) \<noteq> 0"
    and "owns m c L \<Longrightarrow> owns m d L \<Longrightarrow> d = c"
    and "lk_cpu (locks (sys m) L) = Some c \<longleftrightarrow> L \<in> crit m c"
    and "lpc_of m c = Spin L \<or> lpc_of m c = Won L \<or> lpc_of m c = Rel L \<Longrightarrow> L \<notin> crit m c"
    and "c < ncpu (sys m) \<Longrightarrow> cpu_ok (cpus (sys m) c)"
    and "c < ncpu (sys m) \<Longrightarrow> finite (crit m c)"
    and "c < ncpu (sys m) \<Longrightarrow>
      ncli (cpus (sys m) c) = int (card (crit m c)) + (if lpc_of m c = Run then 0 else 1)"
proof -
  from assms have i: "apics_ok (sys m)" "own_inv m" "cpu_field_inv m" "pc_inv m" "depth_inv m"
    by (simp_all add: lock_inv_def)
  show "apics_ok (sys m)" by (fact i)
  show "owns m c L \<Longrightarrow> c < ncpu (sys m)" "owns m c L \<Longrightarrow> lk_locked (locks (sys m) L) \<noteq> 0"
    "owns m c L \<Longrightarrow> owns m d L \<Longrightarrow> d = c"
    using i(2) by (auto simp: own_inv_def)
  show "lk_cpu (locks (sys m) L) = Some c \<longleftrightarrow> L \<in> crit m c"
    using i(3) by (simp add: cpu_field_inv_def)
  show "lpc_of m c = Spin L \<or> lpc_of m c = Won L \<or> lpc_of m c = Rel L \<Longrightarrow> L \<notin> crit m c"
    using i(4) unfolding pc_inv_def by blast
  show "c < ncpu (sys m) \<Longrightarrow> cpu_ok (cpus (sys m) c)" "c < ncpu (sys m) \<Longrightarrow> finite (crit m c)"
    "c < ncpu (sys m) \<Longrightarrow>
      ncli (cpus (sys m) c) = int (card (crit m c)) + (if lpc_of m c = Run then 0 else 1)"
    using i(5) by (auto simp: depth_inv_def)
qed

lemma lock_inv_boot: "lock_boot m \<Longrightarrow> lock_inv m"
  by (auto simp: lock_boot_def lock_inv_defs owns_def cpu_ok_def)

lemma holding_eq:
  assumes "apics_ok s" "c < ncpu s" "cpu_ok (cpus s c)"
  shows "holding c L s
    = Ret (lk_locked (locks s L) \<noteq> 0 \<and> lk_cpu (locks s L) = Some c) (upd_cpu c (sti_cpu \<circ> cli_cpu) s)"
proof -
  let ?s = "upd_cpu c cli_cpu s"
  have "mycpu c ?s = Ret c ?s" "popcli c ?s = Ret () (upd_cpu c sti_cpu ?s)"
    using assms by (auto intro!: mycpu_self popcli_eq simp: cpu_ok_def)
  then show ?thesis
    using assms by (simp add: holding_def pushcli_eq upd_cpu_upd_cpu)
qed

lemma sti_cli_nested: "cpu_ok p \<Longrightarrow> 0 < ncli p \<Longrightarrow> sti_cpu (cli_cpu p) = p"
  by (simp add: sti_cli cpu_ok_def)

lemma upd_cpu_same: "f (cpus s i) = cpus s i \<Longrightarrow> upd_cpu i f s = s"
  by (simp add: upd_cpu_def)

lemma holding_nested:
  assumes "apics_ok s" "c < ncpu s" "cpu_ok (cpus s c)" "0 < ncli (cpus s c)"
  shows "holding c L s = Ret (lk_locked (locks s L) \<noteq> 0 \<and> lk_cpu (locks s L) = Some c) s"
  using assms by (simp add: holding_eq upd_cpu_same sti_cli_nested)

lemma acquire_enter_eq:
  assumes "apics_ok s" "c < ncpu s" "cpu_ok (cpus s c)"
  shows "acquire_enter c L s =
    (if lk_locked (locks s L) \<noteq> 0 \<and> lk_cpu (locks s L) = Some c then Panic ''acquire''
     else Ret () (upd_cpu c cli_cpu s))"
proof -
  have "holding c L (upd_cpu c cli_cpu s) = Ret (lk_locked (locks s L) \<noteq> 0
      \<and> lk_cpu (locks s L) = Some c) (upd_cpu c cli_cpu s)"
    using assms by (subst holding_nested) (auto simp: cpu_ok_def)
  with assms show ?thesis by (simp add: acquire_enter_def pushcli_eq)
qed

lemma acquire_record_eq:
  assumes "apics_ok s" "c < ncpu s" "cpu_ok (cpus s c)" "0 < ncli (cpus s c)"
  shows "acquire_record c L s = Ret () (s\<lparr>locks := (locks s)(L := (locks s L)\<lparr>lk_cpu := Some c\<rparr>)\<rparr>)"
  using assms by (simp add: acquire_record_def mycpu_self cpu_ok_def)

lemma release_check_eq:
  assumes "apics_ok s" "c < ncpu s" "cpu_ok (cpus s c)" "0 < ncli (cpus s c)"
  shows "release_check c L s =
    (if lk_locked (locks s L) \<noteq> 0 \<and> lk_cpu (locks s L) = Some c
     then Ret () (s\<lparr>locks := (locks s)(L := (locks s L)\<lparr>lk_cpu := None\<rparr>)\<rparr>)
     else Panic ''release'')"
  using assms by (simp add: release_check_def holding_nested)

lemma release_store_eq:
  assumes "apics_ok s" "c < ncpu s" "cpu_ok (cpus s c)" "0 < ncli (cpus s c)"
  shows "release_store c L s
    = Ret () (upd_cpu c sti_cpu (s\<lparr>locks := (locks s)(L := (locks s L)\<lparr>lk_locked := 0\<rparr>)\<rparr>))"
  using assms by (simp add: release_store_def popcli_eq cpu_ok_def)

text \<open>
  A release from a CPU with \<open>ncli = 0\<close> would go through \<open>holding\<close> with interrupts on; it holds no
  lock then, so it panics.
\<close>

lemma release_check_Ret:
  assumes inv: "lock_inv m" and c: "c < ncpu (sys m)" "lpc_of m c = Run"
    and ret: "release_check c L (sys m) = Ret () s"
  shows "L \<in> crit m c \<and> s = (sys m)\<lparr>locks := (locks (sys m))(L := (locks (sys m) L)\<lparr>lk_cpu := None\<rparr>)\<rparr>"
proof -
  note I = lock_invD [OF inv]
  have "lk_cpu (locks (sys m) L) = Some c"
    using ret holding_eq [OF I(1) c(1) I(7) [OF c(1)], of L]
    by (auto simp: release_check_def split: if_splits)
  then have L: "L \<in> crit m c" by (simp add: I(5))
  then have "card (crit m c) > 0" using I(8) [OF c(1)] by (auto simp: card_gt_0_iff)
  then have "0 < ncli (cpus (sys m) c)" using I(9) [OF c(1)] by simp
  with ret L show ?thesis
    using release_check_eq [OF I(1) c(1) I(7) [OF c(1)], of L] by (auto split: if_splits)
qed

lemma lock_inv_step:
  assumes "lock_step m n" "lock_inv m"
  shows "lock_inv n"
  using assms
proof (induction rule: lock_step.induct)
  case (enter c m L s)
  note I = lock_invD [OF enter.prems]
  have s: "s = upd_cpu c cli_cpu (sys m)"
    and free: "\<not> (lk_locked (locks (sys m) L) \<noteq> 0 \<and> lk_cpu (locks (sys m) L) = Some c)"
    using enter acquire_enter_eq [OF I(1) enter.hyps(1) I(7) [OF enter.hyps(1)], of L]
    by (auto split: if_splits)
  have "L \<notin> crit m c"
    using free I(3,5) by (auto simp: owns_def)
  then show ?case
    using enter.prems enter.hyps(1,2) unfolding s lock_inv_defs owns_def
    by (auto simp: apics_ok_upd split: if_splits)
next
  case (spin c m L s)
  then have s: "s = (sys m)\<lparr>locks := (locks (sys m))(L := (locks (sys m) L)\<lparr>lk_locked := 1\<rparr>)\<rparr>"
    by (simp add: acquire_xchg_def)
  from spin.prems show ?case unfolding s lock_inv_defs owns_def by (auto split: if_splits)
next
  case (win c m L s)
  then have s: "s = (sys m)\<lparr>locks := (locks (sys m))(L := (locks (sys m) L)\<lparr>lk_locked := 1\<rparr>)\<rparr>"
    and free: "lk_locked (locks (sys m) L) = 0"
    by (auto simp: acquire_xchg_def)
  have "\<not> owns m d L" for d using free lock_invD(3) [OF win.prems] by blast
  then show ?case
    using win.prems win.hyps(1,2) unfolding s lock_inv_defs owns_def
    by (auto split: if_splits)
next
  case (rec_cpu c m L s)
  note I = lock_invD [OF rec_cpu.prems]
  have "0 < ncli (cpus (sys m) c)" using I(9) [OF rec_cpu.hyps(1)] rec_cpu.hyps(2) by simp
  then have s: "s = (sys m)\<lparr>locks := (locks (sys m))(L := (locks (sys m) L)\<lparr>lk_cpu := Some c\<rparr>)\<rparr>"
    using rec_cpu.hyps(1,3) I(1,7) by (simp add: acquire_record_eq)
  have "L \<notin> crit m d" for d
    using I(4) [of c L d] I(6) [of c L] rec_cpu.hyps(2) by (auto simp: owns_def)
  then show ?case
    using rec_cpu.prems rec_cpu.hyps(1,2) unfolding s lock_inv_defs owns_def
    by (auto split: if_splits)
next
  case (rel c m L s)
  note I = lock_invD [OF rel.prems]
  have L: "L \<in> crit m c"
    and s: "s = (sys m)\<lparr>locks := (locks (sys m))(L := (locks (sys m) L)\<lparr>lk_cpu := None\<rparr>)\<rparr>"
    using release_check_Ret [OF rel.prems rel.hyps] by auto
  have uniq: "L \<notin> crit m d" if "d \<noteq> c" for d
    using I(4) [of c L d] L that by (auto simp: owns_def)
  have card: "int (card (crit m c)) = int (card (crit m c - {L})) + 1"
    using card_Suc_Diff1 [OF I(8) [OF rel.hyps(1)] L] by simp
  let ?n = "m\<lparr>sys := s, lpc_of := (lpc_of m)(c := Rel L), crit := (crit m)(c := crit m c - {L})\<rparr>"
  have owns: "owns ?n d K = owns m d K" for d K
    using L rel.hyps(2) by (auto simp: owns_def)
  have "own_inv ?n" using rel.prems unfolding own_inv_def owns by (simp add: s lock_inv_defs)
  moreover have "cpu_field_inv ?n"
    using I(5) uniq L by (auto simp: cpu_field_inv_def s)
  moreover have "pc_inv ?n" using I(6) by (auto simp: pc_inv_def)
  moreover have "depth_inv ?n"
    using I(7,8,9) card rel.hyps(2) by (auto simp: depth_inv_def s)
  ultimately show ?case using I(1) by (simp add: lock_inv_def s)
next
  case (store c m L s)
  note I = lock_invD [OF store.prems]
  have pos: "0 < ncli (cpus (sys m) c)" using I(9) [OF store.hyps(1)] store.hyps(2) by simp
  then have s: "s = upd_cpu c sti_cpu ((sys m)\<lparr>locks := (locks (sys m))(L := (locks (sys m) L)\<lparr>lk_locked := 0\<rparr>)\<rparr>)"
    using store.hyps(1,3) I(1,7) by (simp add: release_store_eq)
  have uniq: "\<not> owns m d L" if "d \<noteq> c" for d
    using I(4) [of c L d] store.hyps(2) that by (auto simp: owns_def)
  have notin: "L \<notin> crit m c" using I(6) store.hyps(2) by blast
  let ?n = "m\<lparr>sys := s, lpc_of := (lpc_of m)(c := Run)\<rparr>"
  have owns: "owns ?n d K \<longleftrightarrow> owns m d K \<and> K \<noteq> L" for d K
    using uniq notin store.hyps(2) by (auto simp: owns_def)
  have "own_inv ?n" using I(2,3,4) unfolding own_inv_def owns by (auto simp: s)
  moreover have "cpu_field_inv ?n" using I(5) by (auto simp: cpu_field_inv_def s)
  moreover have "pc_inv ?n" using I(6) by (auto simp: pc_inv_def)
  moreover have "depth_inv ?n"
    using I(7,8,9) pos cpu_ok_sti store.hyps(2) by (auto simp: depth_inv_def s)
  ultimately show ?case using I(1) by (simp add: lock_inv_def s)
qed

lemma lock_reach_inv: "lock_reach m \<Longrightarrow> lock_inv m"
proof (induction rule: lock_reach.induct)
  case (boot m)
  then show ?case by (rule lock_inv_boot)
next
  case (step m n)
  then show ?case by (blast intro: lock_inv_step)
qed

text \<open>
  C1. Mutual exclusion: in every state that the CPUs can reach by interleaving the steps of
  \<open>acquire\<close> and \<open>release\<close>, no lock's critical section is entered by two CPUs, and a CPU that is in
  a critical section has its interrupts off and its \<open>ncli\<close> counts the locks it holds.
\<close>

theorem spinlock_mutual_exclusion:
  assumes "lock_reach m" "L \<in> crit m c"
  shows "(\<forall>d. L \<in> crit m d \<longrightarrow> d = c) \<and> \<not> cpu_if (cpus (sys m) c)
    \<and> (lpc_of m c = Run \<longrightarrow> ncli (cpus (sys m) c) = int (card (crit m c)))"
proof -
  note I = lock_invD [OF lock_reach_inv [OF assms(1)]]
  have c: "c < ncpu (sys m)" using I(2) assms(2) by (auto simp: owns_def)
  have "0 < card (crit m c)" using assms(2) I(8) [OF c] by (auto simp: card_gt_0_iff)
  then have "0 < ncli (cpus (sys m) c)" using I(9) [OF c] by auto
  then have "\<not> cpu_if (cpus (sys m) c)" using I(7) [OF c] by (simp add: cpu_ok_def)
  moreover have "\<forall>d. L \<in> crit m d \<longrightarrow> d = c" using I(4) assms(2) by (auto simp: owns_def)
  ultimately show ?thesis using I(9) [OF c] by auto
qed

section \<open>The locks as the rest of the kernel sees them\<close>

text \<open>
  The abstract locks: which locks each CPU is in the critical section of. Every step of the
  C-level machine is an abstract acquire of a lock nobody holds, an abstract release by the holder,
  or no abstract step.
\<close>

inductive abs_lock_step :: "(nat \<Rightarrow> lockid set) \<Rightarrow> (nat \<Rightarrow> lockid set) \<Rightarrow> bool" where
  abs_acquire: "(\<forall>d. L \<notin> h d) \<Longrightarrow> abs_lock_step h (h(c := insert L (h c)))"
| abs_release: "L \<in> h c \<Longrightarrow> abs_lock_step h (h(c := h c - {L}))"


text \<open>A machine with one CPU, at boot and after it has taken one lock.\<close>

definition smp0 :: smp where
  "smp0 = \<lparr>cpus = (\<lambda>_. \<lparr>apicid = 0, cpu_if = True, ncli = 0, intena = False\<rparr>), ncpu = 1,
     hw_apicid = (\<lambda>_. 0), locks = (\<lambda>_. \<lparr>lk_locked = 0, lk_cpu = None\<rparr>)\<rparr>"

definition mach0 :: mach where
  "mach0 = \<lparr>sys = smp0, lpc_of = (\<lambda>_. Run), crit = (\<lambda>_. {})\<rparr>"

lemma mach0_reach: "lock_reach mach0"
  by (rule lock_reach.boot) (simp add: lock_boot_def mach0_def smp0_def apics_ok_def inj_on_def)

definition mach1 :: mach where
  "mach1 = mach0\<lparr>sys := upd_cpu 0 cli_cpu smp0, lpc_of := (\<lambda>_. Run)(0 := Spin LKmem)\<rparr>"

lemma mach1_step: "lock_step mach0 mach1"
proof -
  have "acquire_enter 0 LKmem smp0 = Ret () (upd_cpu 0 cli_cpu smp0)"
    by (subst acquire_enter_eq) (auto simp: smp0_def apics_ok_def inj_on_def cpu_ok_def)
  then show ?thesis
    using lock_step.enter [of 0 mach0 LKmem "upd_cpu 0 cli_cpu smp0"]
    by (simp add: mach1_def mach0_def smp0_def)
qed

definition mach2 :: mach where
  "mach2 = mach1\<lparr>sys := snd (acquire_xchg LKmem (sys mach1)), lpc_of := (\<lambda>_. Run)(0 := Won LKmem)\<rparr>"

lemma mach2_step: "lock_step mach1 mach2"
  using lock_step.win [of 0 mach1 LKmem "snd (acquire_xchg LKmem (sys mach1))"]
  by (simp add: mach2_def mach1_def mach0_def smp0_def acquire_xchg_def upd_cpu_def)

definition mach3 :: mach where
  "mach3 = mach2\<lparr>sys := (sys mach2)\<lparr>locks := (locks (sys mach2))
       (LKmem := (locks (sys mach2) LKmem)\<lparr>lk_cpu := Some 0\<rparr>)\<rparr>,
     lpc_of := (\<lambda>_. Run)(0 := Run), crit := (\<lambda>_. {})(0 := {LKmem})\<rparr>"

lemma mach3_step: "lock_step mach2 mach3"
proof -
  have "acquire_record 0 LKmem (sys mach2) = Ret () (sys mach3)"
    by (subst acquire_record_eq)
      (auto simp: mach3_def mach2_def mach1_def mach0_def smp0_def acquire_xchg_def apics_ok_def
        inj_on_def cpu_ok_def cli_cpu_def upd_cpu_def)
  moreover have "ncpu (sys mach2) = 1" "lpc_of mach2 0 = Won LKmem"
    by (simp_all add: mach2_def mach1_def mach0_def smp0_def acquire_xchg_def)
  ultimately show ?thesis
    using lock_step.rec_cpu [of 0 mach2 LKmem "sys mach3"]
    by (simp add: mach3_def mach2_def mach1_def mach0_def)
qed

lemma mach2_reach: "lock_reach mach2"
  by (blast intro: mach0_reach mach1_step mach2_step lock_reach.step)

lemma mach3_reach: "lock_reach mach3"
  by (blast intro: mach2_reach mach3_step lock_reach.step)

theorem spinlock_mutual_exclusion_witness:
  "lock_reach mach3 \<and> {d. LKmem \<in> crit mach3 d} = {0} \<and> \<not> cpu_if (cpus (sys mach3) 0)"
proof -
  have L: "LKmem \<in> crit mach3 0" by (simp add: mach3_def)
  show ?thesis
    using mach3_reach L spinlock_mutual_exclusion [OF mach3_reach L] by blast
qed


text \<open>
  The state of the running CPU as later components see it: the locks it holds. \<open>acquire\<close> panics on
  a lock the CPU already holds, \<open>release\<close> on one it does not hold.
\<close>

record kbase =
  held :: "lockid set"

definition acquire :: "lockid \<Rightarrow> 'z kbase_scheme \<Rightarrow> ('z kbase_scheme, unit) outcome" where
  "acquire L s = (if L \<in> held s then Panic ''acquire'' else Ret () (s\<lparr>held := insert L (held s)\<rparr>))"

definition release :: "lockid \<Rightarrow> 'z kbase_scheme \<Rightarrow> ('z kbase_scheme, unit) outcome" where
  "release L s = (if L \<notin> held s then Panic ''release'' else Ret () (s\<lparr>held := held s - {L}\<rparr>))"

text \<open>
  The contract of a lock, for the spin locks here and the sleep locks later: taking a lock that is
  not owned owns it, giving up an owned lock disowns it, and nothing else is taken or given up.
\<close>

locale mutex =
  fixes lock :: "'l \<Rightarrow> 's \<Rightarrow> ('s, unit) outcome"
    and unlock :: "'l \<Rightarrow> 's \<Rightarrow> ('s, unit) outcome"
    and owned :: "'s \<Rightarrow> 'l set"
  assumes lock_owned: "l \<notin> owned s \<Longrightarrow> on_ret (lock l s) (\<lambda>_ t. owned t = insert l (owned s))"
    and unlock_owned: "l \<in> owned s \<Longrightarrow> on_ret (unlock l s) (\<lambda>_ t. owned t = owned s - {l})"
begin

lemma critical_section:
  assumes free: "l \<notin> owned s"
    and body: "\<And>t. owned t = insert l (owned s) \<Longrightarrow> on_ret (body t) (\<lambda>_ u. owned u = owned t)"
  shows "on_ret (bindK (lock l s) (\<lambda>_ t. bindK (body t) (\<lambda>x u. bindK (unlock l u) (\<lambda>_ v. Ret x v))))
    (\<lambda>_ v. owned v = owned s)"
proof -
  have un: "on_ret (unlock l u) (\<lambda>_ v. owned v = owned s)" if "owned u = insert l (owned s)" for u
    using unlock_owned [of l u] that free by (simp add: insert_Diff_if)
  have "on_ret (body t) (\<lambda>_ u. on_ret (unlock l u) (\<lambda>_ v. owned v = owned s))"
    if "owned t = insert l (owned s)" for t
    using body [OF that] by (rule on_ret_mono) (simp add: un that)
  then have "on_ret (lock l s) (\<lambda>_ t. on_ret (body t) (\<lambda>_ u. on_ret (unlock l u) (\<lambda>_ v. owned v = owned s)))"
    using lock_owned [OF free] by (auto elim: on_ret_mono)
  then show ?thesis by simp
qed

end

interpretation spin: mutex acquire release held
  by unfold_locales (auto simp: acquire_def release_def)

lemma acquire_Ret [simp]: "L \<notin> held s \<Longrightarrow> acquire L s = Ret () (s\<lparr>held := insert L (held s)\<rparr>)"
  by (simp add: acquire_def)

lemma release_Ret [simp]: "L \<in> held s \<Longrightarrow> release L s = Ret () (s\<lparr>held := held s - {L}\<rparr>)"
  by (simp add: release_def)

lemma acquire_inv [outcome_inv]:
  "acquire L s = Ret u t \<longleftrightarrow> L \<notin> held s \<and> t = s\<lparr>held := insert L (held s)\<rparr>"
  by (auto simp: acquire_def)

lemma release_inv [outcome_inv]:
  "release L s = Ret u t \<longleftrightarrow> L \<in> held s \<and> t = s\<lparr>held := held s - {L}\<rparr>"
  by (auto simp: release_def)

lemma held_same [simp]: "L \<notin> held s \<Longrightarrow> s\<lparr>held := insert L (held s) - {L}\<rparr> = s"
  by simp

end
