(* ===== verification/Xv6_Console_Out.thy ===== *)
theory Xv6_Console_Out
  imports Xv6_Spinlock
begin

text \<open>
  Console output (src/console.c, \<open>uartputc\<close> of src/uart.c): the CGA text screen with its cursor, the
  serial port, \<open>consputc\<close>, the number printer \<open>printint\<close> and \<open>cprintf\<close>. The console device state
  is the first layer of the kernel state above the locks, because every component prints.

  The CRT controller keeps the cursor position that \<open>cgaputc\<close> writes to it, so the position is
  part of the state; \<open>crt\<close> is the screen memory (80 x 25 cells); \<open>uart_out\<close> are the bytes sent to
  the serial port. The busy-wait of \<open>uartputc\<close> ends after 128 polls and changes nothing.
\<close>

unbundle bit_operations_syntax

abbreviation BACKSPACE :: nat where "BACKSPACE \<equiv> 0x100"

text \<open>\<open>C(x)\<close> is the control character of the letter \<open>x\<close>.\<close>

definition ctl :: "char \<Rightarrow> nat" where
  "ctl x = of_char x - of_char (CHR ''@'')"

record cst = kbase +
  cons_locking :: bool
  panicked :: bool
  uart :: bool
  uart_out :: "nat list"
  crt :: "nat \<Rightarrow> u16"
  crt_pos :: nat

definition uartputc :: "nat \<Rightarrow> 'z cst_scheme \<Rightarrow> 'z cst_scheme" where
  "uartputc c s = (if \<not> uart s then s else s\<lparr>uart_out := uart_out s @ [c mod 256]\<rparr>)"

definition cga_cell :: "nat \<Rightarrow> u16" where
  "cga_cell c = of_nat (c mod 256) OR 0x0700"

text \<open>\<open>while(pos > 0) crt[--pos] = ...\<close>\<close>

fun cga_clear :: "(nat \<Rightarrow> u16) \<Rightarrow> nat \<Rightarrow> (nat \<Rightarrow> u16)" where
  "cga_clear m 0 = m"
| "cga_clear m (Suc pos) = cga_clear (m(pos := cga_cell BACKSPACE)) pos"

text \<open>The screen and the cursor after the character is handled, and after scrolling.\<close>

definition cga_move :: "nat \<Rightarrow> (nat \<Rightarrow> u16) \<times> nat \<Rightarrow> (nat \<Rightarrow> u16) \<times> nat" where
  "cga_move c = (\<lambda>(m, pos).
     if c = ctl (CHR ''R'') then (cga_clear m pos, 0)
     else if c = 10 then (m, pos + (80 - pos mod 80))
     else if c = BACKSPACE then (m, if pos > 0 then pos - 1 else pos)
     else (m(pos := cga_cell c), pos + 1))"

definition cga_scroll :: "(nat \<Rightarrow> u16) \<times> nat \<Rightarrow> (nat \<Rightarrow> u16) \<times> nat" where
  "cga_scroll = (\<lambda>(m, pos).
     if pos div 80 \<ge> 24
     then let m = (\<lambda>i. if i < 23 * 80 then m (i + 80) else m i);
              pos = pos - 80
          in ((\<lambda>i. if pos \<le> i \<and> i < pos + (24 * 80 - pos) then 0 else m i), pos)
     else (m, pos))"

definition cgaputc :: "nat \<Rightarrow> 'z cst_scheme \<Rightarrow> ('z cst_scheme, unit) outcome" where
  "cgaputc c s =
     (let (m, pos) = cga_move c (crt s, crt_pos s)
      in if pos > 25 * 80 then Panic ''pos under/overflow''
         else let (m, pos) = cga_scroll (m, pos)
              in Ret () (s\<lparr>crt := m(pos := cga_cell 32), crt_pos := pos\<rparr>))"

text \<open>
  \<open>consputc\<close>; a CPU that finds \<open>panicked\<close> set stops there for ever, which is the fate of the CPU
  that panicked.
\<close>

definition consputc :: "nat \<Rightarrow> 'z cst_scheme \<Rightarrow> ('z cst_scheme, unit) outcome" where
  "consputc c s =
     (if panicked s then Diverge
      else let s = (if c = BACKSPACE then uartputc 8 (uartputc 32 (uartputc 8 s)) else uartputc c s)
           in cgaputc c s)"

fun consputs :: "nat list \<Rightarrow> 'z cst_scheme \<Rightarrow> ('z cst_scheme, unit) outcome" where
  "consputs [] s = Ret () s"
| "consputs (c # cs) s = bindK (consputc c s) (\<lambda>_ s. consputs cs s)"

section \<open>Numbers\<close>

definition digit_code :: "nat \<Rightarrow> nat" where
  "digit_code d = of_char (''0123456789abcdef'' ! d)"

text \<open>
  The \<open>do ... while((x /= base) != 0)\<close> loop: digits least significant first. For a base above 1 the
  loop ends; the calls in the kernel use 10 and 16.
\<close>

function digits_loop :: "nat \<Rightarrow> nat \<Rightarrow> nat list" where
  "digits_loop base x =
     (if x div base = 0 \<or> base < 2 then [x mod base] else x mod base # digits_loop base (x div base))"
  by pat_completeness auto
termination
proof (relation "measure snd")
  fix base x :: nat
  assume "\<not> (x div base = 0 \<or> base < 2)"
  then have "0 < x" "1 < base" by (auto intro: gr0I)
  then show "((base, x div base), base, x) \<in> measure snd" by simp
qed simp

declare digits_loop.simps [simp del]

definition printint_chars :: "u32 \<Rightarrow> nat \<Rightarrow> bool \<Rightarrow> nat list" where
  "printint_chars xx base sign =
     (let neg = (sign \<and> sint xx < 0);
          x = (if neg then - xx else xx);
          buf = map digit_code (digits_loop base (unat x));
          buf = (if neg then buf @ [of_char (CHR ''-'')] else buf)
      in rev buf)"

definition printint :: "u32 \<Rightarrow> nat \<Rightarrow> bool \<Rightarrow> 'z cst_scheme \<Rightarrow> ('z cst_scheme, unit) outcome" where
  "printint xx base sign s = consputs (printint_chars xx base sign) s"

section \<open>Formatted output\<close>

text \<open>
  The arguments of \<open>cprintf\<close> on the stack: words, or pointers to strings (\<open>None\<close> is the null
  pointer). Reading a word as a string or running past the arguments is undefined behaviour.
\<close>

datatype carg = AInt u32 | AStr "string option"

text \<open>The switch on the character after a percent sign; the result is the rest of the arguments.\<close>

definition cprintf_directive ::
  "char \<Rightarrow> carg list \<Rightarrow> 'z cst_scheme \<Rightarrow> ('z cst_scheme, carg list) outcome" where
  "cprintf_directive c args s =
     (if c = CHR ''d'' then
        (case args of AInt x # args \<Rightarrow> bindK (printint x 10 True s) (\<lambda>_ s. Ret args s)
         | _ \<Rightarrow> Undef ''cprintf argument'')
      else if c = CHR ''x'' \<or> c = CHR ''p'' then
        (case args of AInt x # args \<Rightarrow> bindK (printint x 16 False s) (\<lambda>_ s. Ret args s)
         | _ \<Rightarrow> Undef ''cprintf argument'')
      else if c = CHR ''s'' then
        (case args of
           AStr str # args \<Rightarrow>
             bindK (consputs (map of_char (case str of None \<Rightarrow> ''(null)'' | Some t \<Rightarrow> t)) s) (\<lambda>_ s.
             Ret args s)
         | _ \<Rightarrow> Undef ''cprintf argument'')
      else if c = CHR ''%'' then bindK (consputc (of_char (CHR ''%'')) s) (\<lambda>_ s. Ret args s)
      else
        bindK (consputc (of_char (CHR ''%'')) s) (\<lambda>_ s.
        bindK (consputc (of_char c) s) (\<lambda>_ s. Ret args s)))"

fun cprintf_loop :: "string \<Rightarrow> carg list \<Rightarrow> 'z cst_scheme \<Rightarrow> ('z cst_scheme, unit) outcome" where
  "cprintf_loop [] args s = Ret () s"
| "cprintf_loop (c # fmt) args s =
     (if c \<noteq> CHR ''%'' then bindK (consputc (of_char c) s) (\<lambda>_ s. cprintf_loop fmt args s)
      else case fmt of
        [] \<Rightarrow> Ret () s
      | c # fmt \<Rightarrow> bindK (cprintf_directive c args s) (\<lambda>args s. cprintf_loop fmt args s))"

definition cprintf :: "string \<Rightarrow> carg list \<Rightarrow> 'z cst_scheme \<Rightarrow> ('z cst_scheme, unit) outcome" where
  "cprintf fmt args s =
     (let locking = cons_locking s
      in bindK (if locking then acquire LCons s else Ret () s) (\<lambda>_ s.
         bindK (cprintf_loop fmt args s) (\<lambda>_ s.
         if locking then release LCons s else Ret () s)))"

section \<open>The cursor stays on the screen\<close>

definition cursor_ok :: "'z cst_scheme \<Rightarrow> bool" where
  "cursor_ok s \<longleftrightarrow> crt_pos s < 24 * 80"

text \<open>What printing changes: the screen, the cursor and the serial output, nothing else.\<close>

definition same_but_screen :: "'z cst_scheme \<Rightarrow> 'z cst_scheme \<Rightarrow> bool" where
  "same_but_screen s t \<longleftrightarrow> held t = held s \<and> cons_locking t = cons_locking s
     \<and> panicked t = panicked s \<and> uart t = uart s \<and> cst.more t = cst.more s"

lemma same_but_screen_refl [simp]: "same_but_screen s s"
  by (simp add: same_but_screen_def)

lemma same_but_screen_trans: "same_but_screen s t \<Longrightarrow> same_but_screen t u \<Longrightarrow> same_but_screen s u"
  by (simp add: same_but_screen_def)

lemma cga_move_bound: "pos < 24 * 80 \<Longrightarrow> snd (cga_move c (m, pos)) \<le> 24 * 80"
proof -
  assume a: "pos < 24 * 80"
  define q r where "q = pos div 80" and "r = pos mod 80"
  have "pos = 80 * q + r" "r < 80" by (simp_all add: q_def r_def)
  moreover have "q < 24" using a by (simp add: q_def less_mult_imp_div_less)
  ultimately have "pos + (80 - r) \<le> 24 * 80" by linarith
  then have "pos + (80 - pos mod 80) \<le> 24 * 80" by (simp add: r_def)
  with a show ?thesis by (auto simp: cga_move_def)
qed

lemma cga_scroll_bound: "pos \<le> 24 * 80 \<Longrightarrow> snd (cga_scroll (m, pos)) < 24 * 80"
  by (cases "pos = 24 * 80") (auto simp: cga_scroll_def Let_def)

lemma cgaputc_ok:
  assumes "cursor_ok s"
  shows "returns (cgaputc c s) (\<lambda>_ t. cursor_ok t \<and> same_but_screen s t)"
proof -
  obtain m pos where mp: "cga_move c (crt s, crt_pos s) = (m, pos)" by fastforce
  obtain m' pos' where mp': "cga_scroll (m, pos) = (m', pos')" by fastforce
  have "pos \<le> 24 * 80"
    using cga_move_bound [of "crt_pos s" c "crt s"] assms mp by (simp add: cursor_ok_def)
  moreover from this have "pos' < 24 * 80" using cga_scroll_bound [of pos m] mp' by simp
  ultimately show ?thesis
    using mp mp' by (simp add: cgaputc_def cursor_ok_def same_but_screen_def)
qed

lemma consputc_ok:
  assumes "cursor_ok s" "\<not> panicked s"
  shows "returns (consputc c s) (\<lambda>_ t. cursor_ok t \<and> same_but_screen s t)"
proof -
  let ?s = "if c = BACKSPACE then uartputc 8 (uartputc 32 (uartputc 8 s)) else uartputc c s"
  have "cursor_ok ?s" "same_but_screen s ?s"
    using assms(1) by (auto simp: uartputc_def cursor_ok_def same_but_screen_def)
  then have "returns (cgaputc c ?s) (\<lambda>_ t. cursor_ok t \<and> same_but_screen s t)"
    by (blast intro: returns_mono [OF cgaputc_ok] same_but_screen_trans)
  with assms(2) show ?thesis by (simp add: consputc_def Let_def)
qed

lemma consputs_ok:
  "cursor_ok s \<Longrightarrow> \<not> panicked s \<Longrightarrow>
   returns (consputs cs s) (\<lambda>_ t. cursor_ok t \<and> same_but_screen s t)"
proof (induction cs arbitrary: s)
  case (Cons c cs)
  have "returns (consputc c s) (\<lambda>_ t. cursor_ok t \<and> same_but_screen s t)"
    using Cons.prems by (rule consputc_ok)
  then have "returns (consputc c s) (\<lambda>_ t. returns (consputs cs t) (\<lambda>_ u. cursor_ok u \<and> same_but_screen s u))"
  proof (rule returns_mono)
    fix x t
    assume t: "cursor_ok t \<and> same_but_screen s t"
    then have "\<not> panicked t" using Cons.prems by (simp add: same_but_screen_def)
    then have "returns (consputs cs t) (\<lambda>_ u. cursor_ok u \<and> same_but_screen t u)"
      using Cons.IH [of t] t by simp
    then show "returns (consputs cs t) (\<lambda>_ u. cursor_ok u \<and> same_but_screen s u)"
      using t by (auto elim!: returns_mono intro: same_but_screen_trans)
  qed
  then show ?case by simp
qed simp

text \<open>Frame rules: whatever happens, a print that returns only changed the screen.\<close>

lemma cgaputc_frame: "on_ret (cgaputc c s) (\<lambda>_ t. same_but_screen s t)"
  by (auto simp: cgaputc_def same_but_screen_def split: prod.splits)

lemma consputc_frame: "on_ret (consputc c s) (\<lambda>_ t. same_but_screen s t)"
proof -
  let ?s = "if c = BACKSPACE then uartputc 8 (uartputc 32 (uartputc 8 s)) else uartputc c s"
  have "same_but_screen s ?s" by (auto simp: uartputc_def same_but_screen_def)
  then have "on_ret (cgaputc c ?s) (\<lambda>_ t. same_but_screen s t)"
    by (blast intro: on_ret_mono [OF cgaputc_frame] same_but_screen_trans)
  then show ?thesis by (simp add: consputc_def Let_def)
qed

lemma screen_bindK:
  assumes "on_ret m (\<lambda>_ t. same_but_screen s t)"
    and "\<And>x t. on_ret (f x t) (\<lambda>_ u. same_but_screen t u)"
  shows "on_ret (bindK m f) (\<lambda>_ u. same_but_screen s u)"
proof (cases m)
  case (Ret x t)
  with assms(1) have "same_but_screen s t" by simp
  then have "on_ret (f x t) (\<lambda>_ u. same_but_screen s u)"
    by (blast intro: on_ret_mono [OF assms(2) [of x t]] same_but_screen_trans)
  with Ret show ?thesis by simp
qed simp_all

lemma consputs_frame: "on_ret (consputs cs s) (\<lambda>_ t. same_but_screen s t)"
proof (induction cs arbitrary: s)
  case (Cons c cs)
  have "on_ret (bindK (consputc c s) (\<lambda>_ s. consputs cs s)) (\<lambda>_ u. same_but_screen s u)"
    by (rule screen_bindK [OF consputc_frame Cons.IH])
  then show ?case by simp
qed simp

lemma printint_frame: "on_ret (printint x b sg s) (\<lambda>_ t. same_but_screen s t)"
  by (simp add: printint_def consputs_frame)

lemma cprintf_directive_frame: "on_ret (cprintf_directive c args s) (\<lambda>_ t. same_but_screen s t)"
proof -
  have one: "on_ret (consputc ch s) (\<lambda>_ t. on_ret (consputc ch' t) (\<lambda>_ u. same_but_screen s u))" for ch ch'
    using screen_bindK [OF consputc_frame [of ch s] consputc_frame [of ch']] by simp
  show ?thesis
    by (auto simp: cprintf_directive_def printint_frame consputs_frame consputc_frame one
        split: list.splits carg.splits)
qed

lemma cprintf_loop_frame: "on_ret (cprintf_loop fmt args s) (\<lambda>_ t. same_but_screen s t)"
proof (induction fmt arbitrary: args s rule: length_induct)
  case (1 fmt)
  have dir: "on_ret (bindK (cprintf_directive c args s) (\<lambda>args s. cprintf_loop fs args s))
      (\<lambda>_ u. same_but_screen s u)" if "length fs < length fmt" for c fs
    by (rule screen_bindK [OF cprintf_directive_frame]) (use 1 that in blast)
  have chr: "on_ret (bindK (consputc ch s) (\<lambda>_ s. cprintf_loop fs args s))
      (\<lambda>_ u. same_but_screen s u)" if "length fs < length fmt" for ch fs
    by (rule screen_bindK [OF consputc_frame]) (use 1 that in blast)
  show ?case
  proof (cases fmt)
    case (Cons c fs)
    show ?thesis
    proof (cases "c = CHR ''%''")
      case True
      with Cons dir show ?thesis by (cases fs) (simp_all del: on_ret_bindK)
    next
      case False
      with Cons chr [of fs] show ?thesis by (simp del: on_ret_bindK)
    qed
  qed simp
qed

lemma cprintf_frame: "on_ret (cprintf fmt args s) (\<lambda>_ t. same_but_screen s t)"
proof (cases "cons_locking s")
  case True
  have "on_ret (cprintf_loop fmt args (s\<lparr>held := insert LCons (held s)\<rparr>)) (\<lambda>_ t.
      on_ret (release LCons t) (\<lambda>_ u. same_but_screen s u))" if "LCons \<notin> held s"
    by (rule on_ret_mono [OF cprintf_loop_frame]) (use that in \<open>simp add: same_but_screen_def\<close>)
  with True show ?thesis by (simp add: cprintf_def acquire_def)
next
  case False
  then show ?thesis by (simp add: cprintf_def cprintf_loop_frame)
qed

text \<open>The arguments match the format.\<close>

definition directive_ok :: "char \<Rightarrow> carg list \<Rightarrow> bool" where
  "directive_ok c args \<longleftrightarrow>
     (c = CHR ''d'' \<or> c = CHR ''x'' \<or> c = CHR ''p'' \<longrightarrow> (case args of AInt x # _ \<Rightarrow> True | _ \<Rightarrow> False))
     \<and> (c = CHR ''s'' \<longrightarrow> (case args of AStr x # _ \<Rightarrow> True | _ \<Rightarrow> False))"

definition directive_rest :: "char \<Rightarrow> carg list \<Rightarrow> carg list" where
  "directive_rest c args =
     (if c = CHR ''d'' \<or> c = CHR ''x'' \<or> c = CHR ''p'' \<or> c = CHR ''s'' then tl args else args)"

fun fmt_ok :: "string \<Rightarrow> carg list \<Rightarrow> bool" where
  "fmt_ok [] args = True"
| "fmt_ok (c # fmt) args =
     (if c \<noteq> CHR ''%'' then fmt_ok fmt args
      else case fmt of
        [] \<Rightarrow> True
      | c # fmt \<Rightarrow> directive_ok c args \<and> fmt_ok fmt (directive_rest c args))"

definition screen_ok :: "'z cst_scheme \<Rightarrow> bool" where
  "screen_ok s \<longleftrightarrow> cursor_ok s \<and> \<not> panicked s"

definition prints :: "'z cst_scheme \<Rightarrow> 'z cst_scheme \<Rightarrow> bool" where
  "prints s t \<longleftrightarrow> screen_ok t \<and> same_but_screen s t"

lemma prints_trans: "prints s t \<Longrightarrow> prints t u \<Longrightarrow> prints s u"
  by (auto simp: prints_def intro: same_but_screen_trans)

lemma prints_bindK:
  assumes "returns m (\<lambda>_ t. prints s t)" "\<And>x t. prints s t \<Longrightarrow> returns (f x t) (\<lambda>_ u. prints t u)"
  shows "returns (bindK m f) (\<lambda>_ u. prints s u)"
  using assms(1) by (simp, elim returns_mono) (blast intro: returns_mono [OF assms(2)] prints_trans)

lemma prints_consputs: "screen_ok s \<Longrightarrow> returns (consputs cs s) (\<lambda>_ t. prints s t)"
  unfolding prints_def screen_ok_def
  by (rule returns_mono [OF consputs_ok]) (auto simp: same_but_screen_def)

lemma prints_consputc: "screen_ok s \<Longrightarrow> returns (consputc c s) (\<lambda>_ t. prints s t)"
  unfolding prints_def screen_ok_def
  by (rule returns_mono [OF consputc_ok]) (auto simp: same_but_screen_def)

lemma prints_screen_ok: "prints s t \<Longrightarrow> screen_ok t"
  by (simp add: prints_def)

lemma prints_directive:
  assumes "directive_ok c args" "screen_ok s"
  shows "returns (cprintf_directive c args s) (\<lambda>rest t. rest = directive_rest c args \<and> prints s t)"
proof -
  have two: "returns (consputc ch s) (\<lambda>_ t. returns (consputc ch' t) (\<lambda>_ u. prints s u))" for ch ch'
    using prints_bindK [OF prints_consputc [OF assms(2), of ch] prints_consputc [OF prints_screen_ok, of s _ ch']]
    by simp
  show ?thesis
    using assms prints_consputs [OF assms(2)] prints_consputc [OF assms(2)] two
    by (auto simp: cprintf_directive_def directive_ok_def directive_rest_def printint_def
        split: list.splits carg.splits)
qed

lemma prints_cprintf_loop:
  "fmt_ok fmt args \<Longrightarrow> screen_ok s \<Longrightarrow> returns (cprintf_loop fmt args s) (\<lambda>_ t. prints s t)"
proof (induction fmt arbitrary: args s rule: length_induct)
  case (1 fmt)
  have dir: "returns (bindK (cprintf_directive c args s) (\<lambda>args s. cprintf_loop fs args s)) (\<lambda>_ u. prints s u)"
    if "length fs < length fmt" "directive_ok c args" "fmt_ok fs (directive_rest c args)" for c fs
  proof -
    have "returns (cprintf_loop fs (directive_rest c args) t) (\<lambda>_ u. prints s u)" if "prints s t" for t
      using "1.IH" that \<open>length fs < length fmt\<close> \<open>fmt_ok fs _\<close>
      by (blast intro: returns_mono prints_trans prints_screen_ok)
    with prints_directive [OF that(2) "1.prems"(2)] show ?thesis
      by (auto elim!: returns_mono)
  qed
  have chr: "returns (bindK (consputc ch s) (\<lambda>_ s. cprintf_loop fs args s)) (\<lambda>_ u. prints s u)"
    if "length fs < length fmt" "fmt_ok fs args" for ch fs
    by (rule prints_bindK [OF prints_consputc [OF "1.prems"(2)]])
      (use "1.IH" that prints_screen_ok in blast)
  show ?case
  proof (cases fmt)
    case Nil
    with 1 show ?thesis by (simp add: prints_def)
  next
    case (Cons c fs)
    show ?thesis
    proof (cases "c = CHR ''%''")
      case True
      with Cons dir "1.prems" show ?thesis
        by (cases fs) (simp_all del: returns_bindK, simp add: prints_def)
    next
      case False
      with Cons chr [of fs] "1.prems" show ?thesis by (simp del: returns_bindK)
    qed
  qed
qed

lemma cprintf_ok:
  assumes "fmt_ok fmt args" "screen_ok s" "LCons \<notin> held s"
  shows "returns (cprintf fmt args s) (\<lambda>_ t. prints s t)"
proof (cases "cons_locking s")
  case True
  let ?s = "s\<lparr>held := insert LCons (held s)\<rparr>"
  have "screen_ok ?s" using assms by (simp add: screen_ok_def cursor_ok_def)
  with assms have "returns (cprintf_loop fmt args ?s) (\<lambda>_ t. prints ?s t)"
    by (intro prints_cprintf_loop)
  then have "returns (cprintf_loop fmt args ?s) (\<lambda>_ t. returns (release LCons t) (\<lambda>_ u. prints s u))"
    by (rule returns_mono)
      (use assms in \<open>auto simp: prints_def screen_ok_def cursor_ok_def same_but_screen_def release_def\<close>)
  with True assms show ?thesis by (simp add: cprintf_def acquire_def)
next
  case False
  with assms show ?thesis by (simp add: cprintf_def prints_cprintf_loop)
qed

end
