(* ===== verification/Xv6_Kalloc.thy ===== *)
theory Xv6_Kalloc
  imports Xv6_String Xv6_Console_Out
begin

unbundle bit_operations_syntax

text \<open>
  The physical page allocator (src/kalloc.c). Physical memory is an array of page frames, each a
  byte array; a kernel virtual address \<open>a\<close> designates the byte at offset \<open>page_off a\<close> of the frame
  \<open>frame a\<close> (the direct map of src/memlayout.h). The free list is threaded through the free pages
  themselves, as in the code: the first word of a free page is the address of the next one.

  \<open>kmem_ok s xs\<close> relates the memory to the abstract free list \<open>xs\<close>; the locale \<open>page_allocator\<close> is
  what the rest of the kernel relies on.
\<close>

section \<open>Addresses and state\<close>

definition KERNBASE :: u32 where "KERNBASE = 0x80000000"
definition PHYSTOP :: u32 where "PHYSTOP = 0xE000000"
definition PGSIZE :: u32 where "PGSIZE = 4096"

definition V2P :: "u32 \<Rightarrow> u32" where "V2P a = a - KERNBASE"
definition P2V :: "u32 \<Rightarrow> u32" where "P2V a = a + KERNBASE"

definition PGROUNDUP :: "u32 \<Rightarrow> u32" where "PGROUNDUP sz = (sz + PGSIZE - 1) AND NOT (PGSIZE - 1)"
definition PGROUNDDOWN :: "u32 \<Rightarrow> u32" where "PGROUNDDOWN a = a AND NOT (PGSIZE - 1)"

definition frame :: "u32 \<Rightarrow> nat" where "frame a = unat (V2P a) div 4096"
definition page_off :: "u32 \<Rightarrow> nat" where "page_off a = unat (V2P a) mod 4096"

record kst = cst +
  pages :: "nat \<Rightarrow> bytes"   \<comment> \<open>physical memory, by frame\<close>
  kend :: u32                \<comment> \<open>\<open>end\<close>: first address after the kernel, from the linker\<close>
  kmem_use_lock :: bool
  freelist :: u32

definition rd32 :: "u32 \<Rightarrow> 'z kst_scheme \<Rightarrow> u32" where
  "rd32 a s = get32 (pages s (frame a)) (page_off a)"

definition wr32 :: "u32 \<Rightarrow> u32 \<Rightarrow> 'z kst_scheme \<Rightarrow> 'z kst_scheme" where
  "wr32 a v s = s\<lparr>pages := (pages s)(frame a := put32 (pages s (frame a)) (page_off a) v)\<rparr>"

text \<open>\<open>memset(v, c, PGSIZE)\<close> of the page at \<open>v\<close>.\<close>

definition memset_page :: "u32 \<Rightarrow> u32 \<Rightarrow> 'z kst_scheme \<Rightarrow> 'z kst_scheme" where
  "memset_page v c s = s\<lparr>pages := (pages s)(frame v := memset (pages s (frame v)) (page_off v) c 4096)\<rparr>"

section \<open>Operations\<close>

definition kfree :: "u32 \<Rightarrow> 'z kst_scheme \<Rightarrow> ('z kst_scheme, unit) outcome" where
  "kfree v s =
     (if v mod PGSIZE \<noteq> 0 \<or> v < kend s \<or> V2P v \<ge> PHYSTOP then Panic ''kfree''
      else
        let s = memset_page v 1 s
        in bindK (if kmem_use_lock s then acquire LKmem s else Ret () s) (\<lambda>_ s.
           let s = (wr32 v (freelist s) s)\<lparr>freelist := v\<rparr>
           in if kmem_use_lock s then release LKmem s else Ret () s))"

definition kalloc :: "'z kst_scheme \<Rightarrow> ('z kst_scheme, u32) outcome" where
  "kalloc s =
     bindK (if kmem_use_lock s then acquire LKmem s else Ret () s) (\<lambda>_ s.
     let r = freelist s;
         s = (if r \<noteq> 0 then s\<lparr>freelist := rd32 r s\<rparr> else s)
     in bindK (if kmem_use_lock s then release LKmem s else Ret () s) (\<lambda>_ s.
        Ret r s))"

text \<open>
  The loop of \<open>freerange\<close>. The pointer comparison \<open>p + PGSIZE <= vend\<close> is the comparison of the
  mathematical addresses: a pointer past the address space would be outside the language.
\<close>

function freerange_loop :: "u32 \<Rightarrow> u32 \<Rightarrow> 'z kst_scheme \<Rightarrow> ('z kst_scheme, unit) outcome" where
  "freerange_loop p vend s =
     (if unat p + 4096 \<le> unat vend
      then bindK (kfree p s) (\<lambda>_ s. freerange_loop (p + PGSIZE) vend s)
      else Ret () s)"
  by pat_completeness auto
termination
proof (relation "measure (\<lambda>(p, vend, s). unat vend - unat p)")
  show "wf (measure (\<lambda>(p :: u32, vend :: u32, s). unat vend - unat p))" by simp
next
  fix p vend :: u32 and s u and t :: "'z kst_scheme"
  assume le: "unat p + 4096 \<le> unat vend"
  then have "unat (p + PGSIZE) = unat p + 4096"
    using unat_u32 [of vend] by (simp add: PGSIZE_def unat_word_ariths)
  with le show "((p + PGSIZE, vend, t), (p, vend, s)) \<in> measure (\<lambda>(p, vend, s). unat vend - unat p)"
    by simp
qed

declare freerange_loop.simps [simp del]

definition freerange :: "u32 \<Rightarrow> u32 \<Rightarrow> 'z kst_scheme \<Rightarrow> ('z kst_scheme, unit) outcome" where
  "freerange vstart vend s = freerange_loop (PGROUNDUP vstart) vend s"

definition kinit1 :: "u32 \<Rightarrow> u32 \<Rightarrow> 'z kst_scheme \<Rightarrow> ('z kst_scheme, unit) outcome" where
  "kinit1 vstart vend s = freerange vstart vend (s\<lparr>kmem_use_lock := False\<rparr>)"

definition kinit2 :: "u32 \<Rightarrow> u32 \<Rightarrow> 'z kst_scheme \<Rightarrow> ('z kst_scheme, unit) outcome" where
  "kinit2 vstart vend s =
     bindK (freerange vstart vend s) (\<lambda>_ s. Ret () (s\<lparr>kmem_use_lock := True\<rparr>))"

section \<open>Pages\<close>

definition page_ok :: "u32 \<Rightarrow> u32 \<Rightarrow> bool" where
  "page_ok e v \<longleftrightarrow> v mod PGSIZE = 0 \<and> e \<le> v \<and> V2P v < PHYSTOP"

lemma page_ok_unat:
  assumes "page_ok e v"
  shows "unat v mod 4096 = 0" "2 ^ 31 \<le> unat v" "unat (V2P v) = unat v - 2 ^ 31" "v \<noteq> 0"
proof -
  have *: "unat (v - 0x80000000) < 0xE000000"
    using assms by (simp add: page_ok_def V2P_def KERNBASE_def PHYSTOP_def word_less_nat_alt)
  have "\<not> unat v < 2 ^ 31"
  proof
    assume a: "unat v < 2 ^ 31"
    then have "unat (v - 0x80000000) = 2 ^ 32 + unat v - 2 ^ 31"
      by (subst unat_sub_if') (simp add: word_le_nat_alt)
    with * a show False by simp
  qed
  then show ge: "2 ^ 31 \<le> unat v" by simp
  then show "v \<noteq> 0" by auto
  show "unat (V2P v) = unat v - 2 ^ 31"
    using ge by (simp add: V2P_def KERNBASE_def unat_sub_if' word_le_nat_alt)
  have "unat (v mod 4096) = 0" using assms by (simp add: page_ok_def PGSIZE_def)
  then show "unat v mod 4096 = 0" by (simp add: unat_mod_distrib)
qed

lemma page_off_page [simp]: "page_ok e v \<Longrightarrow> page_off v = 0"
  using page_ok_unat [of e v] by (auto simp: page_off_def mod_eq_0_iff_dvd dvd_diff_nat)

lemma frame_page: "page_ok e v \<Longrightarrow> unat v = 2 ^ 31 + 4096 * frame v"
  using page_ok_unat [of e v] page_off_page [of e v]
  by (auto simp: frame_def page_off_def)

lemma frame_inj: "page_ok e v \<Longrightarrow> page_ok e w \<Longrightarrow> frame v = frame w \<longleftrightarrow> v = w"
  using frame_page [of e v] frame_page [of e w] by (auto simp: word_unat_eq_iff)

section \<open>The abstract free list\<close>

fun free_chain :: "(nat \<Rightarrow> bytes) \<Rightarrow> u32 \<Rightarrow> u32 list \<Rightarrow> bool" where
  "free_chain m r [] \<longleftrightarrow> r = 0"
| "free_chain m r (x # xs) \<longleftrightarrow> r = x \<and> free_chain m (get32 (m (frame x)) (page_off x)) xs"

definition kmem_ok :: "'z kst_scheme \<Rightarrow> u32 list \<Rightarrow> bool" where
  "kmem_ok s xs \<longleftrightarrow> free_chain (pages s) (freelist s) xs \<and> distinct xs
     \<and> (\<forall>x \<in> set xs. page_ok (kend s) x)"

text \<open>The chain only depends on the free pages: others may be written at will.\<close>

lemma free_chain_cong:
  "(\<And>x. x \<in> set xs \<Longrightarrow> m (frame x) = m' (frame x)) \<Longrightarrow> free_chain m r xs = free_chain m' r xs"
  by (induction xs arbitrary: r) auto

lemma kmem_ok_write:
  assumes "kmem_ok s xs" "\<And>x. x \<in> set xs \<Longrightarrow> frame x \<noteq> f"
  shows "kmem_ok (s\<lparr>pages := (pages s)(f := b)\<rparr>) xs"
  using assms by (auto simp: kmem_ok_def free_chain_cong [of xs "pages s" "(pages s)(f := b)"])

lemma kmem_ok_held [simp]: "kmem_ok (s\<lparr>held := h\<rparr>) xs = kmem_ok s xs"
  by (simp add: kmem_ok_def)

lemma kalloc_eq:
  "LKmem \<notin> held s \<Longrightarrow>
   kalloc s = Ret (freelist s) (if freelist s \<noteq> 0 then s\<lparr>freelist := rd32 (freelist s) s\<rparr> else s)"
  by (simp add: kalloc_def Let_def rd32_def)

lemma kfree_eq:
  "LKmem \<notin> held s \<Longrightarrow> page_ok (kend s) v \<Longrightarrow>
   kfree v s = Ret () ((wr32 v (freelist s) (memset_page v 1 s))\<lparr>freelist := v\<rparr>)"
  by (simp add: kfree_def Let_def wr32_def memset_page_def page_ok_def not_le not_less)

lemma kalloc_some:
  assumes "kmem_ok s (x # xs)" "LKmem \<notin> held s"
  shows "kalloc s = Ret x (s\<lparr>freelist := rd32 x s\<rparr>)" "kmem_ok (s\<lparr>freelist := rd32 x s\<rparr>) xs"
  using assms page_ok_unat(4) [of "kend s" x]
  by (auto simp: kalloc_eq kmem_ok_def rd32_def)

lemma kalloc_none: "kmem_ok s [] \<Longrightarrow> LKmem \<notin> held s \<Longrightarrow> kalloc s = Ret 0 s"
  by (simp add: kalloc_eq kmem_ok_def)

lemma kfree_ok:
  assumes "kmem_ok s xs" "LKmem \<notin> held s" "page_ok (kend s) v" "v \<notin> set xs"
  shows "kmem_ok ((wr32 v (freelist s) (memset_page v 1 s))\<lparr>freelist := v\<rparr>) (v # xs)"
proof -
  let ?t = "(wr32 v (freelist s) (memset_page v 1 s))\<lparr>freelist := v\<rparr>"
  have "frame x \<noteq> frame v" if "x \<in> set xs" for x
    using that assms by (metis frame_inj kmem_ok_def)
  then have "free_chain (pages ?t) (freelist s) xs"
    using assms(1) free_chain_cong [of xs "pages s" "pages ?t"]
    by (simp add: kmem_ok_def wr32_def memset_page_def)
  with assms show ?thesis by (simp add: kmem_ok_def wr32_def memset_page_def)
qed

section \<open>The contract of a page allocator\<close>

fun alloc_many :: "('s \<Rightarrow> ('s, u32) outcome) \<Rightarrow> nat \<Rightarrow> 's \<Rightarrow> ('s, u32 list) outcome" where
  "alloc_many alloc 0 s = Ret [] s"
| "alloc_many alloc (Suc n) s =
     bindK (alloc s) (\<lambda>p s. bindK (alloc_many alloc n s) (\<lambda>ps s. Ret (p # ps) s))"

fun free_many :: "(u32 \<Rightarrow> 's \<Rightarrow> ('s, unit) outcome) \<Rightarrow> u32 list \<Rightarrow> 's \<Rightarrow> ('s, unit) outcome" where
  "free_many free [] s = Ret () s"
| "free_many free (p # ps) s = bindK (free p s) (\<lambda>_ s. free_many free ps s)"

locale page_allocator =
  fixes alloc :: "'s \<Rightarrow> ('s, u32) outcome"
    and free :: "u32 \<Rightarrow> 's \<Rightarrow> ('s, unit) outcome"
    and avail :: "'s \<Rightarrow> u32 list \<Rightarrow> bool"
    and is_page :: "'s \<Rightarrow> u32 \<Rightarrow> bool"
  assumes alloc_some: "avail s (x # xs) \<Longrightarrow> returns (alloc s) (\<lambda>r t. r = x \<and> avail t xs \<and> is_page t = is_page s)"
    and alloc_none: "avail s [] \<Longrightarrow> alloc s = Ret 0 s"
    and free_page: "\<lbrakk>avail s xs; is_page s v; v \<notin> set xs\<rbrakk> \<Longrightarrow>
        returns (free v s) (\<lambda>_ t. avail t (v # xs) \<and> is_page t = is_page s)"
    and avail_pages: "avail s xs \<Longrightarrow> distinct xs \<and> 0 \<notin> set xs \<and> (\<forall>x \<in> set xs. is_page s x)"
begin

lemma alloc_many_take:
  "\<lbrakk>avail s xs; n \<le> length xs\<rbrakk> \<Longrightarrow>
   returns (alloc_many alloc n s) (\<lambda>ps t. ps = take n xs \<and> avail t (drop n xs) \<and> is_page t = is_page s)"
proof (induction n arbitrary: s xs)
  case (Suc n)
  then obtain x ys where xs: "xs = x # ys" "n \<le> length ys" by (cases xs) auto
  have "returns (alloc_many alloc n t) (\<lambda>ps u. ps = take n ys \<and> avail u (drop n ys) \<and> is_page u = is_page s)"
    if "avail t ys" "is_page t = is_page s" for t
    using Suc.IH [OF that(1) xs(2)] that(2) by simp
  then have "returns (alloc_many alloc n t) (\<lambda>ps u. x # ps = take (Suc n) xs \<and> avail u (drop (Suc n) xs) \<and> is_page u = is_page s)"
    if "avail t ys" "is_page t = is_page s" for t
    using that xs(1) by simp
  moreover have "returns (alloc s) (\<lambda>r t. r = x \<and> avail t ys \<and> is_page t = is_page s)"
    using alloc_some Suc.prems(1) xs(1) by blast
  ultimately show ?case
    by (auto elim!: returns_mono simp del: take_Suc_Cons drop_Suc_Cons)
qed (simp add: avail_pages)

lemma alloc_many_distinct:
  assumes "avail s xs" "n \<le> length xs"
  shows "returns (alloc_many alloc n s) (\<lambda>ps t. length ps = n \<and> distinct ps \<and> 0 \<notin> set ps
    \<and> (\<forall>p \<in> set ps. is_page s p) \<and> avail t (drop n xs) \<and> set ps \<inter> set (drop n xs) = {})"
proof (rule returns_mono [OF alloc_many_take [OF assms]])
  fix ps t
  assume ps: "ps = take n xs \<and> avail t (drop n xs) \<and> is_page t = is_page s"
  have "distinct (take n xs @ drop n xs)" "0 \<notin> set xs" "\<forall>x \<in> set xs. is_page s x"
    using avail_pages [OF assms(1)] by simp_all
  with ps assms(2) show "length ps = n \<and> distinct ps \<and> 0 \<notin> set ps
    \<and> (\<forall>p \<in> set ps. is_page s p) \<and> avail t (drop n xs) \<and> set ps \<inter> set (drop n xs) = {}"
    unfolding distinct_append by (auto dest: in_set_takeD)
qed

lemma free_many_avail:
  "\<lbrakk>avail s xs; distinct ps; set ps \<inter> set xs = {}; \<forall>p \<in> set ps. is_page s p\<rbrakk> \<Longrightarrow>
   returns (free_many free ps s) (\<lambda>_ t. avail t (rev ps @ xs) \<and> is_page t = is_page s)"
proof (induction ps arbitrary: s xs)
  case (Cons p ps)
  have "returns (free p s) (\<lambda>_ t. avail t (p # xs) \<and> is_page t = is_page s)"
    using Cons.prems by (intro free_page) auto
  moreover have "returns (free_many free ps t) (\<lambda>_ u. avail u (rev (p # ps) @ xs) \<and> is_page u = is_page s)"
    if "avail t (p # xs) \<and> is_page t = is_page s" for t
    using Cons.IH [of t "p # xs"] Cons.prems that by auto
  ultimately show ?case by (auto elim!: returns_mono)
qed simp

end

interpretation ka: page_allocator kalloc kfree
  "\<lambda>s xs. kmem_ok s xs \<and> LKmem \<notin> held s" "\<lambda>s. page_ok (kend s)"
proof unfold_locales
  fix s :: "'z kst_scheme" and x xs v
  show "returns (kalloc s) (\<lambda>r t. r = x \<and> (kmem_ok t xs \<and> LKmem \<notin> held t) \<and> page_ok (kend t) = page_ok (kend s))"
    if "kmem_ok s (x # xs) \<and> LKmem \<notin> held s"
    using that kalloc_some [of s x xs] by simp
  show "kalloc s = Ret 0 s" if "kmem_ok s [] \<and> LKmem \<notin> held s"
    using that by (simp add: kalloc_none)
  show "returns (kfree v s) (\<lambda>_ t. (kmem_ok t (v # xs) \<and> LKmem \<notin> held t) \<and> page_ok (kend t) = page_ok (kend s))"
    if "kmem_ok s xs \<and> LKmem \<notin> held s" "page_ok (kend s) v" "v \<notin> set xs"
    using that kfree_ok [of s xs v] by (simp add: kfree_eq) (simp add: wr32_def memset_page_def)
  show "distinct xs \<and> 0 \<notin> set xs \<and> (\<forall>x \<in> set xs. page_ok (kend s) x)"
    if "kmem_ok s xs \<and> LKmem \<notin> held s"
    using that page_ok_unat(4) [of "kend s" 0] by (auto simp: kmem_ok_def)
qed

section \<open>Initialisation\<close>

lemma unat_and_not_4095: "unat ((a :: u32) AND NOT 4095) = unat a - unat a mod 4096"
proof -
  have m: "(4095 :: u32) = mask 12" by (simp add: mask_eq_exp_minus_1)
  have "a AND NOT 4095 = push_bit 12 (drop_bit 12 a)"
    unfolding m by (rule bit_word_eqI) (auto simp: bit_simps)
  also have "\<dots> = a - take_bit 12 a" using bits_ident [of 12 a] by (simp add: algebra_simps)
  also have "take_bit 12 a = a mod 4096" by (simp add: take_bit_eq_mod)
  finally have "a AND NOT 4095 = a - a mod 4096" .
  moreover have "unat (a mod 4096) = unat a mod 4096" by (simp add: unat_mod_distrib)
  moreover have "unat a mod 4096 \<le> unat a" by simp
  ultimately show ?thesis by (simp add: unat_sub_if' word_le_nat_alt)
qed

lemma unat_PGROUNDDOWN: "unat (PGROUNDDOWN a) = unat a - unat a mod 4096"
  using unat_and_not_4095 [of a] by (simp add: PGROUNDDOWN_def PGSIZE_def)

lemma unat_PGROUNDUP:
  assumes "unat a + 4095 < 2 ^ 32"
  shows "unat (PGROUNDUP a) = unat a + 4095 - (unat a + 4095) mod 4096"
proof -
  have "unat (a + 4095) = unat a + 4095"
    using assms by (simp add: unat_word_ariths)
  moreover have "PGROUNDUP a = (a + 4095) AND NOT 4095"
    by (simp add: PGROUNDUP_def PGSIZE_def add.commute)
  ultimately show ?thesis by (simp only: unat_and_not_4095)
qed

text \<open>The pages that \<open>freerange\<close> gives to the allocator.\<close>

definition page_range :: "u32 \<Rightarrow> u32 \<Rightarrow> u32 set" where
  "page_range p vend = {q. q mod PGSIZE = 0 \<and> p \<le> q \<and> unat q + 4096 \<le> unat vend}"

lemma page_aligned: "(q :: u32) mod PGSIZE = 0 \<longleftrightarrow> unat q mod 4096 = 0"
proof -
  have "q mod 4096 = 0 \<longleftrightarrow> unat (q mod 4096) = 0" by (metis unsigned_0 unsigned_eq_0_iff)
  then show ?thesis by (simp add: PGSIZE_def unat_mod_distrib)
qed

lemma unat_page_step: "unat p + 4096 \<le> unat vend \<Longrightarrow> unat (p + PGSIZE) = unat p + 4096"
  for p vend :: u32
  using unat_u32 [of vend] by (simp add: PGSIZE_def unat_word_ariths)

lemma page_range_step:
  assumes "p mod PGSIZE = 0" "unat p + 4096 \<le> unat vend"
  shows "page_range p vend = insert p (page_range (p + PGSIZE) vend)" "p \<notin> page_range (p + PGSIZE) vend"
proof -
  note up = unat_page_step [OF assms(2)]
  have step: "p \<le> q \<longleftrightarrow> q = p \<or> p + PGSIZE \<le> q" if q: "q mod PGSIZE = 0" for q
  proof -
    obtain a where a: "unat q = 4096 * a" using q by (auto simp: page_aligned)
    obtain b where b: "unat p = 4096 * b" using assms(1) by (auto simp: page_aligned)
    have "4096 * b \<le> 4096 * a \<longleftrightarrow> 4096 * a = 4096 * b \<or> 4096 * b + 4096 \<le> 4096 * a"
      by (cases a b rule: linorder_cases) (auto simp: less_iff_Suc_add)
    then show ?thesis unfolding word_le_nat_alt word_unat_eq_iff up a b .
  qed
  show "page_range p vend = insert p (page_range (p + PGSIZE) vend)"
  proof (rule set_eqI)
    fix q
    show "q \<in> page_range p vend \<longleftrightarrow> q \<in> insert p (page_range (p + PGSIZE) vend)"
      using step [of q] assms
      by (cases "q mod PGSIZE = 0"; cases "q = p") (simp_all add: page_range_def)
  qed
  have "\<not> p + PGSIZE \<le> p" unfolding word_le_nat_alt up by simp
  then show "p \<notin> page_range (p + PGSIZE) vend"
    unfolding page_range_def by blast
qed

lemma page_range_done: "\<not> unat p + 4096 \<le> unat vend \<Longrightarrow> page_range p vend = {}"
  by (auto simp: page_range_def word_le_nat_alt)

lemma page_range_ok:
  assumes "kend s \<le> p" "KERNBASE \<le> p" "unat vend \<le> 2 ^ 31 + 0xE000000" "q \<in> page_range p vend"
  shows "page_ok (kend s) q"
proof -
  have "p \<le> q" "unat q < 2 ^ 31 + 0xE000000" "q mod PGSIZE = 0"
    using assms by (auto simp: page_range_def)
  moreover from this assms(2) have "V2P q < PHYSTOP"
    by (auto simp: V2P_def KERNBASE_def PHYSTOP_def word_less_nat_alt word_le_nat_alt unat_sub_if')
  ultimately show ?thesis using assms(1) by (auto simp: page_ok_def)
qed

lemma freerange_loop_ok:
  "\<lbrakk>kmem_ok s xs; LKmem \<notin> held s; p mod PGSIZE = 0; kend s \<le> p; KERNBASE \<le> p;
    unat vend \<le> 2 ^ 31 + 0xE000000; set xs \<inter> page_range p vend = {}\<rbrakk> \<Longrightarrow>
   returns (freerange_loop p vend s) (\<lambda>_ t. held t = held s \<and> kend t = kend s
     \<and> (\<exists>ys. kmem_ok t (ys @ xs) \<and> set ys = page_range p vend))"
proof (induction p vend s arbitrary: xs rule: freerange_loop.induct)
  case (1 p vend s)
  show ?case
  proof (cases "unat p + 4096 \<le> unat vend")
    case False
    with 1 show ?thesis
      by (subst freerange_loop.simps) (auto simp: page_range_done intro: exI [of _ "[]"])
  next
    case True
    note step = page_range_step [OF "1.prems"(3) True]
    have pg: "page_ok (kend s) p"
      using "1.prems" step by (intro page_range_ok [of s p vend]) auto
    let ?t = "(wr32 p (freelist s) (memset_page p 1 s))\<lparr>freelist := p\<rparr>"
    have t: "kfree p s = Ret () ?t" "kmem_ok ?t (p # xs)" "held ?t = held s" "kend ?t = kend s"
      using "1.prems" pg step kfree_ok [of s xs p] by (auto simp: kfree_eq wr32_def memset_page_def)
    have up: "unat (p + PGSIZE) = unat p + 4096" by (rule unat_page_step [OF True])
    have "returns (freerange_loop (p + PGSIZE) vend ?t) (\<lambda>_ u. held u = held ?t \<and> kend u = kend ?t
       \<and> (\<exists>ys. kmem_ok u (ys @ p # xs) \<and> set ys = page_range (p + PGSIZE) vend))"
    proof (rule "1.IH" [OF True t(2)])
      show "(p + PGSIZE) mod PGSIZE = 0" using "1.prems"(3) up by (simp add: page_aligned)
      show "kend ?t \<le> p + PGSIZE" "KERNBASE \<le> p + PGSIZE"
        using "1.prems"(4,5) up t(4) by (auto simp: word_le_nat_alt)
      show "set (p # xs) \<inter> page_range (p + PGSIZE) vend = {}"
        using "1.prems"(7) step by auto
    qed (use "1.prems" t in auto)
    then have "returns (freerange_loop (p + PGSIZE) vend ?t) (\<lambda>_ u. held u = held s \<and> kend u = kend s
       \<and> (\<exists>ys. kmem_ok u (ys @ xs) \<and> set ys = page_range p vend))"
    proof (rule returns_mono, clarsimp simp: t(3,4) step(1))
      fix u ys
      assume "kmem_ok u (ys @ p # xs)" "set ys = page_range (p + PGSIZE) vend"
      then show "\<exists>ys. kmem_ok u (ys @ xs) \<and> set ys = insert p (page_range (p + PGSIZE) vend)"
        by (intro exI [of _ "ys @ [p]"]) simp
    qed
    with True t(1) show ?thesis by (subst freerange_loop.simps) simp
  qed
qed

section \<open>Properties of the allocator\<close>

text \<open>C7. \<open>freerange\<close> gives exactly the whole pages between \<open>vstart\<close> and \<open>vend\<close> to the
  allocator, each once: it returns without a panic, the free list stays well formed (no page twice,
  every page aligned, above the kernel and below PHYSTOP), and the pages added are the aligned
  ones of the range.\<close>

theorem freerange_adds_pages:
  assumes "kmem_ok s xs" "LKmem \<notin> held s"
    and "kend s \<le> vstart" "KERNBASE \<le> vstart" "unat vstart + 4095 < 2 ^ 32"
    and "unat vend \<le> 2 ^ 31 + 0xE000000"
    and "set xs \<inter> page_range (PGROUNDUP vstart) vend = {}"
  shows "returns (freerange vstart vend s) (\<lambda>_ t. held t = held s
    \<and> (\<exists>ys. kmem_ok t (ys @ xs) \<and> set ys = page_range (PGROUNDUP vstart) vend))"
proof -
  have up: "unat (PGROUNDUP vstart) = unat vstart + 4095 - (unat vstart + 4095) mod 4096"
    using assms(5) by (simp add: unat_PGROUNDUP)
  then have "unat (PGROUNDUP vstart) mod 4096 = 0" by (simp add: minus_mod_eq_mult_div)
  moreover have "unat vstart \<le> unat (PGROUNDUP vstart)"
    using up mod_less_divisor [of 4096 "unat vstart + 4095"] by linarith
  ultimately have "returns (freerange_loop (PGROUNDUP vstart) vend s) (\<lambda>_ t. held t = held s
      \<and> kend t = kend s \<and> (\<exists>ys. kmem_ok t (ys @ xs) \<and> set ys = page_range (PGROUNDUP vstart) vend))"
    using assms by (intro freerange_loop_ok) (auto simp: page_aligned word_le_nat_alt)
  then show ?thesis unfolding freerange_def by (rule returns_mono) simp
qed

text \<open>A machine whose kernel ends at 0x80400000 and whose memory is not yet free.\<close>

definition boot_kst :: kst where
  "boot_kst = \<lparr>held = {}, cons_locking = False, panicked = False, uart = False, uart_out = [],
     crt = (\<lambda>_. 0), crt_pos = 0, pages = (\<lambda>_ _. 0), kend = 0x80400000,
     kmem_use_lock = False, freelist = 0\<rparr>"

lemma kmem_ok_boot: "kmem_ok boot_kst []"
  by (simp add: kmem_ok_def boot_kst_def)

theorem freerange_adds_pages_witness:
  "returns (freerange 0x80400800 0x80403000 boot_kst) (\<lambda>_ t. held t = {}
    \<and> (\<exists>ys. kmem_ok t ys \<and> set ys = page_range 0x80401000 0x80403000))"
  using freerange_adds_pages [where s = boot_kst and xs = "[]" and vstart = "0x80400800" and vend = "0x80403000"] kmem_ok_boot
  by (simp add: boot_kst_def KERNBASE_def PGROUNDUP_def PGSIZE_def)

text \<open>C6. No page is handed out twice: \<open>n\<close> successive calls of \<open>kalloc\<close> return \<open>n\<close> different
  non-null pages, none of which is still on the free list, and the rest of the list is intact.\<close>

theorem kalloc_distinct_pages:
  assumes "kmem_ok s xs" "LKmem \<notin> held s" "n \<le> length xs"
  shows "returns (alloc_many kalloc n s) (\<lambda>ps t. length ps = n \<and> distinct ps \<and> 0 \<notin> set ps
    \<and> kmem_ok t (drop n xs) \<and> set ps \<inter> set (drop n xs) = {})"
  using ka.alloc_many_distinct [of s xs n] assms by (auto elim!: returns_mono)

definition two_free :: kst where
  "two_free = boot_kst\<lparr>freelist := 0x80401000,
     pages := (\<lambda>_ _. 0)(frame 0x80401000 := put32 (\<lambda>_. 0) 0 0x80400000)\<rparr>"

lemma kmem_ok_two_free: "kmem_ok two_free [0x80401000, 0x80400000]"
  by (simp add: kmem_ok_def two_free_def boot_kst_def frame_def page_off_def V2P_def KERNBASE_def
      page_ok_def PGSIZE_def PHYSTOP_def)

theorem kalloc_distinct_pages_witness:
  "returns (alloc_many kalloc 2 two_free) (\<lambda>ps t. length ps = 2 \<and> distinct ps \<and> 0 \<notin> set ps
    \<and> kmem_ok t [])"
  by (rule returns_mono [OF kalloc_distinct_pages [OF kmem_ok_two_free, of 2]])
    (simp_all add: two_free_def boot_kst_def)

text \<open>C8. Pages that are freed become available again: freeing a list of different allocated pages
  returns, and they are then the first pages that \<open>kalloc\<close> hands out, last freed first.\<close>

theorem kfree_kalloc_lifo:
  assumes "kmem_ok s xs" "LKmem \<notin> held s" "distinct ps" "set ps \<inter> set xs = {}"
    and "list_all (page_ok (kend s)) ps"
  shows "returns (bindK (free_many kfree ps s) (\<lambda>_ t. alloc_many kalloc (length ps) t))
    (\<lambda>qs u. qs = rev ps \<and> kmem_ok u xs)"
proof -
  have "returns (free_many kfree ps s) (\<lambda>_ t. (kmem_ok t (rev ps @ xs) \<and> LKmem \<notin> held t) \<and> page_ok (kend t) = page_ok (kend s))"
    using assms by (intro ka.free_many_avail) (auto simp: list_all_iff)
  then have "returns (free_many kfree ps s) (\<lambda>_ t. returns (alloc_many kalloc (length ps) t) (\<lambda>qs u. qs = rev ps \<and> kmem_ok u xs))"
  proof (rule returns_mono)
    fix t
    assume "(kmem_ok t (rev ps @ xs) \<and> LKmem \<notin> held t) \<and> page_ok (kend t) = page_ok (kend s)"
    then show "returns (alloc_many kalloc (length ps) t) (\<lambda>qs u. qs = rev ps \<and> kmem_ok u xs)"
      using ka.alloc_many_take [of t "rev ps @ xs" "length ps"] by (auto elim!: returns_mono)
  qed
  then show ?thesis by simp
qed

theorem kfree_kalloc_lifo_witness:
  "returns (bindK (free_many kfree [0x80400000, 0x80405000] boot_kst)
      (\<lambda>_ t. alloc_many kalloc (Suc (Suc 0)) t))
    (\<lambda>qs u. qs = [0x80405000, 0x80400000] \<and> kmem_ok u [])"
  using kfree_kalloc_lifo [OF kmem_ok_boot, of "[0x80400000, 0x80405000]"]
  by (simp add: boot_kst_def page_ok_def V2P_def KERNBASE_def PGSIZE_def PHYSTOP_def
      del: alloc_many.simps free_many.simps)

end
