(* ===== verification/Xv6_Vm.thy ===== *)
theory Xv6_Vm
  imports Xv6_Kalloc "HOL-Library.Sublist"
begin

unbundle bit_operations_syntax

text \<open>
  Virtual memory (src/vm.c, src/mmu.h). Page directories and page tables are pages of the physical
  memory of \<open>Xv6_Kalloc\<close>; entries are read and written as 32-bit words at the addresses that the
  code computes. \<open>pt_lookup\<close> is the specification: the two-level walk that the MMU does. The lemmas
  show what \<open>walkpgdir\<close>, \<open>mappages\<close> and the routines built on them do to that function, and that the
  pages of a page table stay apart from each other and from the free list (\<open>pt_ok\<close>).

  Loops over the address space carry fuel, the number of pages of the address space and one more;
  running out of it is \<open>Diverge\<close>. The lemmas about the loops show that this does not happen.
\<close>

section \<open>Paging hardware\<close>

definition PDX :: "u32 \<Rightarrow> u32" where "PDX va = drop_bit 22 va AND 0x3FF"
definition PTX :: "u32 \<Rightarrow> u32" where "PTX va = drop_bit 12 va AND 0x3FF"
definition PGADDR :: "u32 \<Rightarrow> u32 \<Rightarrow> u32 \<Rightarrow> u32" where
  "PGADDR d t off = push_bit 22 d OR push_bit 12 t OR off"

definition PTE_P :: u32 where "PTE_P = 1"
definition PTE_W :: u32 where "PTE_W = 2"
definition PTE_U :: u32 where "PTE_U = 4"
definition PTE_ADDR :: "u32 \<Rightarrow> u32" where "PTE_ADDR pte = pte AND NOT 0xFFF"
definition PTE_FLAGS :: "u32 \<Rightarrow> u32" where "PTE_FLAGS pte = pte AND 0xFFF"

definition EXTMEM :: u32 where "EXTMEM = 0x100000"
definition DEVSPACE :: u32 where "DEVSPACE = 0xFE000000"
definition KERNLINK :: u32 where "KERNLINK = KERNBASE + EXTMEM"

record vst = kst +
  kdata :: u32     \<comment> \<open>\<open>data\<close>: start of the writable kernel image, from the linker\<close>
  kpgdir :: u32
  cr3 :: u32       \<comment> \<open>page table register\<close>

definition NPAGES :: nat where "NPAGES = 2 ^ 20"

section \<open>Page tables\<close>

definition walkpgdir ::
  "u32 \<Rightarrow> u32 \<Rightarrow> bool \<Rightarrow> 'z kst_scheme \<Rightarrow> ('z kst_scheme, u32) outcome" where
  "walkpgdir pgdir va alloc s =
     (let pde = pgdir + 4 * PDX va
      in if rd32 pde s AND PTE_P \<noteq> 0
         then Ret (P2V (PTE_ADDR (rd32 pde s)) + 4 * PTX va) s
         else if \<not> alloc then Ret 0 s
         else bindK (kalloc s) (\<lambda>pgtab s.
           if pgtab = 0 then Ret 0 s
           else
             let s = memset_page pgtab 0 s;
                 s = wr32 pde (V2P pgtab OR PTE_P OR PTE_W OR PTE_U) s
             in Ret (pgtab + 4 * PTX va) s))"

fun mappages_loop ::
  "nat \<Rightarrow> u32 \<Rightarrow> u32 \<Rightarrow> u32 \<Rightarrow> u32 \<Rightarrow> u32 \<Rightarrow> 'z kst_scheme \<Rightarrow> ('z kst_scheme, int) outcome" where
  "mappages_loop 0 pgdir a lst pa perm s = Diverge"
| "mappages_loop (Suc fuel) pgdir a lst pa perm s =
     bindK (walkpgdir pgdir a True s) (\<lambda>pte s.
     if pte = 0 then Ret (- 1) s
     else if rd32 pte s AND PTE_P \<noteq> 0 then Panic ''remap''
     else
       let s = wr32 pte (pa OR perm OR PTE_P) s
       in if a = lst then Ret 0 s
          else mappages_loop fuel pgdir (a + PGSIZE) lst (pa + PGSIZE) perm s)"

definition mappages ::
  "u32 \<Rightarrow> u32 \<Rightarrow> u32 \<Rightarrow> u32 \<Rightarrow> u32 \<Rightarrow> 'z kst_scheme \<Rightarrow> ('z kst_scheme, int) outcome" where
  "mappages pgdir va sz pa perm s =
     mappages_loop (Suc NPAGES) pgdir (PGROUNDDOWN va) (PGROUNDDOWN (va + sz - 1)) pa perm s"

fun deallocuvm_loop ::
  "nat \<Rightarrow> u32 \<Rightarrow> u32 \<Rightarrow> u32 \<Rightarrow> 'z kst_scheme \<Rightarrow> ('z kst_scheme, unit) outcome" where
  "deallocuvm_loop 0 pgdir a oldsz s = Diverge"
| "deallocuvm_loop (Suc fuel) pgdir a oldsz s =
     (if a < oldsz then
        bindK (walkpgdir pgdir a False s) (\<lambda>pte s.
        if pte = 0 then
          deallocuvm_loop fuel pgdir (PGADDR (PDX a + 1) 0 0 - PGSIZE + PGSIZE) oldsz s
        else if rd32 pte s AND PTE_P \<noteq> 0 then
          (let pa = PTE_ADDR (rd32 pte s)
           in if pa = 0 then Panic ''kfree''
              else bindK (kfree (P2V pa) s) (\<lambda>_ s.
                   deallocuvm_loop fuel pgdir (a + PGSIZE) oldsz (wr32 pte 0 s)))
        else deallocuvm_loop fuel pgdir (a + PGSIZE) oldsz s)
      else Ret () s)"

definition deallocuvm :: "u32 \<Rightarrow> u32 \<Rightarrow> u32 \<Rightarrow> 'z kst_scheme \<Rightarrow> ('z kst_scheme, u32) outcome" where
  "deallocuvm pgdir oldsz newsz s =
     (if newsz \<ge> oldsz then Ret oldsz s
      else bindK (deallocuvm_loop (Suc NPAGES) pgdir (PGROUNDUP newsz) oldsz s) (\<lambda>_ s. Ret newsz s))"

fun freevm_tables :: "nat \<Rightarrow> u32 \<Rightarrow> u32 \<Rightarrow> 'z kst_scheme \<Rightarrow> ('z kst_scheme, unit) outcome" where
  "freevm_tables 0 pgdir i s = Ret () s"
| "freevm_tables (Suc k) pgdir i s =
     (let pde = rd32 (pgdir + 4 * i) s
      in bindK (if pde AND PTE_P \<noteq> 0 then kfree (P2V (PTE_ADDR pde)) s else Ret () s) (\<lambda>_ s.
         freevm_tables k pgdir (i + 1) s))"

definition freevm :: "u32 \<Rightarrow> 'z kst_scheme \<Rightarrow> ('z kst_scheme, unit) outcome" where
  "freevm pgdir s =
     (if pgdir = 0 then Panic ''freevm: no pgdir''
      else
        bindK (deallocuvm pgdir KERNBASE 0 s) (\<lambda>_ s.
        bindK (freevm_tables 1024 pgdir 0 s) (\<lambda>_ s.
        kfree pgdir s)))"

text \<open>The kernel's mappings: start, physical range and permissions.\<close>

definition kmap :: "u32 \<Rightarrow> (u32 \<times> u32 \<times> u32 \<times> u32) list" where
  "kmap dat =
     [(KERNBASE, 0, EXTMEM, PTE_W),
      (KERNLINK, V2P KERNLINK, V2P dat, 0),
      (dat, V2P dat, PHYSTOP, PTE_W),
      (DEVSPACE, DEVSPACE, 0, PTE_W)]"

fun setupkvm_loop ::
  "(u32 \<times> u32 \<times> u32 \<times> u32) list \<Rightarrow> u32 \<Rightarrow> 'z kst_scheme \<Rightarrow> ('z kst_scheme, u32) outcome" where
  "setupkvm_loop [] pgdir s = Ret pgdir s"
| "setupkvm_loop ((virt, phys_start, phys_end, perm) # ks) pgdir s =
     bindK (mappages pgdir virt (phys_end - phys_start) phys_start perm s) (\<lambda>r s.
     if r < 0 then bindK (freevm pgdir s) (\<lambda>_ s. Ret 0 s)
     else setupkvm_loop ks pgdir s)"

definition setupkvm :: "'z vst_scheme \<Rightarrow> ('z vst_scheme, u32) outcome" where
  "setupkvm s =
     bindK (kalloc s) (\<lambda>pgdir s.
     if pgdir = 0 then Ret 0 s
     else
       let s = memset_page pgdir 0 s
       in if P2V PHYSTOP > DEVSPACE then Panic ''PHYSTOP too high''
          else setupkvm_loop (kmap (kdata s)) pgdir s)"

definition switchkvm :: "'z vst_scheme \<Rightarrow> 'z vst_scheme" where
  "switchkvm s = s\<lparr>cr3 := V2P (kpgdir s)\<rparr>"

definition kvmalloc :: "'z vst_scheme \<Rightarrow> ('z vst_scheme, unit) outcome" where
  "kvmalloc s = bindK (setupkvm s) (\<lambda>d s. Ret () (switchkvm (s\<lparr>kpgdir := d\<rparr>)))"

section \<open>User memory\<close>

text \<open>\<open>memmove\<close> of \<open>n\<close> bytes from a kernel buffer to the address \<open>dst\<close> inside one page.\<close>

definition memmove_to :: "u32 \<Rightarrow> bytes \<Rightarrow> nat \<Rightarrow> nat \<Rightarrow> 'z kst_scheme \<Rightarrow> 'z kst_scheme" where
  "memmove_to dst buf off n s =
     s\<lparr>pages := (pages s)(frame dst := copy_bytes (pages s (frame dst)) (page_off dst) buf off n)\<rparr>"

definition inituvm :: "u32 \<Rightarrow> bytes \<Rightarrow> u32 \<Rightarrow> 'z kst_scheme \<Rightarrow> ('z kst_scheme, unit) outcome" where
  "inituvm pgdir init sz s =
     (if sz \<ge> PGSIZE then Panic ''inituvm: more than a page''
      else
        bindK (kalloc s) (\<lambda>mem s.
        if mem = 0 then Undef ''inituvm: null page''
        else
          let s = memset_page mem 0 s
          in bindK (mappages pgdir 0 PGSIZE (V2P mem) (PTE_W OR PTE_U) s) (\<lambda>_ s.
             Ret () (memmove_to mem init 0 (unat sz) s))))"

abbreviation newline :: string where "newline \<equiv> [CHR 0x0A]"

fun allocuvm_loop ::
  "nat \<Rightarrow> u32 \<Rightarrow> u32 \<Rightarrow> u32 \<Rightarrow> u32 \<Rightarrow> 'z kst_scheme \<Rightarrow> ('z kst_scheme, u32) outcome" where
  "allocuvm_loop 0 pgdir a oldsz newsz s = Diverge"
| "allocuvm_loop (Suc fuel) pgdir a oldsz newsz s =
     (if a < newsz then
        bindK (kalloc s) (\<lambda>mem s.
        if mem = 0 then
          bindK (cprintf (''allocuvm out of memory'' @ newline) [] s) (\<lambda>_ s.
          bindK (deallocuvm pgdir newsz oldsz s) (\<lambda>_ s. Ret 0 s))
        else
          let s = memset_page mem 0 s
          in bindK (mappages pgdir a PGSIZE (V2P mem) (PTE_W OR PTE_U) s) (\<lambda>r s.
             if r < 0 then
               bindK (cprintf (''allocuvm out of memory (2)'' @ newline) [] s) (\<lambda>_ s.
               bindK (deallocuvm pgdir newsz oldsz s) (\<lambda>_ s.
               bindK (kfree mem s) (\<lambda>_ s. Ret 0 s)))
             else allocuvm_loop fuel pgdir (a + PGSIZE) oldsz newsz s))
      else Ret newsz s)"

definition allocuvm :: "u32 \<Rightarrow> u32 \<Rightarrow> u32 \<Rightarrow> 'z kst_scheme \<Rightarrow> ('z kst_scheme, u32) outcome" where
  "allocuvm pgdir oldsz newsz s =
     (if newsz \<ge> KERNBASE then Ret 0 s
      else if newsz < oldsz then Ret oldsz s
      else allocuvm_loop (Suc NPAGES) pgdir (PGROUNDUP oldsz) oldsz newsz s)"

definition clearpteu :: "u32 \<Rightarrow> u32 \<Rightarrow> 'z kst_scheme \<Rightarrow> ('z kst_scheme, unit) outcome" where
  "clearpteu pgdir uva s =
     bindK (walkpgdir pgdir uva False s) (\<lambda>pte s.
     if pte = 0 then Panic ''clearpteu''
     else Ret () (wr32 pte (rd32 pte s AND NOT PTE_U) s))"

fun copyuvm_loop ::
  "nat \<Rightarrow> u32 \<Rightarrow> u32 \<Rightarrow> u32 \<Rightarrow> u32 \<Rightarrow> 'z kst_scheme \<Rightarrow> ('z kst_scheme, u32) outcome" where
  "copyuvm_loop 0 pgdir d i sz s = Diverge"
| "copyuvm_loop (Suc fuel) pgdir d i sz s =
     (if i < sz then
        bindK (walkpgdir pgdir i False s) (\<lambda>pte s.
        if pte = 0 then Panic ''copyuvm: pte should exist''
        else if rd32 pte s AND PTE_P = 0 then Panic ''copyuvm: page not present''
        else
          let pa = PTE_ADDR (rd32 pte s); flags = PTE_FLAGS (rd32 pte s)
          in bindK (kalloc s) (\<lambda>mem s.
             if mem = 0 then bindK (freevm d s) (\<lambda>_ s. Ret 0 s)
             else
               let s = memmove_to mem (pages s (frame (P2V pa))) 0 4096 s
               in bindK (mappages d i PGSIZE (V2P mem) flags s) (\<lambda>r s.
                  if r < 0 then bindK (kfree mem s) (\<lambda>_ s. bindK (freevm d s) (\<lambda>_ s. Ret 0 s))
                  else copyuvm_loop fuel pgdir d (i + PGSIZE) sz s)))
      else Ret d s)"

definition copyuvm :: "u32 \<Rightarrow> u32 \<Rightarrow> 'z vst_scheme \<Rightarrow> ('z vst_scheme, u32) outcome" where
  "copyuvm pgdir sz s =
     bindK (setupkvm s) (\<lambda>d s.
     if d = 0 then Ret 0 s else copyuvm_loop (Suc NPAGES) pgdir d 0 sz s)"

definition uva2ka :: "u32 \<Rightarrow> u32 \<Rightarrow> 'z kst_scheme \<Rightarrow> ('z kst_scheme, u32) outcome" where
  "uva2ka pgdir uva s =
     bindK (walkpgdir pgdir uva False s) (\<lambda>pte s.
     if pte = 0 then Undef ''uva2ka: null pte''
     else if rd32 pte s AND PTE_P = 0 then Ret 0 s
     else if rd32 pte s AND PTE_U = 0 then Ret 0 s
     else Ret (P2V (PTE_ADDR (rd32 pte s))) s)"

lemma and_not_4095_le: "(a :: u32) - (a AND NOT 4095) = a AND 4095"
proof -
  have "a AND NOT 4095 = a - (a AND 4095)"
  proof -
    have m: "(4095 :: u32) = mask 12" by (simp add: mask_eq_exp_minus_1)
    have "a AND NOT 4095 = push_bit 12 (drop_bit 12 a)"
      unfolding m by (rule bit_word_eqI) (auto simp: bit_simps)
    moreover have "a AND 4095 = take_bit 12 a"
      unfolding m by (rule take_bit_eq_mask [symmetric])
    ultimately show ?thesis using bits_ident [of 12 a] by (simp add: algebra_simps)
  qed
  then show ?thesis by simp
qed

lemma PGROUNDDOWN_offset: "va - PGROUNDDOWN va = va AND 4095"
  using and_not_4095_le [of va] by (simp add: PGROUNDDOWN_def PGSIZE_def)

lemma unat_and_4095: "unat ((va :: u32) AND 4095) = unat va mod 4096"
proof -
  have "va AND 4095 = va AND mask 12" by (simp add: mask_eq_exp_minus_1)
  also have "\<dots> = va mod 4096" by (simp add: take_bit_eq_mask [symmetric] take_bit_eq_mod)
  finally show ?thesis by (simp add: unat_mod_distrib)
qed

lemma unat_page_rest: "unat (PGSIZE - (va - PGROUNDDOWN va)) = 4096 - unat va mod 4096"
proof -
  have "unat va mod 4096 \<le> 4096" by (simp add: less_imp_le)
  then have "(va AND 4095) \<le> 4096" by (simp add: word_le_nat_alt unat_and_4095)
  then show ?thesis
    by (simp add: PGSIZE_def PGROUNDDOWN_offset unat_sub unat_and_4095)
qed

function copyout ::
  "u32 \<Rightarrow> u32 \<Rightarrow> bytes \<Rightarrow> nat \<Rightarrow> u32 \<Rightarrow> 'z kst_scheme \<Rightarrow> ('z kst_scheme, int) outcome" where
  "copyout pgdir va buf off len s =
     (if len > 0 then
        let va0 = PGROUNDDOWN va
        in bindK (uva2ka pgdir va0 s) (\<lambda>pa0 s.
           if pa0 = 0 then Ret (- 1) s
           else
             let n = PGSIZE - (va - va0);
                 n = (if n > len then len else n);
                 s = memmove_to (pa0 + (va - va0)) buf off (unat n) s
             in copyout pgdir (va0 + PGSIZE) buf (off + unat n) (len - n) s)
      else Ret 0 s)"
  by pat_completeness auto
termination
proof (relation "measure (\<lambda>(pgdir, va, buf, off, len, s). unat len)")
  fix len n n' va va0 :: u32 and pgdir pa0 x xa buf off and s t u :: "'z kst_scheme"
  assume "0 < len" "va0 = PGROUNDDOWN va" "n = PGSIZE - (va - va0)" "n' = (if len < n then len else n)"
  moreover have "0 < 4096 - unat va mod 4096" by simp
  ultimately have "0 < unat n'" "unat n' \<le> unat len"
    by (auto simp: word_less_nat_alt unat_page_rest)
  then have "unat (len - n') < unat len"
    by (simp add: unat_sub word_le_nat_alt)
  then show "((pgdir, va0 + PGSIZE, buf, off + unat n', len - n', t), pgdir, va, buf, off, len, s)
    \<in> measure (\<lambda>(pgdir, va, buf, off, len, s). unat len)" by simp
qed simp

declare copyout.simps [simp del]

section \<open>The walk of the MMU\<close>

definition pde_of :: "(nat \<Rightarrow> bytes) \<Rightarrow> u32 \<Rightarrow> nat \<Rightarrow> u32" where
  "pde_of m pgdir i = get32 (m (frame pgdir)) (4 * i)"

definition pgtab_of :: "(nat \<Rightarrow> bytes) \<Rightarrow> u32 \<Rightarrow> nat \<Rightarrow> u32" where
  "pgtab_of m pgdir i = P2V (PTE_ADDR (pde_of m pgdir i))"

definition present :: "u32 \<Rightarrow> bool" where "present e \<longleftrightarrow> e AND PTE_P \<noteq> 0"

definition pt_lookup :: "(nat \<Rightarrow> bytes) \<Rightarrow> u32 \<Rightarrow> u32 \<Rightarrow> u32 option" where
  "pt_lookup m pgdir va =
     (if present (pde_of m pgdir (unat (PDX va))) then
        let pte = get32 (m (frame (pgtab_of m pgdir (unat (PDX va))))) (4 * unat (PTX va))
        in if present pte then Some pte else None
      else None)"

lemma not_present_0 [simp]: "\<not> present 0"
  by (simp add: present_def)

text \<open>A page table whose pages are apart from each other and from the free pages \<open>F\<close>.\<close>

definition pt_ok :: "u32 \<Rightarrow> u32 set \<Rightarrow> (nat \<Rightarrow> bytes) \<Rightarrow> u32 \<Rightarrow> bool" where
  "pt_ok e F m pgdir \<longleftrightarrow> page_ok e pgdir \<and> pgdir \<notin> F
     \<and> (\<forall>i < 1024. present (pde_of m pgdir i) \<longrightarrow>
          page_ok e (pgtab_of m pgdir i) \<and> pgtab_of m pgdir i \<notin> F \<and> pgtab_of m pgdir i \<noteq> pgdir
          \<and> (\<forall>j < 1024. present (pde_of m pgdir j) \<longrightarrow> pgtab_of m pgdir i = pgtab_of m pgdir j \<longrightarrow> i = j))"

definition vm_ok :: "u32 \<Rightarrow> u32 list \<Rightarrow> 'z kst_scheme \<Rightarrow> bool" where
  "vm_ok pgdir xs s \<longleftrightarrow> kmem_ok s xs \<and> LKmem \<notin> held s \<and> pt_ok (kend s) (set xs) (pages s) pgdir"

definition same_but_mem :: "'z kst_scheme \<Rightarrow> 'z kst_scheme \<Rightarrow> bool" where
  "same_but_mem s t \<longleftrightarrow> t\<lparr>pages := pages s, freelist := freelist s\<rparr> = s"

lemma PDX_bound: "unat (PDX va) < 1024"
proof -
  have "PDX va \<le> 0x3FF" unfolding PDX_def by (rule word_and_le1)
  then show ?thesis by (simp add: word_le_nat_alt)
qed

lemma PTX_bound: "unat (PTX va) < 1024"
proof -
  have "PTX va \<le> 0x3FF" unfolding PTX_def by (rule word_and_le1)
  then show ?thesis by (simp add: word_le_nat_alt)
qed

lemma frame_index:
  assumes "page_ok e p" "unat i < 1024"
  shows "frame (p + 4 * i) = frame p" "page_off (p + 4 * i) = 4 * unat i"
proof -
  have p: "unat (V2P p) < 0xE000000" "unat (V2P p) mod 4096 = 0"
    using assms(1) page_off_page [OF assms(1)]
    by (auto simp: page_ok_def PHYSTOP_def word_less_nat_alt page_off_def)
  have i: "unat (4 * i) = 4 * unat i"
    using assms(2) by (simp add: unat_word_ariths)
  have "unat (V2P p + 4 * i) = unat (V2P p) + 4 * unat i"
    using p(1) assms(2) by (subst unat_word_ariths) (simp add: i)
  moreover have "V2P (p + 4 * i) = V2P p + 4 * i" by (simp add: V2P_def)
  ultimately have "unat (V2P (p + 4 * i)) = unat (V2P p) + 4 * unat i" by simp
  moreover obtain q where "unat (V2P p) = 4096 * q" using p(2) by auto
  ultimately show "frame (p + 4 * i) = frame p" "page_off (p + 4 * i) = 4 * unat i"
    using assms(2) by (auto simp: frame_def page_off_def)
qed

lemma mask_numerals: "(0x3FF :: u32) = mask 10" "(4095 :: u32) = mask 12"
  by (simp_all add: mask_eq_exp_minus_1)

lemma PGROUNDDOWN_mask: "PGROUNDDOWN a = a AND NOT (mask 12)"
  by (simp add: PGROUNDDOWN_def PGSIZE_def mask_eq_exp_minus_1)

lemma same_page_iff: "PDX va = PDX va' \<and> PTX va = PTX va' \<longleftrightarrow> PGROUNDDOWN va = PGROUNDDOWN va'"
proof
  have "PGADDR (PDX v) (PTX v) 0 = PGROUNDDOWN v" for v
  proof (rule bit_word_eqI)
    fix n
    assume "n < LENGTH(32)"
    then show "bit (PGADDR (PDX v) (PTX v) 0) n = bit (PGROUNDDOWN v) n"
      unfolding PGADDR_def PDX_def PTX_def PGROUNDDOWN_mask mask_numerals
      by (cases "n < 22") (auto simp: bit_simps)
  qed
  then show "PDX va = PDX va' \<and> PTX va = PTX va' \<Longrightarrow> PGROUNDDOWN va = PGROUNDDOWN va'"
    by metis
next
  have "PDX (PGROUNDDOWN v) = PDX v" "PTX (PGROUNDDOWN v) = PTX v" for v
    unfolding PDX_def PTX_def PGROUNDDOWN_mask mask_numerals
    by (rule bit_word_eqI; auto simp: bit_simps)+
  then show "PGROUNDDOWN va = PGROUNDDOWN va' \<Longrightarrow> PDX va = PDX va' \<and> PTX va = PTX va'"
    by metis
qed

section \<open>What the walk of the kernel does\<close>

lemma rd32_pde: "page_ok e pgdir \<Longrightarrow> rd32 (pgdir + 4 * PDX va) s = pde_of (pages s) pgdir (unat (PDX va))"
  by (simp add: rd32_def pde_of_def frame_index [OF _ PDX_bound])

lemma pgtab_fresh:
  assumes "page_ok e x"
  shows "P2V (PTE_ADDR (V2P x OR PTE_P OR PTE_W OR PTE_U)) = x" "present (V2P x OR PTE_P OR PTE_W OR PTE_U)"
proof -
  have "unat (V2P x) mod 4096 = 0" using page_off_page [OF assms] by (simp add: page_off_def)
  then have "V2P x AND 4095 = 0" by (simp add: unat_eq_0 [symmetric] unat_and_4095)
  then have low: "V2P x AND NOT 4095 = V2P x"
    using and_not_4095_le [of "V2P x"] by simp
  have seven: "(7 :: u32) = mask 3" by (simp add: mask_eq_exp_minus_1)
  have "(V2P x OR 7) AND NOT 4095 = V2P x AND NOT 4095"
    unfolding seven mask_numerals by (rule bit_word_eqI) (auto simp: bit_simps)
  with low have "(V2P x OR 7) AND NOT 4095 = V2P x" by simp
  moreover have "V2P x OR PTE_P OR PTE_W OR PTE_U = V2P x OR 7"
    by (simp add: PTE_P_def PTE_W_def PTE_U_def or.assoc)
  ultimately show "P2V (PTE_ADDR (V2P x OR PTE_P OR PTE_W OR PTE_U)) = x"
    by (simp add: PTE_ADDR_def P2V_def V2P_def)
  show "present (V2P x OR PTE_P OR PTE_W OR PTE_U)"
    by (auto simp: present_def PTE_P_def PTE_W_def PTE_U_def bit_eq_iff bit_simps intro!: exI [of _ 0])
qed

lemma vm_okD:
  assumes "vm_ok pgdir xs s"
  shows "kmem_ok s xs" "LKmem \<notin> held s" "page_ok (kend s) pgdir" "pgdir \<notin> set xs"
    and "\<And>x. x \<in> set xs \<Longrightarrow> frame x \<noteq> frame pgdir"
    and "\<And>x. x \<in> set xs \<Longrightarrow> page_ok (kend s) x"
  using assms by (auto simp: vm_ok_def pt_ok_def kmem_ok_def frame_inj)

lemma pgtab_frames:
  assumes "pt_ok e F m pgdir" "i < 1024" "present (pde_of m pgdir i)"
  shows "page_ok e (pgtab_of m pgdir i)" "frame (pgtab_of m pgdir i) \<noteq> frame pgdir"
    and "\<And>x. x \<in> F \<Longrightarrow> page_ok e x \<Longrightarrow> frame (pgtab_of m pgdir i) \<noteq> frame x"
    and "\<And>j. j < 1024 \<Longrightarrow> present (pde_of m pgdir j) \<Longrightarrow>
           frame (pgtab_of m pgdir i) = frame (pgtab_of m pgdir j) \<longleftrightarrow> i = j"
proof -
  show ok: "page_ok e (pgtab_of m pgdir i)" using assms unfolding pt_ok_def by blast
  show "frame (pgtab_of m pgdir i) \<noteq> frame pgdir"
    using assms ok frame_inj [of e "pgtab_of m pgdir i" pgdir] unfolding pt_ok_def by blast
  show "frame (pgtab_of m pgdir i) \<noteq> frame x" if "x \<in> F" "page_ok e x" for x
    using assms that ok frame_inj [of e "pgtab_of m pgdir i" x] unfolding pt_ok_def by blast
  show "frame (pgtab_of m pgdir i) = frame (pgtab_of m pgdir j) \<longleftrightarrow> i = j"
    if "j < 1024" "present (pde_of m pgdir j)" for j
  proof -
    have "page_ok e (pgtab_of m pgdir j)" using assms(1) that unfolding pt_ok_def by blast
    with ok have "frame (pgtab_of m pgdir i) = frame (pgtab_of m pgdir j)
        \<longleftrightarrow> pgtab_of m pgdir i = pgtab_of m pgdir j"
      by (rule frame_inj)
    with assms that show ?thesis unfolding pt_ok_def by blast
  qed
qed

text \<open>Writing outside the page directory and its tables changes nothing that the MMU sees.\<close>

lemma pt_lookup_cong:
  assumes "m' (frame pgdir) = m (frame pgdir)"
    and "\<And>i. i < 1024 \<Longrightarrow> present (pde_of m pgdir i) \<Longrightarrow> m' (frame (pgtab_of m pgdir i)) = m (frame (pgtab_of m pgdir i))"
  shows "pt_lookup m' pgdir = pt_lookup m pgdir"
proof
  fix va
  have "pde_of m' pgdir = pde_of m pgdir" "pgtab_of m' pgdir = pgtab_of m pgdir"
    using assms(1) by (auto simp: pde_of_def pgtab_of_def)
  with assms(2) [OF PDX_bound [of va]] show "pt_lookup m' pgdir va = pt_lookup m pgdir va"
    by (auto simp: pt_lookup_def Let_def)
qed

lemma pt_ok_cong:
  assumes "m' (frame pgdir) = m (frame pgdir)" "F' \<subseteq> F" "pt_ok e F m pgdir"
  shows "pt_ok e F' m' pgdir"
proof -
  have "pde_of m' pgdir = pde_of m pgdir" "pgtab_of m' pgdir = pgtab_of m pgdir"
    using assms(1) by (auto simp: pde_of_def pgtab_of_def)
  with assms(2,3) show ?thesis unfolding pt_ok_def by auto
qed

text \<open>A fresh page table page for the directory entry \<open>k\<close>.\<close>

definition new_pgtab :: "u32 \<Rightarrow> nat \<Rightarrow> u32 \<Rightarrow> (nat \<Rightarrow> bytes) \<Rightarrow> (nat \<Rightarrow> bytes)" where
  "new_pgtab pgdir k x m =
     m(frame x := memset (m (frame x)) 0 0 4096,
       frame pgdir := put32 (m (frame pgdir)) (4 * k) (V2P x OR PTE_P OR PTE_W OR PTE_U))"

lemma new_pgtab_pde:
  assumes "page_ok e x" "frame x \<noteq> frame pgdir"
  shows "pde_of (new_pgtab pgdir k x m) pgdir i
      = (if i = k then V2P x OR PTE_P OR PTE_W OR PTE_U else pde_of m pgdir i)"
    and "pgtab_of (new_pgtab pgdir k x m) pgdir i = (if i = k then x else pgtab_of m pgdir i)"
  using assms pgtab_fresh [OF assms(1)] by (auto simp: new_pgtab_def pde_of_def pgtab_of_def)

lemma get32_memset0: "a + 4 \<le> 4096 \<Longrightarrow> get32 (memset b 0 0 4096) a = 0"
  by (simp add: memset_fill fill_bytes_def get32_def)

lemma new_pgtab_ok:
  assumes "pt_ok e (insert x F) m pgdir" "page_ok e x" "x \<notin> F" "k < 1024" "\<not> present (pde_of m pgdir k)"
  shows "pt_ok e F (new_pgtab pgdir k x m) pgdir"
    and "pt_lookup (new_pgtab pgdir k x m) pgdir = pt_lookup m pgdir"
proof -
  have ne: "x \<noteq> pgdir" using assms(1) unfolding pt_ok_def by blast
  then have fx: "frame x \<noteq> frame pgdir"
    using assms(1,2) frame_inj [of e x pgdir] unfolding pt_ok_def by blast
  note pde = new_pgtab_pde [OF assms(2) fx]
  have apart: "pgtab_of m pgdir i \<noteq> x" if "i < 1024" "present (pde_of m pgdir i)" for i
    using assms(1) that unfolding pt_ok_def by blast
  show "pt_ok e F (new_pgtab pgdir k x m) pgdir"
    using assms ne apart unfolding pt_ok_def pde by (auto split: if_splits)
  show "pt_lookup (new_pgtab pgdir k x m) pgdir = pt_lookup m pgdir"
  proof
    fix va
    let ?i = "unat (PDX va)" and ?j = "unat (PTX va)"
    have "new_pgtab pgdir k x m (frame (pgtab_of m pgdir ?i)) = m (frame (pgtab_of m pgdir ?i))"
      if "present (pde_of m pgdir ?i)"
      using pgtab_frames [OF assms(1) PDX_bound that] assms(2) by (auto simp: new_pgtab_def)
    moreover have "get32 (new_pgtab pgdir k x m (frame x)) (4 * ?j) = 0"
      using PTX_bound [of va] fx by (simp add: new_pgtab_def get32_memset0)
    ultimately show "pt_lookup (new_pgtab pgdir k x m) pgdir va = pt_lookup m pgdir va"
      using assms(5)
      by (cases "present (pde_of m pgdir ?i)") (auto simp: pt_lookup_def pde Let_def)
  qed
qed

text \<open>The outcome of a walk that may allocate: the entry's table exists afterwards.\<close>

definition walked :: "u32 \<Rightarrow> u32 \<Rightarrow> u32 list \<Rightarrow> 'z kst_scheme \<Rightarrow> u32 list \<Rightarrow> 'z kst_scheme \<Rightarrow> bool" where
  "walked pgdir va xs s ys t \<longleftrightarrow> vm_ok pgdir ys t \<and> same_but_mem s t \<and> suffix ys xs
     \<and> present (pde_of (pages t) pgdir (unat (PDX va)))
     \<and> pt_lookup (pages t) pgdir = pt_lookup (pages s) pgdir"

lemma same_but_mem_refl [simp]: "same_but_mem s s"
  by (simp add: same_but_mem_def)

lemma walkpgdir_alloc:
  assumes "vm_ok pgdir xs s"
  shows "returns (walkpgdir pgdir va True s) (\<lambda>r t. r = 0 \<and> xs = [] \<and> t = s
    \<or> (\<exists>ys. walked pgdir va xs s ys t \<and> r = pgtab_of (pages t) pgdir (unat (PDX va)) + 4 * PTX va))"
proof -
  let ?i = "unat (PDX va)"
  note ok = vm_okD [OF assms]
  note pde = rd32_pde [OF ok(3)]
  show ?thesis
  proof (cases "present (pde_of (pages s) pgdir ?i)")
    case True
    then have "walkpgdir pgdir va True s = Ret (pgtab_of (pages s) pgdir ?i + 4 * PTX va) s"
      by (simp add: walkpgdir_def Let_def pde present_def pgtab_of_def)
    with True assms show ?thesis by (auto simp: walked_def)
  next
    case False
    show ?thesis
    proof (cases xs)
      case Nil
      with False ok show ?thesis
        by (simp add: walkpgdir_def Let_def pde present_def kalloc_none)
    next
      case (Cons x ys)
      let ?t = "s\<lparr>freelist := rd32 x s\<rparr>"
      let ?u = "?t\<lparr>pages := new_pgtab pgdir ?i x (pages s)\<rparr>"
      have k: "kalloc s = Ret x ?t" "kmem_ok ?t ys" and x: "page_ok (kend s) x" "x \<noteq> 0" "x \<notin> set ys"
        using kalloc_some [of s x ys] ok Cons page_ok_unat(4) [of "kend s" x] by (auto simp: kmem_ok_def)
      have fx: "frame x \<noteq> frame pgdir" using ok(5) Cons by simp
      have pt: "pt_ok (kend s) (insert x (set ys)) (pages s) pgdir"
        using assms Cons by (simp add: vm_ok_def)
      note new = new_pgtab_ok [OF pt x(1) x(3) PDX_bound False]
      have "wr32 (pgdir + 4 * PDX va) (V2P x OR PTE_P OR PTE_W OR PTE_U) (memset_page x 0 ?t) = ?u"
        using fx x(1) frame_index [OF ok(3) PDX_bound]
        by (simp add: wr32_def memset_page_def new_pgtab_def)
      then have w: "walkpgdir pgdir va True s = Ret (x + 4 * PTX va) ?u"
        using False k(1) x(2) by (simp add: walkpgdir_def Let_def pde present_def)
      have "frame y \<noteq> frame x" if "y \<in> set ys" for y
        using that x ok(6) Cons frame_inj [of "kend s" y x] by auto
      then have "kmem_ok ?u ys"
        using k(2) ok(5) Cons free_chain_cong [of ys "pages s" "new_pgtab pgdir ?i x (pages s)"]
        by (auto simp: kmem_ok_def new_pgtab_def)
      then have "vm_ok pgdir ys ?u" using new ok(2) by (simp add: vm_ok_def)
      moreover have "pgtab_of (pages ?u) pgdir ?i = x" "present (pde_of (pages ?u) pgdir ?i)"
        using new_pgtab_pde [OF x(1) fx] pgtab_fresh(2) [OF x(1)] by simp_all
      ultimately show ?thesis
        using w new Cons by (auto simp: walked_def same_but_mem_def intro!: exI [of _ ys] suffix_ConsI)
    qed
  qed
qed

lemma walkpgdir_noalloc:
  assumes "page_ok e pgdir"
  shows "walkpgdir pgdir va False s =
    Ret (if present (pde_of (pages s) pgdir (unat (PDX va)))
         then pgtab_of (pages s) pgdir (unat (PDX va)) + 4 * PTX va else 0) s"
  by (simp add: walkpgdir_def Let_def rd32_pde [OF assms] present_def pgtab_of_def)

text \<open>Reading and writing the entry that a walk returned.\<close>

lemma pte_addr:
  assumes "vm_ok pgdir xs s" "present (pde_of (pages s) pgdir (unat (PDX va)))"
  defines "r \<equiv> pgtab_of (pages s) pgdir (unat (PDX va)) + 4 * PTX va"
  shows "r \<noteq> 0" "present (rd32 r s) \<longleftrightarrow> pt_lookup (pages s) pgdir va \<noteq> None"
    and "pt_lookup (pages s) pgdir va = (if present (rd32 r s) then Some (rd32 r s) else None)"
proof -
  let ?T = "pgtab_of (pages s) pgdir (unat (PDX va))"
  have T: "page_ok (kend s) ?T"
    using assms(1,2) pgtab_frames(1) [OF _ PDX_bound] by (auto simp: vm_ok_def)
  note fr = frame_index [OF T PTX_bound [of va]]
  have "frame 0 = 2 ^ 19" by (simp add: frame_def V2P_def KERNBASE_def)
  moreover have "frame ?T < 2 ^ 19"
    using T by (simp add: page_ok_def frame_def PHYSTOP_def word_less_nat_alt less_mult_imp_div_less)
  ultimately show "r \<noteq> 0" using fr(1) unfolding r_def by auto
  show *: "pt_lookup (pages s) pgdir va = (if present (rd32 r s) then Some (rd32 r s) else None)"
    using assms(2) fr by (simp add: pt_lookup_def r_def rd32_def)
  then show "present (rd32 r s) \<longleftrightarrow> pt_lookup (pages s) pgdir va \<noteq> None" by simp
qed

lemma unat_inj: "unat a = unat b \<longleftrightarrow> a = b" for a b :: u32
  by (simp only: word_unat_eq_iff)

lemma write_pte:
  assumes "vm_ok pgdir xs s" "present (pde_of (pages s) pgdir (unat (PDX va)))"
  defines "r \<equiv> pgtab_of (pages s) pgdir (unat (PDX va)) + 4 * PTX va"
  shows "vm_ok pgdir xs (wr32 r v s)"
    and "pt_lookup (pages (wr32 r v s)) pgdir va' =
      (if PGROUNDDOWN va' = PGROUNDDOWN va then (if present v then Some v else None)
       else pt_lookup (pages s) pgdir va')"
proof -
  let ?i = "unat (PDX va)"
  let ?T = "pgtab_of (pages s) pgdir ?i"
  have pt: "pt_ok (kend s) (set xs) (pages s) pgdir" using assms(1) by (simp add: vm_ok_def)
  note T = pgtab_frames [OF pt PDX_bound assms(2)]
  note fr = frame_index [OF T(1) PTX_bound [of va]]
  have wr: "wr32 r v s = s\<lparr>pages := (pages s)(frame ?T := put32 (pages s (frame ?T)) (4 * unat (PTX va)) v)\<rparr>"
    unfolding wr32_def r_def fr ..
  let ?m = "(pages s)(frame ?T := put32 (pages s (frame ?T)) (4 * unat (PTX va)) v)"
  have dir: "?m (frame pgdir) = pages s (frame pgdir)" using T(2) by simp
  have "kmem_ok (wr32 r v s) xs"
    unfolding wr using T(3) vm_okD(6) [OF assms(1)]
    by (intro kmem_ok_write [OF vm_okD(1) [OF assms(1)]]) metis
  moreover have "pt_ok (kend s) (set xs) ?m pgdir"
    using dir pt by (intro pt_ok_cong [of ?m pgdir "pages s" "set xs" "set xs"]) auto
  ultimately show "vm_ok pgdir xs (wr32 r v s)"
    using assms(1) by (simp add: vm_ok_def wr)
  have pde: "pde_of ?m pgdir = pde_of (pages s) pgdir" "pgtab_of ?m pgdir = pgtab_of (pages s) pgdir"
    using dir by (auto simp: pde_of_def pgtab_of_def)
  have "pt_lookup ?m pgdir va' = (if PDX va' = PDX va \<and> PTX va' = PTX va
       then (if present v then Some v else None) else pt_lookup (pages s) pgdir va')"
  proof (cases "present (pde_of (pages s) pgdir (unat (PDX va')))")
    case True
    have "frame (pgtab_of (pages s) pgdir (unat (PDX va'))) = frame ?T \<longleftrightarrow> PDX va' = PDX va"
      using T(4) [OF PDX_bound True] unat_inj by metis
    with True show ?thesis
      by (auto simp: pt_lookup_def pde Let_def unat_inj)
  next
    case False
    with assms(2) show ?thesis by (auto simp: pt_lookup_def pde Let_def)
  qed
  then show "pt_lookup (pages (wr32 r v s)) pgdir va' =
      (if PGROUNDDOWN va' = PGROUNDDOWN va then (if present v then Some v else None)
       else pt_lookup (pages s) pgdir va')"
    unfolding wr same_page_iff [symmetric] by simp
qed

section \<open>Mapping pages\<close>

lemma same_but_mem_trans: "same_but_mem s t \<Longrightarrow> same_but_mem t u \<Longrightarrow> same_but_mem s u"
proof -
  assume a: "same_but_mem s t" "same_but_mem t u"
  have "u\<lparr>pages := pages s, freelist := freelist s\<rparr>
      = (u\<lparr>pages := pages t, freelist := freelist t\<rparr>)\<lparr>pages := pages s, freelist := freelist s\<rparr>" by simp
  also have "\<dots> = s" using a by (simp only: same_but_mem_def)
  finally show ?thesis by (simp add: same_but_mem_def)
qed

lemma same_but_mem_wr32 [simp]: "same_but_mem s (wr32 a v s)"
  by (simp add: same_but_mem_def wr32_def)

lemma same_but_mem_held: "same_but_mem s t \<Longrightarrow> held t = held s \<and> kend t = kend s"
  unfolding same_but_mem_def
  by (drule sym, erule ssubst) simp

lemma unat_aligned_step:
  assumes "unat (d :: u32) mod 4096 = 0" "d \<noteq> 0"
  shows "4096 \<le> unat d" "unat (d - 4096) = unat d - 4096"
proof -
  obtain q where q: "unat d = 4096 * q" using assms(1) by auto
  have "unat d \<noteq> 0" using assms(2) word_unat_eq_iff [of d 0] by simp
  with q show le: "4096 \<le> unat d" by simp
  then show "unat (d - 4096) = unat d - 4096" by (simp add: unat_sub word_le_nat_alt)
qed

lemma page_interval_step:
  assumes "unat (d :: u32) mod 4096 = 0" "unat (L :: u32) mod 4096 = 0" "L \<noteq> 0"
  shows "d \<le> L \<longleftrightarrow> d = 0 \<or> d - 4096 \<le> L - 4096" "d = 0 \<Longrightarrow> \<not> d - 4096 \<le> L - 4096"
proof -
  note L = unat_aligned_step [OF assms(2,3)]
  show zero: "\<not> d - 4096 \<le> L - 4096" if "d = 0"
  proof -
    have "unat (d - 4096) = 2 ^ 32 - 4096" unfolding that by simp
    then show ?thesis using L unat_u32 [of L] by (simp add: word_le_nat_alt)
  qed
  show "d \<le> L \<longleftrightarrow> d = 0 \<or> d - 4096 \<le> L - 4096"
  proof (cases "d = 0")
    case False
    note d = unat_aligned_step [OF assms(1) False]
    have "unat d \<le> unat L \<longleftrightarrow> unat d - 4096 \<le> unat L - 4096" using d(1) L(1) by arith
    with False d(2) L(2) show ?thesis by (simp add: word_le_nat_alt)
  qed (simp add: word_le_nat_alt)
qed

lemma aligned_diff:
  assumes "unat (a :: u32) mod 4096 = 0" "unat (b :: u32) mod 4096 = 0"
  shows "unat (a - b) mod 4096 = 0"
proof -
  have "4096 dvd unat a" "4096 dvd unat b" "4096 dvd (2 ^ 32 :: nat)"
    using assms by (simp_all add: mod_eq_0_iff_dvd)
  then have "4096 dvd unat (a - b)"
    unfolding unat_sub_if' by (auto intro!: dvd_diff_nat dvd_add)
  then show ?thesis by (simp add: mod_eq_0_iff_dvd)
qed

lemma aligned_PGROUNDDOWN: "unat (PGROUNDDOWN va) mod 4096 = 0"
  by (simp add: unat_PGROUNDDOWN minus_mod_eq_mult_div)

text \<open>
  The pages from \<open>a\<close> to \<open>a + L\<close>, and what mapping them to \<open>pa\<close> onwards makes of the page table: only
  the entries of the range change, and either all of them are set or memory ran out.
\<close>

definition in_pages :: "u32 \<Rightarrow> u32 \<Rightarrow> u32 \<Rightarrow> bool" where
  "in_pages a L va \<longleftrightarrow> PGROUNDDOWN va - a \<le> L"

definition map_entry :: "u32 \<Rightarrow> u32 \<Rightarrow> u32 \<Rightarrow> u32 \<Rightarrow> u32" where
  "map_entry a pa perm va = (pa + (PGROUNDDOWN va - a)) OR perm OR PTE_P"

definition map_result ::
  "u32 \<Rightarrow> u32 \<Rightarrow> u32 \<Rightarrow> u32 \<Rightarrow> u32 \<Rightarrow> u32 list \<Rightarrow> 'z kst_scheme \<Rightarrow> int \<Rightarrow> 'z kst_scheme \<Rightarrow> bool" where
  "map_result pgdir a L pa perm xs s r t \<longleftrightarrow> (\<exists>ys. vm_ok pgdir ys t \<and> same_but_mem s t \<and> suffix ys xs
     \<and> (\<forall>va. \<not> in_pages a L va \<longrightarrow> pt_lookup (pages t) pgdir va = pt_lookup (pages s) pgdir va)
     \<and> (r = 0 \<and> (\<forall>va. in_pages a L va \<longrightarrow> pt_lookup (pages t) pgdir va = Some (map_entry a pa perm va))
        \<or> r = - 1 \<and> ys = []))"

lemma in_pages_0: "in_pages a 0 va \<longleftrightarrow> PGROUNDDOWN va = a"
  by (simp add: in_pages_def)

lemma in_pages_step:
  assumes "unat a mod 4096 = 0" "L \<noteq> 0" "unat L mod 4096 = 0"
  shows "in_pages a L va \<longleftrightarrow> PGROUNDDOWN va = a \<or> in_pages (a + PGSIZE) (L - PGSIZE) va"
    and "PGROUNDDOWN va = a \<Longrightarrow> \<not> in_pages (a + PGSIZE) (L - PGSIZE) va"
  using page_interval_step [OF aligned_diff [OF aligned_PGROUNDDOWN assms(1)] assms(3,2), of va]
  by (simp_all add: in_pages_def PGSIZE_def diff_diff_eq)

lemma present_map_entry [simp]: "present (x OR perm OR PTE_P)"
  by (auto simp: present_def PTE_P_def bit_eq_iff bit_simps intro!: exI [of _ 0])

lemma set_entry:
  fixes pa perm :: u32
  assumes w: "walked pgdir a xs s ys t" "r = pgtab_of (pages t) pgdir (unat (PDX a)) + 4 * PTX a"
    and "unat a mod 4096 = 0" "pt_lookup (pages s) pgdir a = None"
  defines "u \<equiv> wr32 r (pa OR perm OR PTE_P) t"
  shows "r \<noteq> 0" "rd32 r t AND PTE_P = 0" "vm_ok pgdir ys u" "same_but_mem s u" "suffix ys xs"
    and "pt_lookup (pages u) pgdir va
      = (if PGROUNDDOWN va = a then Some (pa OR perm OR PTE_P) else pt_lookup (pages s) pgdir va)"
proof -
  have self: "PGROUNDDOWN a = a"
    using assms(3) by (simp add: word_unat_eq_iff unat_PGROUNDDOWN)
  have ok: "vm_ok pgdir ys t" "present (pde_of (pages t) pgdir (unat (PDX a)))"
    and look: "pt_lookup (pages t) pgdir = pt_lookup (pages s) pgdir"
    using w(1) by (auto simp: walked_def)
  show "r \<noteq> 0" "rd32 r t AND PTE_P = 0"
    using pte_addr [OF ok] look assms(4) unfolding w(2) present_def by simp_all
  show "vm_ok pgdir ys u" "pt_lookup (pages u) pgdir va
      = (if PGROUNDDOWN va = a then Some (pa OR perm OR PTE_P) else pt_lookup (pages s) pgdir va)"
    using write_pte [OF ok, of "pa OR perm OR PTE_P"] self look unfolding u_def w(2) by simp_all
  show "same_but_mem s u" "suffix ys xs"
    using w(1) same_but_mem_trans [OF _ same_but_mem_wr32] unfolding u_def by (auto simp: walked_def)
qed

lemma map_result_step:
  assumes "map_result pgdir (a + PGSIZE) (L - PGSIZE) (pa + PGSIZE) perm ys u r t"
    and "unat a mod 4096 = 0" "L \<noteq> 0" "unat L mod 4096 = 0" "same_but_mem s u" "suffix ys xs"
    and u: "\<And>va. pt_lookup (pages u) pgdir va
      = (if PGROUNDDOWN va = a then Some (pa OR perm OR PTE_P) else pt_lookup (pages s) pgdir va)"
  shows "map_result pgdir a L pa perm xs s r t"
proof -
  note step = in_pages_step [OF assms(2-4)]
  obtain zs where t: "vm_ok pgdir zs t" "same_but_mem u t" "suffix zs ys"
    "\<And>va. \<not> in_pages (a + PGSIZE) (L - PGSIZE) va \<Longrightarrow> pt_lookup (pages t) pgdir va = pt_lookup (pages u) pgdir va"
    "r = 0 \<and> (\<forall>va. in_pages (a + PGSIZE) (L - PGSIZE) va \<longrightarrow>
        pt_lookup (pages t) pgdir va = Some (map_entry (a + PGSIZE) (pa + PGSIZE) perm va))
     \<or> r = - 1 \<and> zs = []"
    using assms(1) unfolding map_result_def by blast
  have "pt_lookup (pages t) pgdir va = pt_lookup (pages s) pgdir va" if "\<not> in_pages a L va" for va
    using t(4) [of va] u [of va] step [of va] that by simp
  moreover have "pt_lookup (pages t) pgdir va = Some (map_entry a pa perm va)" if "r = 0" "in_pages a L va" for va
    using t(4) [of va] t(5) u [of va] step [of va] that
    by (cases "PGROUNDDOWN va = a") (auto simp: map_entry_def algebra_simps)
  ultimately show ?thesis
    unfolding map_result_def
    using t(1,5) same_but_mem_trans [OF assms(5) t(2)] suffix_order.trans [OF t(3) assms(6)] by blast
qed

lemma mappages_loop_ok:
  "\<lbrakk>vm_ok pgdir xs s; unat a mod 4096 = 0; unat lst mod 4096 = 0; unat (lst - a) div 4096 < fuel;
    \<And>va. in_pages a (lst - a) va \<Longrightarrow> pt_lookup (pages s) pgdir va = None\<rbrakk> \<Longrightarrow>
   returns (mappages_loop fuel pgdir a lst pa perm s) (map_result pgdir a (lst - a) pa perm xs s)"
proof (induction fuel arbitrary: a pa s xs)
  case (Suc fuel)
  let ?v = "pa OR perm OR PTE_P"
  let ?rest = "\<lambda>pte t. if pte = 0 then Ret (- 1) t
     else if rd32 pte t AND PTE_P \<noteq> 0 then Panic ''remap''
     else let t = wr32 pte ?v t in if a = lst then Ret 0 t
          else mappages_loop fuel pgdir (a + PGSIZE) lst (pa + PGSIZE) perm t"
  let ?Q = "map_result pgdir a (lst - a) pa perm xs s"
  have "PGROUNDDOWN a = a"
    using Suc.prems(2) by (simp add: word_unat_eq_iff unat_PGROUNDDOWN)
  then have free: "pt_lookup (pages s) pgdir a = None"
    using Suc.prems(5) [of a] by (simp add: in_pages_def)
  have "returns (?rest r t) ?Q"
    if w: "walked pgdir a xs s ys t" "r = pgtab_of (pages t) pgdir (unat (PDX a)) + 4 * PTX a" for r t ys
  proof -
    let ?u = "wr32 r ?v t"
    note r = set_entry(1,2,5) [OF w Suc.prems(2) free]
    note u = set_entry(3,4,6) [OF w Suc.prems(2) free, of pa perm]
    show ?thesis
    proof (cases "a = lst")
      case True
      with r(3) u have "?Q 0 ?u" by (auto simp: map_result_def in_pages_0 map_entry_def)
      with True r(1,2) show ?thesis by simp
    next
      case False
      have L: "lst - a \<noteq> 0" "unat (lst - a) mod 4096 = 0"
        using False aligned_diff [OF Suc.prems(3,2)] by auto
      have sub: "lst - (a + PGSIZE) = lst - a - PGSIZE" by simp
      have "unat (a + PGSIZE) mod 4096 = 0"
        using aligned_diff [OF Suc.prems(2), of "- PGSIZE"] by (simp add: PGSIZE_def)
      moreover have "unat (lst - (a + PGSIZE)) div 4096 < fuel"
        using unat_aligned_step [OF L(2,1)] Suc.prems(4) unfolding sub by (simp add: PGSIZE_def)
      moreover have "pt_lookup (pages ?u) pgdir va = None"
        if "in_pages (a + PGSIZE) (lst - (a + PGSIZE)) va" for va
        using that in_pages_step [OF Suc.prems(2) L, of va] Suc.prems(5) [of va] u(3) [of va]
        unfolding sub by auto
      ultimately have "returns (mappages_loop fuel pgdir (a + PGSIZE) lst (pa + PGSIZE) perm ?u)
          (map_result pgdir (a + PGSIZE) (lst - (a + PGSIZE)) (pa + PGSIZE) perm ys ?u)"
        using Suc.prems(3) by (intro Suc.IH [OF u(1)]) auto
      then have "returns (mappages_loop fuel pgdir (a + PGSIZE) lst (pa + PGSIZE) perm ?u) ?Q"
        by (rule returns_mono)
          (use map_result_step [OF _ Suc.prems(2) L u(2) r(3) u(3)] in \<open>simp add: sub\<close>)
      with False r(1,2) show ?thesis by simp
    qed
  qed
  moreover have "returns (?rest r t) ?Q" if "r = 0 \<and> xs = [] \<and> t = s" for r t
    using that Suc.prems(1) by (auto simp: map_result_def)
  ultimately have "returns (walkpgdir pgdir a True s) (\<lambda>r t. returns (?rest r t) ?Q)"
    using walkpgdir_alloc [OF Suc.prems(1), of a] by (elim returns_mono) blast
  then show ?case by simp
qed simp

section \<open>Properties\<close>

lemma page_span_fuel: "unat (x :: u32) div 4096 < Suc NPAGES"
proof -
  have "unat x div 4096 < 2 ^ 20"
    using unat_u32 [of x] by (simp add: less_mult_imp_div_less)
  then show ?thesis by (simp add: NPAGES_def)
qed

text \<open>C5. \<open>mappages\<close> installs exactly the mappings it is asked for. On a page table whose pages are
  disjoint from the free list, with no page of the range mapped yet, it returns (no panic, no
  endless loop); on success every address of the range translates to the corresponding physical
  page with the given permissions, every other address translates as before, the page table is
  still well formed, and page table pages came off the free list; otherwise it returns -1, and
  only when the free list is empty.\<close>

theorem mappages_maps_range:
  assumes "vm_ok pgdir xs s"
    and "\<And>v. in_pages (PGROUNDDOWN va) (PGROUNDDOWN (va + sz - 1) - PGROUNDDOWN va) v
           \<Longrightarrow> pt_lookup (pages s) pgdir v = None"
  shows "returns (mappages pgdir va sz pa perm s)
    (map_result pgdir (PGROUNDDOWN va) (PGROUNDDOWN (va + sz - 1) - PGROUNDDOWN va) pa perm xs s)"
  unfolding mappages_def
  by (rule mappages_loop_ok [OF assms(1) aligned_PGROUNDDOWN aligned_PGROUNDDOWN page_span_fuel assms(2)])

lemma pt_lookup_empty_dir: "(\<And>i. pde_of m pgdir i = 0) \<Longrightarrow> pt_lookup m pgdir va = None"
  by (simp add: pt_lookup_def)

text \<open>An empty page directory at 0x80402000, beside two free pages.\<close>

lemma two_free_vm: "vm_ok 0x80402000 [0x80401000, 0x80400000] two_free"
  "pde_of (pages two_free) 0x80402000 i = 0"
proof -
  have f: "frame 0x80402000 = 1026" "frame 0x80401000 = 1025"
    by (simp_all add: frame_def V2P_def KERNBASE_def)
  show pde: "pde_of (pages two_free) 0x80402000 i = 0" for i
    by (simp add: pde_of_def two_free_def f)
  have "page_ok 0x80400000 0x80402000"
    by (simp add: page_ok_def PGSIZE_def V2P_def KERNBASE_def PHYSTOP_def)
  with pde kmem_ok_two_free show "vm_ok 0x80402000 [0x80401000, 0x80400000] two_free"
    by (simp add: vm_ok_def pt_ok_def) (simp add: two_free_def boot_kst_def)
qed

theorem mappages_maps_range_witness:
  "returns (mappages 0x80402000 0 4096 0x500000 7 two_free)
    (map_result 0x80402000 0 0 0x500000 7 [0x80401000, 0x80400000] two_free)"
  using mappages_maps_range [OF two_free_vm(1) pt_lookup_empty_dir [OF two_free_vm(2)],
      of 0 4096 "0x500000" 7]
  by (simp add: PGROUNDDOWN_def PGSIZE_def)

end
