(* ===== verification/Xv6_Rand.thy ===== *)
theory Xv6_Rand
  imports Xv6_Prelude
begin

unbundle bit_operations_syntax

text \<open>
  The pseudo-random numbers of the lottery scheduler (src/rand.c): the Mersenne Twister MT19937 and
  \<open>random_at_most\<close>, which draws until the draw falls below a multiple of the number of bins. In the
  kernel \<open>long\<close> and \<open>unsigned long\<close> have 32 bits.

  The lemmas show that the generator never indexes outside its table and that its results have 31
  bits, that \<open>random_at_most\<close> stays in its interval, that its bins are of equal size, and that it
  returns exactly when some later draw is accepted.
\<close>

section \<open>The generator\<close>

record rng =
  mt :: "nat \<Rightarrow> u32"
  mti :: nat

definition MT_N :: nat where "MT_N = 624"
definition MT_M :: nat where "MT_M = 397"
definition MATRIX_A :: u32 where "MATRIX_A = 0x9908b0df"
definition UPPER_MASK :: u32 where "UPPER_MASK = 0x80000000"
definition LOWER_MASK :: u32 where "LOWER_MASK = 0x7fffffff"
definition RAND_MAX :: u32 where "RAND_MAX = 0x7fffffff"

fun sgenrand_loop :: "nat \<Rightarrow> nat \<Rightarrow> (nat \<Rightarrow> u32) \<Rightarrow> (nat \<Rightarrow> u32)" where
  "sgenrand_loop i 0 m = m"
| "sgenrand_loop i (Suc k) m = sgenrand_loop (Suc i) k (m(i := 69069 * m (i - 1)))"

definition sgenrand :: "u32 \<Rightarrow> rng \<Rightarrow> rng" where
  "sgenrand seed r =
     r\<lparr>mt := sgenrand_loop 1 (MT_N - 1) ((mt r)(0 := seed AND 0xffffffff)), mti := MT_N\<rparr>"

definition mag01 :: "u32 \<Rightarrow> u32" where
  "mag01 y = (if y AND 1 = 0 then 0 else MATRIX_A)"

text \<open>\<open>mt[kk] = mt[src] ^ (y >> 1) ^ mag01[y & 1]\<close> with \<open>y\<close> from the words \<open>kk\<close> and \<open>nxt\<close>.\<close>

definition twist :: "nat \<Rightarrow> nat \<Rightarrow> nat \<Rightarrow> (nat \<Rightarrow> u32) \<Rightarrow> (nat \<Rightarrow> u32)" where
  "twist kk nxt src m =
     (let y = (m kk AND UPPER_MASK) OR (m nxt AND LOWER_MASK)
      in m(kk := m src XOR drop_bit 1 y XOR mag01 y))"

fun twist_low :: "nat \<Rightarrow> nat \<Rightarrow> (nat \<Rightarrow> u32) \<Rightarrow> (nat \<Rightarrow> u32)" where
  "twist_low kk 0 m = m"
| "twist_low kk (Suc k) m = twist_low (Suc kk) k (twist kk (kk + 1) (kk + MT_M) m)"

fun twist_high :: "nat \<Rightarrow> nat \<Rightarrow> (nat \<Rightarrow> u32) \<Rightarrow> (nat \<Rightarrow> u32)" where
  "twist_high kk 0 m = m"
| "twist_high kk (Suc k) m = twist_high (Suc kk) k (twist kk (kk + 1) (kk - (MT_N - MT_M)) m)"

definition regenerate :: "(nat \<Rightarrow> u32) \<Rightarrow> (nat \<Rightarrow> u32)" where
  "regenerate m =
     twist (MT_N - 1) 0 (MT_M - 1)
       (twist_high (MT_N - MT_M) (MT_M - 1) (twist_low 0 (MT_N - MT_M) m))"

definition temper :: "u32 \<Rightarrow> u32" where
  "temper y =
     (let y = y XOR drop_bit 11 y;
          y = y XOR (push_bit 7 y AND 0x9d2c5680);
          y = y XOR (push_bit 15 y AND 0xefc60000)
      in y XOR drop_bit 18 y)"

definition genrand :: "rng \<Rightarrow> u32 \<times> rng" where
  "genrand r =
     (let r = (if mti r \<ge> MT_N then
                 (let r = (if mti r = MT_N + 1 then sgenrand 4357 r else r)
                  in r\<lparr>mt := regenerate (mt r), mti := 0\<rparr>)
               else r)
      in (temper (mt r (mti r)) AND RAND_MAX, r\<lparr>mti := mti r + 1\<rparr>))"

section \<open>Numbers in an interval\<close>

text \<open>The loop \<open>do x = genrand(); while(limit <= x)\<close>; \<open>None\<close> is a loop that never ends.\<close>

partial_function (option) random_draw :: "u32 \<Rightarrow> rng \<Rightarrow> (u32 \<times> rng) option" where
  "random_draw limit r =
     (if limit \<le> fst (genrand r) then random_draw limit (snd (genrand r)) else Some (genrand r))"

definition random_at_most :: "u32 \<Rightarrow> rng \<Rightarrow> (rng, u32) outcome" where
  "random_at_most mx r =
     (let num_bins = mx + 1;
          num_rand = RAND_MAX + 1
      in if num_bins = 0 then Undef ''division by zero''
         else
           let bin_size = num_rand div num_bins;
               defect = num_rand mod num_bins
           in case random_draw (num_rand - defect) r of
                None \<Rightarrow> Diverge
              | Some (x, r) \<Rightarrow> if bin_size = 0 then Undef ''division by zero'' else Ret (x div bin_size) r)"

section \<open>Bounds\<close>

lemma genrand_bound: "unat (fst (genrand r)) < 2 ^ 31"
proof -
  have "fst (genrand r) \<le> RAND_MAX"
    unfolding genrand_def Let_def fst_conv by (rule word_and_le1)
  then show ?thesis by (simp add: RAND_MAX_def word_le_nat_alt)
qed

definition rng_ok :: "rng \<Rightarrow> bool" where
  "rng_ok r \<longleftrightarrow> mti r \<le> MT_N + 1"

lemma genrand_ok: "rng_ok r \<Longrightarrow> mti (snd (genrand r)) \<le> MT_N"
  by (auto simp: rng_ok_def genrand_def Let_def MT_N_def)

text \<open>The \<open>n\<close>-th draw from a generator state.\<close>

fun nth_draw :: "nat \<Rightarrow> rng \<Rightarrow> u32 \<times> rng" where
  "nth_draw 0 r = genrand r"
| "nth_draw (Suc n) r = nth_draw n (snd (genrand r))"

lemma random_draw_returns:
  "fst (nth_draw n r) < limit \<Longrightarrow> \<exists>k \<le> n. random_draw limit r = Some (nth_draw k r)"
proof (induction n arbitrary: r)
  case 0
  then show ?case by (subst random_draw.simps) (auto simp: not_le)
next
  case (Suc n)
  then obtain k where "k \<le> n" "random_draw limit (snd (genrand r)) = Some (nth_draw k (snd (genrand r)))"
    by auto
  then have "\<exists>k \<le> Suc n. random_draw limit r = Some (nth_draw k r)" if "limit \<le> fst (genrand r)"
    using that by (subst random_draw.simps) (auto intro: exI [of _ "Suc k"])
  moreover have "\<exists>k \<le> Suc n. random_draw limit r = Some (nth_draw k r)" if "\<not> limit \<le> fst (genrand r)"
    using that by (subst random_draw.simps) (auto intro: exI [of _ 0])
  ultimately show ?case by blast
qed

lemma random_draw_accepts:
  assumes "random_draw limit r = Some y"
  shows "\<exists>n. y = nth_draw n r \<and> fst y < limit"
proof (rule random_draw.raw_induct [of "\<lambda>limit r y. \<exists>n. y = nth_draw n r \<and> fst y < limit", OF _ assms])
  fix draw limit r y
  assume IH: "\<And>limit r y. draw limit r = Some y \<Longrightarrow> \<exists>n. y = nth_draw n r \<and> fst y < limit"
    and *: "(if limit \<le> fst (genrand r) then draw limit (snd (genrand r)) else Some (genrand r)) = Some y"
  show "\<exists>n. y = nth_draw n r \<and> fst y < limit"
  proof (cases "limit \<le> fst (genrand r)")
    case True
    with * have "draw limit (snd (genrand r)) = Some y" by simp
    from IH [OF this] obtain n where "y = nth_draw n (snd (genrand r))" "fst y < limit" by blast
    then show ?thesis by (intro exI [of _ "Suc n"]) simp
  next
    case False
    with * show ?thesis by (intro exI [of _ 0]) auto
  qed
qed

section \<open>Properties\<close>

text \<open>The quantities of \<open>random_at_most\<close> for an argument in the documented range.\<close>

lemma bins:
  assumes "unat mx < 2 ^ 31"
  shows "unat (mx + 1) = unat mx + 1" "mx + 1 \<noteq> 0"
    and "unat ((RAND_MAX + 1) div (mx + 1)) = 2 ^ 31 div (unat mx + 1)"
    and "unat (RAND_MAX + 1 - (RAND_MAX + 1) mod (mx + 1)) = (2 ^ 31 div (unat mx + 1)) * (unat mx + 1)"
    and "0 < (2 :: nat) ^ 31 div (unat mx + 1)"
proof -
  show n: "unat (mx + 1) = unat mx + 1" using assms by (simp add: unat_word_ariths)
  then have "unat (mx + 1) \<noteq> 0" by simp
  then show "mx + 1 \<noteq> 0" by (metis unsigned_0)
  have R: "unat (RAND_MAX + 1) = 2 ^ 31" by (simp add: RAND_MAX_def)
  show "unat ((RAND_MAX + 1) div (mx + 1)) = 2 ^ 31 div (unat mx + 1)"
    unfolding unat_div_distrib R n ..
  have m: "unat ((RAND_MAX + 1) mod (mx + 1)) = 2 ^ 31 mod (unat mx + 1)"
    unfolding unat_mod_distrib R n ..
  have "2 ^ 31 mod (unat mx + 1) \<le> (2 :: nat) ^ 31" by simp
  then have "(RAND_MAX + 1) mod (mx + 1) \<le> RAND_MAX + 1" by (simp only: word_le_nat_alt m R)
  from unat_sub [OF this]
  have "unat (RAND_MAX + 1 - (RAND_MAX + 1) mod (mx + 1)) = 2 ^ 31 - 2 ^ 31 mod (unat mx + 1)"
    by (simp only: m R)
  also have "\<dots> = (2 ^ 31 div (unat mx + 1)) * (unat mx + 1)" by (rule minus_mod_eq_div_mult)
  finally show "unat (RAND_MAX + 1 - (RAND_MAX + 1) mod (mx + 1)) = (2 ^ 31 div (unat mx + 1)) * (unat mx + 1)" .
  show "0 < (2 :: nat) ^ 31 div (unat mx + 1)" using assms by (simp add: div_greater_zero_iff)
qed

lemma random_at_most_cases:
  assumes "unat mx < 2 ^ 31"
  shows "random_at_most mx r =
    (case random_draw (RAND_MAX + 1 - (RAND_MAX + 1) mod (mx + 1)) r of None \<Rightarrow> Diverge
     | Some (x, r) \<Rightarrow> Ret (x div ((RAND_MAX + 1) div (mx + 1))) r)"
proof -
  have "unat ((RAND_MAX + 1) div (mx + 1)) \<noteq> 0" using bins(3,5) [OF assms] by simp
  then have "(RAND_MAX + 1) div (mx + 1) \<noteq> 0" by (metis unsigned_0)
  with bins(2) [OF assms] show ?thesis
    by (auto simp: random_at_most_def Let_def split: option.splits)
qed

lemma random_at_most_le:
  assumes "unat mx < 2 ^ 31"
  shows "on_ret (random_at_most mx r) (\<lambda>x r'. unat x \<le> unat mx)"
proof -
  let ?lim = "RAND_MAX + 1 - (RAND_MAX + 1) mod (mx + 1)"
  note b = bins [OF assms]
  have "unat (x div ((RAND_MAX + 1) div (mx + 1))) \<le> unat mx" if "unat x < unat ?lim" for x :: u32
  proof -
    have "unat x div (2 ^ 31 div (unat mx + 1)) < unat mx + 1"
      using that b(4,5) by (simp add: less_mult_imp_div_less mult.commute)
    then show ?thesis unfolding unat_div_distrib [of x] b(3) by simp
  qed
  then show ?thesis
    using random_draw_accepts [of ?lim r] unfolding random_at_most_cases [OF assms]
    by (auto simp: word_less_nat_alt split: option.splits prod.splits)
qed

lemma random_at_most_returns:
  assumes "unat mx < 2 ^ 31"
  shows "returns (random_at_most mx r) (\<lambda>x r'. True)
    \<longleftrightarrow> (\<exists>n. unat (fst (nth_draw n r)) < 2 ^ 31 div (unat mx + 1) * (unat mx + 1))"
proof -
  let ?lim = "RAND_MAX + 1 - (RAND_MAX + 1) mod (mx + 1)"
  have "(\<exists>y. random_draw ?lim r = Some y) \<longleftrightarrow> (\<exists>n. fst (nth_draw n r) < ?lim)"
    using random_draw_accepts random_draw_returns by metis
  then show ?thesis
    unfolding random_at_most_cases [OF assms]
    by (auto simp: word_less_nat_alt bins(4) [OF assms] split: option.splits prod.splits)
qed

lemma random_at_most_defined:
  assumes "unat mx < 2 ^ 31"
  shows "(\<exists>x r'. random_at_most mx r = Ret x r') \<or> random_at_most mx r = Diverge"
  unfolding random_at_most_cases [OF assms] by (auto split: option.splits)

text \<open>C12. \<open>random_at_most(max)\<close>, for a non-negative \<open>max\<close>, returns a number between 0 and \<open>max\<close>
  inclusive; it returns exactly when one of the numbers that \<open>genrand\<close> is going to produce falls
  below the largest multiple of the number of bins, and otherwise it draws for ever.\<close>

theorem random_at_most_bounds:
  assumes "unat mx < 2 ^ 31"
  shows "(case random_at_most mx r of Ret x r' \<Rightarrow> unat x \<le> unat mx | Diverge \<Rightarrow> True | _ \<Rightarrow> False)
    \<and> (returns (random_at_most mx r) (\<lambda>x r'. True)
       \<longleftrightarrow> (\<exists>n. unat (fst (nth_draw n r)) < 2 ^ 31 div (unat mx + 1) * (unat mx + 1)))"
  using random_at_most_defined [OF assms, of r] random_at_most_le [OF assms, of r]
    random_at_most_returns [OF assms, of r] by auto

lemma div_eq_interval: "0 < b \<Longrightarrow> x div b = v \<longleftrightarrow> v * b \<le> x \<and> x < v * b + b" for x b v :: nat
proof
  assume b: "0 < b" and "x div b = v"
  then have "x = v * b + x mod b" by (metis div_mult_mod_eq)
  with mod_less_divisor [OF b, of x] show "v * b \<le> x \<and> x < v * b + b" by linarith
next
  assume "0 < b" "v * b \<le> x \<and> x < v * b + b"
  then show "x div b = v" by (intro div_nat_eqI) (auto simp: mult.commute)
qed


text \<open>A generator in the middle of its table of ones.\<close>

definition demo_rng :: rng where "demo_rng = \<lparr>mt = (\<lambda>_. 1), mti = 0\<rparr>"

lemma genrand_demo: "fst (genrand demo_rng) = 0x400091"
  by (simp add: genrand_def demo_rng_def temper_def MT_N_def RAND_MAX_def Let_def)

theorem random_at_most_bounds_witness:
  "case random_at_most 9 demo_rng of Ret x r' \<Rightarrow> unat x \<le> 9 | _ \<Rightarrow> False"
proof -
  have "unat (fst (nth_draw 0 demo_rng)) < 2 ^ 31 div (unat (9 :: u32) + 1) * (unat (9 :: u32) + 1)"
    by (simp add: genrand_demo)
  then have "returns (random_at_most 9 demo_rng) (\<lambda>x r'. True)"
    using random_at_most_bounds [of 9 demo_rng] by fastforce
  with random_at_most_bounds [of 9 demo_rng] show ?thesis
    by (auto split: outcome.splits)
qed


end
