(* ===== verification/Xv6_Proc.thy ===== *)
theory Xv6_Proc
  imports Complex_Main Xv6_Vm Xv6_Rand
begin

unbundle bit_operations_syntax

text \<open>
  Processes (src/proc.h, src/proc.c): the process table, allocation of processes, sleep and wakeup,
  the three-level scheduler (lottery, round robin, highest response ratio next), alarms, the log
  of system calls and \<open>kill\<close>. Creation and termination of processes need the file system and
  follow in a later theory.

  The model is the run of one kernel thread between two context switches. \<open>cur\<close> is the process of
  this CPU. \<open>sched\<close> is where a thread leaves the CPU (\<open>Swtch\<close>); what it does when it is switched
  back in is a definition of its own (\<open>sleep_resume\<close>, \<open>yield_resume\<close>). A store outside an array is
  \<open>Undef\<close>.
\<close>

section \<open>Data\<close>

definition NPROC :: nat where "NPROC = 64"
definition NLOGPAIR :: nat where "NLOGPAIR = 1024"
definition NOFILE :: nat where "NOFILE = 16"
definition KSTACKSIZE :: u32 where "KSTACKSIZE = 4096"

datatype procstate = UNUSED | EMBRYO | SLEEPING | RUNNABLE | RUNNING | ZOMBIE

text \<open>The addresses on which kernel threads sleep.\<close>

datatype chan =
    ChProc nat            \<comment> \<open>a process structure, in \<open>wait\<close>\<close>
  | ChTicks               \<comment> \<open>\<open>&ticks\<close>\<close>
  | ChBuf nat             \<comment> \<open>a disk buffer\<close>
  | ChSleeplock sleepid   \<comment> \<open>a sleep lock\<close>
  | ChLog                 \<comment> \<open>\<open>&log\<close>\<close>
  | ChNread nat           \<comment> \<open>\<open>&p->nread\<close> of a pipe\<close>
  | ChNwrite nat          \<comment> \<open>\<open>&p->nwrite\<close> of a pipe\<close>
  | ChInput               \<comment> \<open>\<open>&input.r\<close>\<close>

record trapframe =
  tf_edi :: u32
  tf_esi :: u32
  tf_ebp :: u32
  tf_oesp :: u32
  tf_ebx :: u32
  tf_edx :: u32
  tf_ecx :: u32
  tf_eax :: u32
  tf_gs :: u16
  tf_fs :: u16
  tf_es :: u16
  tf_ds :: u16
  tf_trapno :: u32
  tf_err :: u32
  tf_eip :: u32
  tf_cs :: u16
  tf_eflags :: u32
  tf_esp :: u32
  tf_ss :: u16

definition zero_tf :: trapframe where
  "zero_tf = \<lparr>tf_edi = 0, tf_esi = 0, tf_ebp = 0, tf_oesp = 0, tf_ebx = 0, tf_edx = 0, tf_ecx = 0,
     tf_eax = 0, tf_gs = 0, tf_fs = 0, tf_es = 0, tf_ds = 0, tf_trapno = 0, tf_err = 0, tf_eip = 0,
     tf_cs = 0, tf_eflags = 0, tf_esp = 0, tf_ss = 0\<rparr>"

record kcontext =
  ctx_edi :: u32
  ctx_esi :: u32
  ctx_ebx :: u32
  ctx_ebp :: u32
  ctx_eip :: u32

record sysclog =
  callno :: u32
  retval :: u32

definition PL1 :: u32 where "PL1 = 0"
definition PL2 :: u32 where "PL2 = 1"
definition PL3 :: u32 where "PL3 = 2"
definition N_QUEUE :: nat where "N_QUEUE = 3"

record proc =
  p_sz :: u32
  p_pgdir :: u32
  p_kstack :: u32
  p_state :: procstate
  p_pid :: u32
  p_parent :: "nat option"
  p_tf :: trapframe
  p_context :: kcontext
  p_chan :: "chan option"
  p_killed :: bool
  p_ofile :: "nat \<Rightarrow> nat option"
  p_cwd :: "nat option"
  p_name :: bytes
  p_alarm_time :: u32
  p_sysclog :: "nat \<Rightarrow> sysclog"
  p_priority :: u32
  p_clicks :: u32
  p_last_run :: u32
  p_arrival_time :: u32
  p_tickets :: u32

record pst = vst +
  ptable :: "nat \<Rightarrow> proc"
  pptable :: "nat \<Rightarrow> proc"
  initproc :: "nat option"
  nextpid :: u32
  ticks :: u32
  cur :: "nat option"        \<comment> \<open>\<open>mycpu()->proc\<close>\<close>
  rand :: rng
  ts_esp0 :: u32
  sym_forkret :: u32         \<comment> \<open>addresses of \<open>forkret\<close> and \<open>trapret\<close>\<close>
  sym_trapret :: u32

definition upd_proc :: "nat \<Rightarrow> (proc \<Rightarrow> proc) \<Rightarrow> 'z pst_scheme \<Rightarrow> 'z pst_scheme" where
  "upd_proc i f s = s\<lparr>ptable := (ptable s)(i := f (ptable s i))\<rparr>"

definition upd_pproc :: "nat \<Rightarrow> (proc \<Rightarrow> proc) \<Rightarrow> 'z pst_scheme \<Rightarrow> 'z pst_scheme" where
  "upd_pproc i f s = s\<lparr>pptable := (pptable s)(i := f (pptable s i))\<rparr>"

text \<open>\<open>myproc()\<close>, when its result is dereferenced.\<close>

definition myprocK :: "'z pst_scheme \<Rightarrow> (nat \<Rightarrow> ('z pst_scheme, 'a) outcome) \<Rightarrow> ('z pst_scheme, 'a) outcome" where
  "myprocK s f = (case cur s of None \<Rightarrow> Undef ''null myproc()'' | Some i \<Rightarrow> f i)"

section \<open>Allocation\<close>

definition zero_context :: kcontext where
  "zero_context = \<lparr>ctx_edi = 0, ctx_esi = 0, ctx_ebx = 0, ctx_ebp = 0, ctx_eip = 0\<rparr>"

definition allocproc_init :: "nat \<Rightarrow> 'z pst_scheme \<Rightarrow> 'z pst_scheme" where
  "allocproc_init i s =
     (upd_proc i (\<lambda>p. p\<lparr>p_state := EMBRYO, p_pid := nextpid s, p_priority := PL3, p_clicks := 1,
        p_arrival_time := ticks s, p_last_run := ticks s, p_tickets := 10\<rparr>) s)
     \<lparr>nextpid := nextpid s + 1\<rparr>"

text \<open>The search leaves \<open>p\<close> one past the table when no slot is free; the stores that follow go there.\<close>

definition allocproc :: "'z pst_scheme \<Rightarrow> ('z pst_scheme, nat option) outcome" where
  "allocproc s =
     bindK (acquire LPtable s) (\<lambda>_ s.
     case find_from (\<lambda>i. p_state (ptable s i) = UNUSED) 0 NPROC of
       None \<Rightarrow> Undef ''ptable.proc[NPROC]''
     | Some i \<Rightarrow>
         bindK (release LPtable (allocproc_init i s)) (\<lambda>_ s.
         bindK (kalloc s) (\<lambda>k s.
         let s = upd_proc i (p_kstack_update (\<lambda>_. k)) s
         in if k = 0 then Ret None (upd_proc i (p_state_update (\<lambda>_. UNUSED)) s)
            else
              let sp = k + KSTACKSIZE - 76;
                  s = wr32 (sp - 4) (sym_trapret s) s
              in Ret (Some i) (upd_proc i (p_context_update (\<lambda>_. zero_context\<lparr>ctx_eip := sym_forkret s\<rparr>)) s))))"

section \<open>Sleep, wakeup and the scheduler's entry\<close>

definition sched :: "nat \<Rightarrow> 'z pst_scheme \<Rightarrow> ('z pst_scheme, 'a) outcome" where
  "sched k s =
     myprocK s (\<lambda>p.
     if LPtable \<notin> held s then Panic ''sched ptable.lock''
     else if held s \<noteq> {LPtable} then Panic ''sched locks''
     else if p_state (ptable s p) = RUNNING then Panic ''sched running''
     else Swtch k s)"

definition yield :: "'z pst_scheme \<Rightarrow> ('z pst_scheme, unit) outcome" where
  "yield s =
     bindK (acquire LPtable s) (\<lambda>_ s.
     myprocK s (\<lambda>p. sched 0 (upd_proc p (p_state_update (\<lambda>_. RUNNABLE)) s)))"

definition yield_resume :: "'z pst_scheme \<Rightarrow> ('z pst_scheme, unit) outcome" where
  "yield_resume s = release LPtable s"

text \<open>\<open>k\<close> is the loop counter of the caller, which survives on its kernel stack.\<close>

definition sleep :: "nat \<Rightarrow> chan \<Rightarrow> lockid \<Rightarrow> 'z pst_scheme \<Rightarrow> ('z pst_scheme, 'a) outcome" where
  "sleep k ch lk s =
     (case cur s of
        None \<Rightarrow> Panic ''sleep''
      | Some p \<Rightarrow>
          bindK (if lk \<noteq> LPtable
                 then bindK (acquire LPtable s) (\<lambda>_ s. release lk s)
                 else Ret () s) (\<lambda>_ s.
          sched k (upd_proc p (\<lambda>q. q\<lparr>p_chan := Some ch, p_state := SLEEPING\<rparr>) s)))"

definition sleep_resume :: "lockid \<Rightarrow> 'z pst_scheme \<Rightarrow> ('z pst_scheme, unit) outcome" where
  "sleep_resume lk s =
     myprocK s (\<lambda>p.
     let s = upd_proc p (p_chan_update (\<lambda>_. None)) s
     in if lk \<noteq> LPtable
        then bindK (release LPtable s) (\<lambda>_ s. acquire lk s)
        else Ret () s)"

definition wakeup1 :: "chan \<Rightarrow> 'z pst_scheme \<Rightarrow> 'z pst_scheme" where
  "wakeup1 ch s =
     for_range 0 NPROC (\<lambda>i s.
       if p_state (ptable s i) = SLEEPING \<and> p_chan (ptable s i) = Some ch
       then upd_proc i (p_state_update (\<lambda>_. RUNNABLE)) s else s) s"

definition wakeup :: "chan \<Rightarrow> 'z pst_scheme \<Rightarrow> ('z pst_scheme, unit) outcome" where
  "wakeup ch s =
     bindK (acquire LPtable s) (\<lambda>_ s.
     release LPtable (wakeup1 ch s))"

section \<open>Scheduling\<close>

definition apply_aging :: "nat \<Rightarrow> 'z pst_scheme \<Rightarrow> 'z pst_scheme" where
  "apply_aging i s =
     (let waiting_time = sint (ticks s - p_last_run (ptable s i))
      in if waiting_time > 2500
         then upd_proc i (\<lambda>p. p\<lparr>p_priority := PL1, p_last_run := ticks s\<rparr>) s
         else s)"

definition lottery_sum :: "'z pst_scheme \<Rightarrow> u32" where
  "lottery_sum s =
     for_range 0 NPROC (\<lambda>i tsum.
       if p_priority (ptable s i) = PL1 \<and> p_state (ptable s i) = RUNNABLE
       then tsum + p_tickets (ptable s i) else tsum) 0"

fun lottery_search :: "nat \<Rightarrow> nat \<Rightarrow> u32 \<Rightarrow> u32 \<Rightarrow> 'z pst_scheme \<Rightarrow> nat option" where
  "lottery_search i 0 winner tsum s = None"
| "lottery_search i (Suc k) winner tsum s =
     (if p_state (ptable s i) \<noteq> RUNNABLE then lottery_search (Suc i) k winner tsum s
      else if p_priority (ptable s i) = PL1 then
        (let tsum = tsum + p_tickets (ptable s i)
         in if sint tsum < sint winner then lottery_search (Suc i) k winner tsum s
            else Some i)
      else lottery_search (Suc i) k winner tsum s)"

definition sched_lottery :: "'z pst_scheme \<Rightarrow> ('z pst_scheme, nat option) outcome" where
  "sched_lottery s =
     (case random_at_most (lottery_sum s) (rand s) of
        Ret winner r \<Rightarrow> Ret (lottery_search 0 NPROC winner 0 s) (s\<lparr>rand := r\<rparr>)
      | Panic m \<Rightarrow> Panic m
      | Undef m \<Rightarrow> Undef m
      | Swtch k r \<Rightarrow> Diverge
      | Diverge \<Rightarrow> Diverge)"

text \<open>The test \<open>p->priority == PL2 || 1\<close> is always true.\<close>

fun rr_search :: "nat \<Rightarrow> nat \<Rightarrow> 'z pst_scheme \<Rightarrow> nat option \<times> 'z pst_scheme" where
  "rr_search i 0 s = (None, s)"
| "rr_search i (Suc k) s =
     (if p_priority (ptable s i) = PL2 \<or> True then
        (let s = apply_aging i s
         in if p_state (ptable s i) = RUNNABLE then (Some i, s) else rr_search (Suc i) k s)
      else rr_search (Suc i) k s)"

definition sched_rr :: "'z pst_scheme \<Rightarrow> ('z pst_scheme, nat option) outcome" where
  "sched_rr s = (case rr_search 0 NPROC s of (r, s) \<Rightarrow> Ret r s)"

text \<open>
  The inner loop of \<open>sched_hrrn\<close>. \<open>fdiv w n\<close> stands for the single-precision quotient
  \<open>((float)w)/n\<close>, whose rounding the C implementation defines.
\<close>

definition hrrn_victor :: "(int \<Rightarrow> int \<Rightarrow> rat) \<Rightarrow> 'z pst_scheme \<Rightarrow> rat \<times> nat option" where
  "hrrn_victor fdiv s =
     for_range 0 NPROC (\<lambda>i (max_hrrn, victor).
       if p_state (ptable s i) = RUNNABLE \<and> p_priority (ptable s i) = PL3 then
         (let waiting_time = sint (ticks s - p_arrival_time (ptable s i));
              n_execution_cycles = sint (p_clicks (ptable s i));
              hrrn = fdiv waiting_time n_execution_cycles
          in if hrrn > max_hrrn then (hrrn, Some i) else (max_hrrn, victor))
       else (max_hrrn, victor)) (- 1, None)"

fun hrrn_search :: "(int \<Rightarrow> int \<Rightarrow> rat) \<Rightarrow> nat \<Rightarrow> nat \<Rightarrow> 'z pst_scheme \<Rightarrow> nat option \<times> 'z pst_scheme" where
  "hrrn_search fdiv i 0 s = (None, s)"
| "hrrn_search fdiv i (Suc k) s =
     (if p_priority (ptable s i) = PL3 then
        (let s = apply_aging i s
         in if p_state (ptable s i) = RUNNABLE then (snd (hrrn_victor fdiv s), s)
            else hrrn_search fdiv (Suc i) k s)
      else hrrn_search fdiv (Suc i) k s)"

definition sched_hrrn :: "(int \<Rightarrow> int \<Rightarrow> rat) \<Rightarrow> 'z pst_scheme \<Rightarrow> ('z pst_scheme, nat option) outcome" where
  "sched_hrrn fdiv s = (case hrrn_search fdiv 0 NPROC s of (r, s) \<Rightarrow> Ret r s)"

text \<open>The loop over \<open>scheduler_level\<close> in \<open>scheduler\<close>.\<close>

definition scheduler_pick :: "(int \<Rightarrow> int \<Rightarrow> rat) \<Rightarrow> 'z pst_scheme \<Rightarrow> ('z pst_scheme, nat option) outcome" where
  "scheduler_pick fdiv s =
     bindK (sched_lottery s) (\<lambda>r s. if r \<noteq> None then Ret r s else
     bindK (sched_rr s) (\<lambda>r s. if r \<noteq> None then Ret r s else
     sched_hrrn fdiv s))"

definition switchuvm :: "nat \<Rightarrow> 'z pst_scheme \<Rightarrow> ('z pst_scheme, unit) outcome" where
  "switchuvm p s =
     (if p_kstack (ptable s p) = 0 then Panic ''switchuvm: no kstack''
      else if p_pgdir (ptable s p) = 0 then Panic ''switchuvm: no pgdir''
      else Ret () (s\<lparr>ts_esp0 := p_kstack (ptable s p) + KSTACKSIZE,
                     cr3 := V2P (p_pgdir (ptable s p))\<rparr>))"

definition check_alarm :: "nat \<Rightarrow> 'z pst_scheme \<Rightarrow> ('z pst_scheme, unit) outcome" where
  "check_alarm p s =
     (if ticks s \<ge> p_alarm_time (ptable s p) \<and> sint (p_alarm_time (ptable s p)) > 0
      then bindK (cprintf (''Alarm!!!'' @ newline) [] s) (\<lambda>_ s.
           Ret () (upd_proc p (p_alarm_time_update (\<lambda>_. 0)) s))
      else Ret () s)"

text \<open>\<open>run_proc\<close> up to the switch into the process, and from the switch back.\<close>

definition run_proc :: "nat \<Rightarrow> 'z pst_scheme \<Rightarrow> ('z pst_scheme, unit) outcome" where
  "run_proc p s =
     (let s = upd_proc p (\<lambda>q. q\<lparr>p_clicks := p_clicks q + 1, p_last_run := ticks s\<rparr>) s;
          s = s\<lparr>cur := Some p\<rparr>
      in bindK (switchuvm p s) (\<lambda>_ s.
         check_alarm p (upd_proc p (p_state_update (\<lambda>_. RUNNING)) s)))"

definition run_proc_back :: "'z pst_scheme \<Rightarrow> 'z pst_scheme" where
  "run_proc_back s = (switchkvm s)\<lparr>cur := None\<rparr>"

text \<open>One round of \<open>scheduler\<close>: either a process runs, with \<open>ptable.lock\<close> held, or none is found.\<close>

definition scheduler_round :: "(int \<Rightarrow> int \<Rightarrow> rat) \<Rightarrow> 'z pst_scheme \<Rightarrow> ('z pst_scheme, nat option) outcome" where
  "scheduler_round fdiv s =
     bindK (acquire LPtable s) (\<lambda>_ s.
     bindK (scheduler_pick fdiv s) (\<lambda>r s.
     case r of
       Some p \<Rightarrow> bindK (run_proc p s) (\<lambda>_ s. Ret (Some p) s)
     | None \<Rightarrow> bindK (release LPtable s) (\<lambda>_ s. Ret None s)))"

definition scheduler_back :: "'z pst_scheme \<Rightarrow> ('z pst_scheme, unit) outcome" where
  "scheduler_back s = release LPtable (run_proc_back s)"

section \<open>The log of system calls, and kill\<close>

text \<open>
  Copying the non-empty log entries of a process behind entry \<open>npair\<close> of the slot \<open>npp\<close> of
  \<open>pptable\<close>. A store behind the last entry leaves the array.
\<close>

fun log_copy :: "nat \<Rightarrow> nat \<Rightarrow> (nat \<Rightarrow> sysclog) \<Rightarrow> nat \<Rightarrow> (nat \<Rightarrow> sysclog) \<Rightarrow> ((nat \<Rightarrow> sysclog) \<times> nat) option" where
  "log_copy j 0 src npair dst = Some (dst, npair)"
| "log_copy j (Suc k) src npair dst =
     (if callno (src j) \<noteq> 0 then
        (if npair < NLOGPAIR then log_copy (Suc j) k src (npair + 1) (dst(npair := src j)) else None)
      else log_copy (Suc j) k src npair dst)"

text \<open>The block that \<open>exit\<close> and \<open>kill\<close> share: record process \<open>p\<close> in \<open>pptable\<close>.\<close>

definition log_terminated :: "nat \<Rightarrow> nat \<Rightarrow> 'z pst_scheme \<Rightarrow> ('z pst_scheme, unit) outcome" where
  "log_terminated p npair s =
     bindK (acquire LPptable s) (\<lambda>_ s.
     case find_from (\<lambda>i. p_pid (pptable s i) = 0) 0 NPROC of
       None \<Rightarrow> Undef ''pptable.proc[NPROC]''
     | Some npp \<Rightarrow>
         let s = upd_pproc npp (p_pid_update (\<lambda>_. p_pid (ptable s p))) s
         in case log_copy 0 NLOGPAIR (p_sysclog (ptable s p)) npair (p_sysclog (pptable s npp)) of
              None \<Rightarrow> Undef ''sysclog[NLOGPAIR]''
            | Some (l, _) \<Rightarrow> release LPptable (upd_pproc npp (p_sysclog_update (\<lambda>_. l)) s))"

text \<open>The first loop of \<open>kill\<close> copies into the log of \<open>initproc\<close>, which may be \<open>p\<close> itself.\<close>

fun log_to_init :: "nat \<Rightarrow> nat \<Rightarrow> nat \<Rightarrow> nat option \<Rightarrow> nat \<Rightarrow> (nat \<Rightarrow> proc) \<Rightarrow> ((nat \<Rightarrow> proc) \<times> nat) option" where
  "log_to_init j 0 p ip npair tbl = Some (tbl, npair)"
| "log_to_init j (Suc k) p ip npair tbl =
     (if callno (p_sysclog (tbl p) j) \<noteq> 0 then
        (case ip of
           None \<Rightarrow> None
         | Some q \<Rightarrow>
             log_to_init (Suc j) k p ip (npair + 1)
               (tbl(q := (tbl q)\<lparr>p_sysclog := (p_sysclog (tbl q))(npair := p_sysclog (tbl p) j)\<rparr>)))
      else log_to_init (Suc j) k p ip npair tbl)"

text \<open>\<open>p->killed = 1\<close>, and wake the process from sleep if necessary.\<close>

definition kill_mark :: "proc \<Rightarrow> proc" where
  "kill_mark q = q\<lparr>p_killed := True, p_state := (if p_state q = SLEEPING then RUNNABLE else p_state q)\<rparr>"

definition kill :: "u32 \<Rightarrow> 'z pst_scheme \<Rightarrow> ('z pst_scheme, int) outcome" where
  "kill pid s =
     bindK (acquire LPtable s) (\<lambda>_ s.
     case find_from (\<lambda>i. p_pid (ptable s i) = pid) 0 NPROC of
       None \<Rightarrow> bindK (release LPtable s) (\<lambda>_ s. Ret (- 1) s)
     | Some p \<Rightarrow>
         let s = upd_proc p kill_mark s
         in case log_to_init 0 NLOGPAIR p (initproc s) 0 (ptable s) of
              None \<Rightarrow> Undef ''null initproc''
            | Some (tbl, npair) \<Rightarrow>
                bindK (log_terminated p npair (s\<lparr>ptable := tbl\<rparr>)) (\<lambda>_ s.
                bindK (release LPtable s) (\<lambda>_ s. Ret 0 s)))"

section \<open>System calls on the scheduling parameters\<close>

definition set_alarm :: "u32 \<Rightarrow> 'z pst_scheme \<Rightarrow> ('z pst_scheme, unit) outcome" where
  "set_alarm time s =
     (if sint time \<le> 0
      then cprintf (''time should be bigger than zero, no alarm is set!'' @ newline) [] s
      else
        bindK (acquire LTicks s) (\<lambda>_ s.
        myprocK s (\<lambda>p.
        release LTicks (upd_proc p (p_alarm_time_update (\<lambda>_. ticks s + time div 10)) s))))"

definition set_tickets :: "u32 \<Rightarrow> 'z pst_scheme \<Rightarrow> ('z pst_scheme, int) outcome" where
  "set_tickets value s =
     (if sint value \<le> 0
      then bindK (cprintf ''tickets value must be positive integer.'' [] s) (\<lambda>_ s. Ret (- 1) s)
      else
        bindK (acquire LPtable s) (\<lambda>_ s.
        myprocK s (\<lambda>p.
        bindK (release LPtable (upd_proc p (p_tickets_update (\<lambda>_. value)) s)) (\<lambda>_ s. Ret 0 s))))"

definition set_queue :: "u32 \<Rightarrow> 'z pst_scheme \<Rightarrow> ('z pst_scheme, int) outcome" where
  "set_queue value s =
     (if value \<noteq> PL1 \<and> value \<noteq> PL2 \<and> value \<noteq> PL3
      then bindK (cprintf ''queue priority entered is not defined.'' [] s) (\<lambda>_ s. Ret (- 1) s)
      else
        bindK (acquire LPtable s) (\<lambda>_ s.
        myprocK s (\<lambda>p.
        bindK (release LPtable (upd_proc p (p_priority_update (\<lambda>_. value)) s)) (\<lambda>_ s. Ret 0 s))))"

definition set_edx :: "u32 \<Rightarrow> 'z pst_scheme \<Rightarrow> ('z pst_scheme, int) outcome" where
  "set_edx value s =
     bindK (acquire LPtable s) (\<lambda>_ s.
     myprocK s (\<lambda>p.
     bindK (release LPtable (upd_proc p (\<lambda>q. q\<lparr>p_tf := (p_tf q)\<lparr>tf_edx := value\<rparr>\<rparr>) s)) (\<lambda>_ s.
     Ret 25 s)))"

section \<open>Lemmas on the table\<close>

lemma upd_proc_sel [simp]:
  "ptable (upd_proc i f s) = (ptable s)(i := f (ptable s i))"
  "held (upd_proc i f s) = held s" "cur (upd_proc i f s) = cur s" "ticks (upd_proc i f s) = ticks s"
  "nextpid (upd_proc i f s) = nextpid s" "initproc (upd_proc i f s) = initproc s"
  "pptable (upd_proc i f s) = pptable s" "rand (upd_proc i f s) = rand s"
  "pages (upd_proc i f s) = pages s" "freelist (upd_proc i f s) = freelist s" "kend (upd_proc i f s) = kend s"
  by (simp_all add: upd_proc_def)

lemma upd_pproc_sel [simp]:
  "pptable (upd_pproc i f s) = (pptable s)(i := f (pptable s i))"
  "held (upd_pproc i f s) = held s" "cur (upd_pproc i f s) = cur s" "ptable (upd_pproc i f s) = ptable s"
  "ticks (upd_pproc i f s) = ticks s" "initproc (upd_pproc i f s) = initproc s"
  by (simp_all add: upd_pproc_def)

lemma kill_mark_sel [simp]:
  "p_killed (kill_mark q)" "p_pid (kill_mark q) = p_pid q" "p_chan (kill_mark q) = p_chan q"
  "p_sysclog (kill_mark q) = p_sysclog q"
  "p_state (kill_mark q) = (if p_state q = SLEEPING then RUNNABLE else p_state q)"
  by (simp_all add: kill_mark_def)

text \<open>The closed form of \<open>wakeup1\<close>: every sleeper on the channel, and nobody else, becomes runnable.\<close>

definition wake :: "chan \<Rightarrow> proc \<Rightarrow> proc" where
  "wake ch p = (if p_state p = SLEEPING \<and> p_chan p = Some ch then p\<lparr>p_state := RUNNABLE\<rparr> else p)"

definition wake_all :: "chan \<Rightarrow> (nat \<Rightarrow> proc) \<Rightarrow> (nat \<Rightarrow> proc)" where
  "wake_all ch tbl = (\<lambda>i. if i < NPROC then wake ch (tbl i) else tbl i)"

lemma wakeup1_table: "wakeup1 ch s = s\<lparr>ptable := wake_all ch (ptable s)\<rparr>"
proof -
  let ?body = "\<lambda>i s. if p_state (ptable s i) = SLEEPING \<and> p_chan (ptable s i) = Some ch
       then upd_proc i (p_state_update (\<lambda>_. RUNNABLE)) s else s"
  let ?P = "\<lambda>n t. t = s\<lparr>ptable := (\<lambda>i. if i < n then wake ch (ptable s i) else ptable s i)\<rparr>"
  have "?P (0 + NPROC) (for_range 0 NPROC ?body s)"
  proof (rule for_range_inv [of ?P])
    fix n t
    assume "?P n t"
    then have "?body n t = s\<lparr>ptable := (\<lambda>i. if i < n then wake ch (ptable s i) else ptable s i)
        (n := wake ch (ptable s n))\<rparr>"
      by (auto simp: wake_def upd_proc_def fun_eq_iff)
    moreover have "(\<lambda>i. if i < n then wake ch (ptable s i) else ptable s i)(n := wake ch (ptable s n))
        = (\<lambda>i. if i < Suc n then wake ch (ptable s i) else ptable s i)"
      by (auto simp: fun_eq_iff less_Suc_eq)
    ultimately show "?P (Suc n) (?body n t)" by (simp only:)
  qed simp
  then show ?thesis by (simp add: wakeup1_def wake_all_def)
qed

lemma wakeup_eq: "LPtable \<notin> held s \<Longrightarrow> wakeup ch s = Ret () (s\<lparr>ptable := wake_all ch (ptable s)\<rparr>)"
  by (simp add: wakeup_def wakeup1_table)

end
