(* ===== verification/Xv6_Sched.thy ===== *)
theory Xv6_Sched
  imports Xv6_Proc
begin

text \<open>
  Correctness of scheduling, sleep and wakeup, and \<open>kill\<close> (src/proc.c), over the definitions of
  \<open>Xv6_Proc\<close>.
\<close>

section \<open>The three levels\<close>

definition p_states :: "'z pst_scheme \<Rightarrow> nat \<Rightarrow> procstate" where
  "p_states s i = p_state (ptable s i)"

lemma apply_aging_states [simp]: "p_states (apply_aging i s) = p_states s"
  by (auto simp: apply_aging_def p_states_def Let_def fun_eq_iff)

lemma apply_aging_state [simp]: "p_state (ptable (apply_aging i s) j) = p_state (ptable s j)"
  using fun_cong [OF apply_aging_states, of i s j] unfolding p_states_def .

lemma lottery_search_Some:
  "lottery_search i k w acc s = Some p \<Longrightarrow>
   i \<le> p \<and> p < i + k \<and> p_state (ptable s p) = RUNNABLE \<and> p_priority (ptable s p) = PL1"
proof (induction i k w acc s rule: lottery_search.induct)
  case (2 i k w acc s)
  then show ?case by (auto simp: Let_def split: if_splits)
qed simp

lemma rr_search_result:
  "rr_search i k s = (r, t) \<Longrightarrow> p_states t = p_states s \<and>
   (case r of Some p \<Rightarrow> i \<le> p \<and> p < i + k \<and> p_states s p = RUNNABLE
    | None \<Rightarrow> (\<forall>j. i \<le> j \<and> j < i + k \<longrightarrow> p_states s j \<noteq> RUNNABLE))"
proof (induction k arbitrary: i s)
  case (Suc k)
  show ?case
  proof (cases "p_states s i = RUNNABLE")
    case True
    with Suc.prems show ?thesis by (auto simp: Let_def p_states_def [symmetric])
  next
    case False
    then have "rr_search (Suc i) k (apply_aging i s) = (r, t)"
      using Suc.prems by (auto simp: Let_def p_states_def)
    from Suc.IH [OF this] show ?thesis
      using False range_Suc_iff [of i "i + Suc k" "\<lambda>j. p_states s j \<noteq> RUNNABLE"]
      by (auto split: option.splits)
  qed
qed auto

lemma hrrn_search_states: "p_states (snd (hrrn_search fdiv i k s)) = p_states s"
  by (induction fdiv i k s rule: hrrn_search.induct) (auto simp: Let_def)

lemma hrrn_search_idle:
  "(\<forall>j. i \<le> j \<and> j < i + k \<longrightarrow> p_states s j \<noteq> RUNNABLE) \<Longrightarrow>
   fst (hrrn_search f i k s) = None \<and> hrrn_search f i k s = hrrn_search g i k s"
proof (induction k arbitrary: i s)
  case (Suc k)
  have i: "p_state (ptable s i) \<noteq> RUNNABLE" using Suc.prems by (auto simp: p_states_def)
  have "\<forall>j. Suc i \<le> j \<and> j < Suc i + k \<longrightarrow> p_states (apply_aging i s) j \<noteq> RUNNABLE"
    "\<forall>j. Suc i \<le> j \<and> j < Suc i + k \<longrightarrow> p_states s j \<noteq> RUNNABLE"
    using Suc.prems by auto
  from Suc.IH [OF this(1)] Suc.IH [OF this(2)] i show ?case by (auto simp: Let_def)
qed simp

lemma sched_lottery_on_ret:
  "on_ret (sched_lottery s) (\<lambda>r t. t = s\<lparr>rand := rand t\<rparr>
     \<and> (\<forall>p. r = Some p \<longrightarrow> p < NPROC \<and> p_states s p = RUNNABLE))"
  by (auto simp: sched_lottery_def p_states_def dest: lottery_search_Some split: outcome.splits)

lemma p_states_rand [simp]: "p_states (s\<lparr>rand := r\<rparr>) = p_states s"
  by (simp add: p_states_def fun_eq_iff)

section \<open>Properties of the scheduler\<close>

lemma scheduler_pick_result:
  "on_ret (scheduler_pick fdiv s) (\<lambda>r t. p_states t = p_states s \<and>
     (case r of Some p \<Rightarrow> p < NPROC \<and> p_states s p = RUNNABLE
      | None \<Rightarrow> {i. i < NPROC \<and> p_states s i = RUNNABLE} = {}))"
proof -
  let ?Q = "\<lambda>r t. p_states t = p_states s \<and>
     (case r of Some p \<Rightarrow> p < NPROC \<and> p_states s p = RUNNABLE
      | None \<Rightarrow> {i. i < NPROC \<and> p_states s i = RUNNABLE} = {})"
  have rr: "on_ret (bindK (sched_rr u) (\<lambda>r t. if r \<noteq> None then Ret r t else sched_hrrn fdiv t)) ?Q"
    if u: "p_states u = p_states s" for u
  proof -
    obtain r t where rt: "rr_search 0 NPROC u = (r, t)" by fastforce
    from rr_search_result [OF this] u
    have t: "p_states t = p_states s" "case r of Some p \<Rightarrow> p < NPROC \<and> p_states s p = RUNNABLE
        | None \<Rightarrow> (\<forall>j. j < NPROC \<longrightarrow> p_states s j \<noteq> RUNNABLE)"
      by (auto split: option.splits)
    show ?thesis
    proof (cases r)
      case None
      with t have idle: "\<forall>j. 0 \<le> j \<and> j < 0 + NPROC \<longrightarrow> p_states t j \<noteq> RUNNABLE" by simp
      have "fst (hrrn_search fdiv 0 NPROC t) = None" using hrrn_search_idle [OF idle] by blast
      moreover have "p_states (snd (hrrn_search fdiv 0 NPROC t)) = p_states s"
        using t(1) hrrn_search_states by metis
      ultimately show ?thesis
        using None rt t by (auto simp: sched_rr_def sched_hrrn_def split: prod.splits)
    qed (use rt t in \<open>auto simp: sched_rr_def\<close>)
  qed
  have "on_ret (sched_lottery s) (\<lambda>r u. on_ret (if r \<noteq> None then Ret r u
      else bindK (sched_rr u) (\<lambda>r t. if r \<noteq> None then Ret r t else sched_hrrn fdiv t)) ?Q)"
  proof (rule on_ret_mono [OF sched_lottery_on_ret])
    fix r u
    assume ru: "u = s\<lparr>rand := rand u\<rparr> \<and> (\<forall>p. r = Some p \<longrightarrow> p < NPROC \<and> p_states s p = RUNNABLE)"
    then have "p_states u = p_states s" by (metis p_states_rand)
    with ru rr show "on_ret (if r \<noteq> None then Ret r u
      else bindK (sched_rr u) (\<lambda>r t. if r \<noteq> None then Ret r t else sched_hrrn fdiv t)) ?Q"
      by (cases r) (simp_all del: on_ret_bindK)
  qed
  then show ?thesis unfolding scheduler_pick_def on_ret_bindK by simp
qed


text \<open>C11. The third level never decides: whatever quotients the response ratios give, the
  scheduler chooses the same process and leaves the same state. (The second level takes every
  runnable process, because its test is \<open>p->priority == PL2 || 1\<close>.)\<close>

theorem hrrn_level_is_dead:
  fixes s :: "'z pst_scheme"
  shows "scheduler_pick f s = scheduler_pick g s"
proof -
  have "sched_hrrn f t = sched_hrrn g t" if "rr_search 0 NPROC u = (None, t)" for u t :: "'z pst_scheme"
  proof -
    have "\<forall>j. 0 \<le> j \<and> j < 0 + NPROC \<longrightarrow> p_states t j \<noteq> RUNNABLE"
      using rr_search_result [OF that] by simp
    then show ?thesis using hrrn_search_idle by (metis sched_hrrn_def)
  qed
  then have "bindK (sched_rr u) (\<lambda>r t. if r \<noteq> None then Ret r t else sched_hrrn f t)
      = bindK (sched_rr u) (\<lambda>r t. if r \<noteq> None then Ret r t else sched_hrrn g t)" for u :: "'z pst_scheme"
    by (cases "rr_search 0 NPROC u") (auto simp: sched_rr_def)
  then show ?thesis by (simp only: scheduler_pick_def)
qed

text \<open>The tickets of the runnable processes of the first level, among the first \<open>n\<close> slots.\<close>

definition contender :: "'z pst_scheme \<Rightarrow> nat \<Rightarrow> bool" where
  "contender s i \<longleftrightarrow> p_priority (ptable s i) = PL1 \<and> p_state (ptable s i) = RUNNABLE"

definition tickets_upto :: "'z pst_scheme \<Rightarrow> nat \<Rightarrow> nat" where
  "tickets_upto s n = (\<Sum>i < n. if contender s i then unat (p_tickets (ptable s i)) else 0)"

lemma tickets_upto_Suc [simp]:
  "tickets_upto s (Suc n) = tickets_upto s n + (if contender s n then unat (p_tickets (ptable s n)) else 0)"
  by (simp add: tickets_upto_def)

lemma tickets_upto_0 [simp]: "tickets_upto s 0 = 0"
  by (simp add: tickets_upto_def)

lemma tickets_upto_mono: "m \<le> n \<Longrightarrow> tickets_upto s m \<le> tickets_upto s n"
  unfolding tickets_upto_def by (rule sum_mono2) auto

lemma lottery_sum_nat:
  assumes "tickets_upto s NPROC < 2 ^ 31"
  shows "unat (lottery_sum s) = tickets_upto s NPROC"
proof -
  let ?body = "\<lambda>i acc. if p_priority (ptable s i) = PL1 \<and> p_state (ptable s i) = RUNNABLE
       then acc + p_tickets (ptable s i) else acc"
  have "0 + NPROC \<le> NPROC \<longrightarrow> unat (for_range 0 NPROC ?body 0) = tickets_upto s (0 + NPROC)"
  proof (rule for_range_inv [of "\<lambda>n acc. n \<le> NPROC \<longrightarrow> unat acc = tickets_upto s n"])
    fix i :: nat and acc :: u32
    assume IH: "i \<le> NPROC \<longrightarrow> unat acc = tickets_upto s i"
    show "Suc i \<le> NPROC \<longrightarrow> unat (?body i acc) = tickets_upto s (Suc i)"
    proof
      assume "Suc i \<le> NPROC"
      with assms tickets_upto_mono [of "Suc i" NPROC s] have "tickets_upto s (Suc i) < 2 ^ 32" by simp
      with IH \<open>Suc i \<le> NPROC\<close> show "unat (?body i acc) = tickets_upto s (Suc i)"
        by (auto simp: contender_def unat_word_ariths split: if_splits)
    qed
  qed (simp add: tickets_upto_def)
  then show ?thesis by (simp add: lottery_sum_def)
qed


lemma lottery_search_winner:
  "\<lbrakk>unat acc = tickets_upto s i; unat w \<le> tickets_upto s (i + k); tickets_upto s (i + k) < 2 ^ 31;
    tickets_upto s i < unat w \<or> (\<exists>j. i \<le> j \<and> j < i + k \<and> contender s j)\<rbrakk> \<Longrightarrow>
   \<exists>p. lottery_search i k w acc s = Some p \<and> i \<le> p \<and> p < i + k \<and> contender s p
     \<and> unat w \<le> tickets_upto s (Suc p)
     \<and> (\<forall>q. i \<le> q \<and> q < p \<and> contender s q \<longrightarrow> tickets_upto s (Suc q) < unat w)"
proof (induction k arbitrary: i acc)
  case 0
  then show ?case by auto
next
  case (Suc k)
  note mono = tickets_upto_mono [of "Suc i" "i + Suc k" s]
  show ?case
  proof (cases "contender s i")
    case False
    then have skip: "lottery_search i (Suc k) w acc s = lottery_search (Suc i) k w acc s"
      by (auto simp: contender_def)
    have later: "tickets_upto s (Suc i) < unat w \<or> (\<exists>j. Suc i \<le> j \<and> j < Suc i + k \<and> contender s j)"
      using Suc.prems(4) False by (auto intro: Suc_leI dest: le_neq_implies_less)
    have "\<exists>p. lottery_search (Suc i) k w acc s = Some p \<and> Suc i \<le> p \<and> p < Suc i + k \<and> contender s p
       \<and> unat w \<le> tickets_upto s (Suc p)
       \<and> (\<forall>q. Suc i \<le> q \<and> q < p \<and> contender s q \<longrightarrow> tickets_upto s (Suc q) < unat w)"
      using Suc.prems False by (intro Suc.IH [OF _ _ _ later]) auto
    with False show ?thesis unfolding skip
      by (metis Suc_leD Suc_leI add_Suc add_Suc_right le_eq_less_or_eq)
  next
    case True
    let ?acc = "acc + p_tickets (ptable s i)"
    have acc: "unat ?acc = tickets_upto s (Suc i)"
      using Suc.prems(1,3) True mono by (simp add: unat_word_ariths)
    moreover have "sint ?acc < sint w \<longleftrightarrow> tickets_upto s (Suc i) < unat w"
    proof -
      have "tickets_upto s (Suc i) < 2 ^ 31" using mono Suc.prems(3) by linarith
      then have "sint ?acc = int (tickets_upto s (Suc i))" using sint_small [of ?acc] acc by metis
      moreover have "sint w = int (unat w)" using Suc.prems(2,3) by (intro sint_small) linarith
      ultimately show ?thesis by (simp only: of_nat_less_iff)
    qed
    ultimately have step: "lottery_search i (Suc k) w acc s =
        (if tickets_upto s (Suc i) < unat w then lottery_search (Suc i) k w ?acc s else Some i)"
      using True by (auto simp: contender_def Let_def)
    show ?thesis
    proof (cases "tickets_upto s (Suc i) < unat w")
      case less: True
      have "\<exists>p. lottery_search (Suc i) k w ?acc s = Some p \<and> Suc i \<le> p \<and> p < Suc i + k \<and> contender s p
         \<and> unat w \<le> tickets_upto s (Suc p)
         \<and> (\<forall>q. Suc i \<le> q \<and> q < p \<and> contender s q \<longrightarrow> tickets_upto s (Suc q) < unat w)"
        using Suc.prems less by (intro Suc.IH [OF acc]) auto
      with less show ?thesis unfolding step
        by (metis Suc_leD Suc_leI add_Suc add_Suc_right le_eq_less_or_eq)
    next
      case False
      with True show ?thesis unfolding step by (intro exI [of _ i]) auto
    qed
  qed
qed


section \<open>Example states\<close>

definition no_proc :: proc where
  "no_proc = \<lparr>p_sz = 0, p_pgdir = 0, p_kstack = 0, p_state = UNUSED, p_pid = 0, p_parent = None,
     p_tf = zero_tf, p_context = zero_context, p_chan = None, p_killed = False, p_ofile = (\<lambda>_. None),
     p_cwd = None, p_name = (\<lambda>_. 0), p_alarm_time = 0,
     p_sysclog = (\<lambda>_. \<lparr>callno = 0, retval = 0\<rparr>), p_priority = 0, p_clicks = 0, p_last_run = 0,
     p_arrival_time = 0, p_tickets = 0\<rparr>"

definition boot_pst :: pst where
  "boot_pst = \<lparr>held = {}, cons_locking = False, panicked = False, uart = False, uart_out = [],
     crt = (\<lambda>_. 0), crt_pos = 0, pages = pages two_free, kend = 0x80400000,
     kmem_use_lock = True, freelist = 0x80401000, kdata = 0x80108000, kpgdir = 0, cr3 = 0,
     ptable = (\<lambda>_. no_proc), pptable = (\<lambda>_. no_proc), initproc = None, nextpid = 1, ticks = 0,
     cur = None, rand = demo_rng, ts_esp0 = 0, sym_forkret = 0x80103a00, sym_trapret = 0x80105c00\<rparr>"

text \<open>One runnable process of the first level with ten tickets.\<close>

definition lottery_pst :: pst where
  "lottery_pst = boot_pst\<lparr>ptable := (\<lambda>_. no_proc)(3 := no_proc\<lparr>p_state := RUNNABLE, p_pid := 7,
     p_priority := PL1, p_tickets := 10\<rparr>)\<rparr>"

lemma lottery_pst_contender: "contender lottery_pst i \<longleftrightarrow> i = 3"
  by (simp add: contender_def lottery_pst_def no_proc_def boot_pst_def)

lemma lottery_pst_tickets: "tickets_upto lottery_pst NPROC = 10"
proof -
  have "tickets_upto lottery_pst NPROC = (\<Sum>i < NPROC. if i = 3 then 10 else 0)"
    unfolding tickets_upto_def lottery_pst_contender
    by (rule sum.cong) (auto simp: lottery_pst_def)
  then show ?thesis by (simp add: NPROC_def)
qed


section \<open>Allocation of processes\<close>

text \<open>C14. \<open>allocproc\<close>, when a slot is free and a page is available, returns the first free slot:
  it has a new process id, a kernel stack of its own, the initial scheduling parameters and a
  context that starts at \<open>forkret\<close>; the other processes are untouched and all locks are released.\<close>

theorem allocproc_initialises:
  assumes "LPtable \<notin> held s" "LKmem \<notin> held s" "kmem_ok s (k # xs)"
    and "find_from (\<lambda>j. p_state (ptable s j) = UNUSED) 0 NPROC = Some i"
  shows "returns (allocproc s) (\<lambda>r t. r = Some i \<and> p_state (ptable t i) = EMBRYO
    \<and> p_pid (ptable t i) = nextpid s \<and> nextpid t = nextpid s + 1 \<and> p_kstack (ptable t i) = k
    \<and> p_priority (ptable t i) = PL3 \<and> p_clicks (ptable t i) = 1 \<and> p_tickets (ptable t i) = 10
    \<and> p_arrival_time (ptable t i) = ticks s \<and> p_last_run (ptable t i) = ticks s
    \<and> ctx_eip (p_context (ptable t i)) = sym_forkret s
    \<and> (\<forall>j. j \<noteq> i \<longrightarrow> ptable t j = ptable s j) \<and> held t = held s)"
proof -
  have k: "k \<noteq> 0" using assms(3) page_ok_unat(4) [of "kend s" k] by (auto simp: kmem_ok_def)
  let ?s = "allocproc_init i s"
  have "held ?s = held s" "freelist ?s = freelist s" "kmem_ok ?s (k # xs)"
    using assms(3) by (simp_all add: allocproc_init_def kmem_ok_def)
  then have "kalloc ?s = Ret k (?s\<lparr>freelist := rd32 k ?s\<rparr>)"
    using assms(2) by (simp add: kalloc_some)
  moreover have "release LPtable (allocproc_init i (s\<lparr>held := insert LPtable (held s)\<rparr>)) = Ret () ?s"
    using assms(1) by (simp add: allocproc_init_def upd_proc_def)
  ultimately show ?thesis
    using assms(1,4) k
    by (simp add: allocproc_def Let_def wr32_def) (simp add: allocproc_init_def upd_proc_def)
qed

lemma kmem_ok_boot_pst: "kmem_ok boot_pst [0x80401000, 0x80400000]"
  using kmem_ok_two_free by (simp add: kmem_ok_def boot_pst_def two_free_def boot_kst_def)

theorem allocproc_initialises_witness:
  "returns (allocproc boot_pst) (\<lambda>r t. r = Some 0 \<and> p_state (ptable t 0) = EMBRYO
    \<and> p_pid (ptable t 0) = 1 \<and> p_kstack (ptable t 0) = 0x80401000)"
  by (rule returns_mono [OF allocproc_initialises [OF _ _ kmem_ok_boot_pst, where i = 0]])
    (simp_all add: boot_pst_def no_proc_def NPROC_def)



section \<open>The log of terminated processes\<close>

text \<open>The entries of a log that record a call, in order.\<close>

definition logged :: "(nat \<Rightarrow> sysclog) \<Rightarrow> nat \<Rightarrow> nat \<Rightarrow> sysclog list" where
  "logged l j k = filter (\<lambda>e. callno e \<noteq> 0) (map l [j ..< j + k])"

lemma logged_0 [simp]: "logged l j 0 = []"
  by (simp add: logged_def)

lemma logged_Suc [simp]:
  "logged l j (Suc k) = (if callno (l j) \<noteq> 0 then [l j] else []) @ logged l (Suc j) k"
  using upt_conv_Cons [of j "j + Suc k"] by (simp add: logged_def del: upt_Suc)

lemma length_logged: "length (logged l j k) \<le> k"
  unfolding logged_def by (rule order_trans [OF length_filter_le]) simp

lemma log_copy_result:
  "npair + length (logged src j k) \<le> NLOGPAIR \<Longrightarrow>
   log_copy j k src npair dst = Some (overlay npair (logged src j k) dst, npair + length (logged src j k))"
proof (induction k arbitrary: j npair dst)
  case (Suc k)
  then show ?case
    using Suc.IH [of "npair + 1" "Suc j" "dst(npair := src j)"]
    by (cases "callno (src j) \<noteq> 0") (simp_all add: overlay_Cons del: fun_upd_apply)
qed simp

lemma log_copy_all:
  "log_copy 0 NLOGPAIR src 0 dst =
     Some (overlay 0 (logged src 0 NLOGPAIR) dst, length (logged src 0 NLOGPAIR))"
  using log_copy_result [of 0 src 0 NLOGPAIR dst] length_logged [of src 0 NLOGPAIR] by simp

text \<open>C16. What \<open>exit\<close> records of a process: the first free slot of \<open>pptable\<close> gets its process id and,
  without gaps and in order, the calls that the process made; \<open>ptable\<close> and the locks are as before.\<close>

theorem log_terminated_records:
  assumes "LPptable \<notin> held s" "find_from (\<lambda>i. p_pid (pptable s i) = 0) 0 NPROC = Some npp"
  shows "returns (log_terminated p 0 s) (\<lambda>_ t. p_pid (pptable t npp) = p_pid (ptable s p)
    \<and> (\<forall>i < length (logged (p_sysclog (ptable s p)) 0 NLOGPAIR).
         p_sysclog (pptable t npp) i = logged (p_sysclog (ptable s p)) 0 NLOGPAIR ! i)
    \<and> (\<forall>j. j \<noteq> npp \<longrightarrow> pptable t j = pptable s j) \<and> ptable t = ptable s \<and> held t = held s)"
  using assms by (simp add: log_terminated_def log_copy_all Let_def overlay_at)

definition logged_pst :: pst where
  "logged_pst = boot_pst\<lparr>initproc := Some 0, ptable := (\<lambda>_. no_proc)
     (1 := no_proc\<lparr>p_state := RUNNABLE, p_pid := 5,
        p_sysclog := (\<lambda>_. \<lparr>callno = 0, retval = 0\<rparr>)(0 := \<lparr>callno = 11, retval = 5\<rparr>)\<rparr>)\<rparr>"

lemma logged_one: "logged ((\<lambda>_. \<lparr>callno = 0, retval = 0\<rparr>)(0 := e)) 0 NLOGPAIR = [e]"
  if "callno e \<noteq> 0"
proof -
  let ?l = "(\<lambda>_. \<lparr>callno = 0, retval = 0\<rparr>)(0 := e)"
  have "logged ?l (Suc 0) 1023 = []" by (auto simp: logged_def filter_empty_conv)
  then have "logged ?l 0 (Suc 1023) = [e]" unfolding logged_Suc using that by simp
  moreover have "NLOGPAIR = Suc 1023" by (simp add: NLOGPAIR_def)
  ultimately show ?thesis by (simp only:)
qed

lemma logged_pst_log: "logged (p_sysclog (ptable logged_pst 1)) 0 NLOGPAIR = [\<lparr>callno = 11, retval = 5\<rparr>]"
  using logged_one [of "\<lparr>callno = 11, retval = 5\<rparr>"] by (simp add: logged_pst_def no_proc_def)

lemma logged_pst_sel:
  "held logged_pst = {}" "p_pid (pptable logged_pst i) = 0" "p_pid (ptable logged_pst (Suc 0)) = 5"
  "initproc logged_pst = Some 0"
  by (simp_all add: logged_pst_def boot_pst_def no_proc_def)

theorem log_terminated_records_witness:
  "returns (log_terminated 1 0 logged_pst) (\<lambda>_ t. p_pid (pptable t 0) = 5
    \<and> callno (p_sysclog (pptable t 0) 0) = 11)"
  by (rule returns_mono [OF log_terminated_records [where npp = 0]])
    (auto simp: logged_pst_log [simplified] logged_pst_sel NPROC_def)

lemma log_copy_overflow:
  "NLOGPAIR < npair + length (logged src j k) \<Longrightarrow> log_copy j k src npair dst = None"
  if "npair \<le> NLOGPAIR"
  using that by (induction k arbitrary: j npair dst) auto

lemma log_terminated_overflow:
  assumes "LPptable \<notin> held s" "find_from (\<lambda>i. p_pid (pptable s i) = 0) 0 NPROC = Some npp"
    and "npair \<le> NLOGPAIR" "NLOGPAIR < npair + length (logged (p_sysclog (ptable s p)) 0 NLOGPAIR)"
  shows "log_terminated p npair s = Undef ''sysclog[NLOGPAIR]''"
  using assms by (simp add: log_terminated_def log_copy_overflow Let_def)

text \<open>After 64 recorded terminations the next one stores behind the end of \<open>pptable\<close>.\<close>

lemma log_terminated_full:
  assumes "LPptable \<notin> held s" "\<forall>i < NPROC. p_pid (pptable s i) \<noteq> 0"
  shows "log_terminated p npair s = Undef ''pptable.proc[NPROC]''"
proof -
  have "find_from (\<lambda>i. p_pid (pptable s i) = 0) 0 NPROC = None"
    using assms(2) by (auto simp: find_from_None)
  with assms(1) show ?thesis by (simp add: log_terminated_def)
qed

section \<open>kill\<close>

lemma log_to_init_result:
  "p \<noteq> q \<Longrightarrow> log_to_init j k p (Some q) npair tbl =
   Some (tbl(q := (tbl q)\<lparr>p_sysclog := overlay npair (logged (p_sysclog (tbl p)) j k) (p_sysclog (tbl q))\<rparr>),
     npair + length (logged (p_sysclog (tbl p)) j k))"
proof (induction k arbitrary: j npair tbl)
  case (Suc k)
  show ?case
  proof (cases "callno (p_sysclog (tbl p) j) \<noteq> 0")
    case True
    let ?t = "tbl(q := (tbl q)\<lparr>p_sysclog := (p_sysclog (tbl q))(npair := p_sysclog (tbl p) j)\<rparr>)"
    have "log_to_init (Suc j) k p (Some q) (npair + 1) ?t =
      Some (?t(q := (?t q)\<lparr>p_sysclog := overlay (npair + 1) (logged (p_sysclog (?t p)) (Suc j) k) (p_sysclog (?t q))\<rparr>),
       npair + 1 + length (logged (p_sysclog (?t p)) (Suc j) k))"
      by (rule Suc.IH [OF Suc.prems])
    with True Suc.prems show ?thesis by (simp add: overlay_Cons del: fun_upd_apply) (simp add: fun_upd_def)
  qed (use Suc in \<open>simp del: fun_upd_apply\<close>)
qed simp

lemma kill_result:
  assumes "LPtable \<notin> held s" "LPptable \<notin> held s" "initproc s = Some q" "p \<noteq> q"
    and "find_from (\<lambda>i. p_pid (ptable s i) = pid) 0 NPROC = Some p"
    and "find_from (\<lambda>i. p_pid (pptable s i) = 0) 0 NPROC = Some npp"
    and "ls = logged (p_sysclog (ptable s p)) 0 NLOGPAIR" "2 * length ls \<le> NLOGPAIR"
  shows "returns (kill pid s) (\<lambda>r t. r = 0 \<and> held t = held s \<and> cur t = cur s
    \<and> ptable t = (ptable s)(p := kill_mark (ptable s p),
        q := (ptable s q)\<lparr>p_sysclog := overlay 0 ls (p_sysclog (ptable s q))\<rparr>)
    \<and> pptable t = (pptable s)(npp := (pptable s npp)\<lparr>p_pid := p_pid (ptable s p),
          p_sysclog := overlay (length ls) ls (p_sysclog (pptable s npp))\<rparr>))"
proof -
  have "log_copy 0 NLOGPAIR (p_sysclog (ptable s p)) (length ls) d
      = Some (overlay (length ls) ls d, length ls + length ls)" for d
    using assms(7,8) log_copy_result [of "length ls" "p_sysclog (ptable s p)" 0 NLOGPAIR d] by simp
  then show ?thesis
    using assms
    by (simp add: kill_def log_terminated_def log_to_init_result Let_def)
qed

lemma log_to_init_frame:
  "log_to_init j k p ip npair tbl = Some (tbl', n) \<Longrightarrow> tbl' i = (tbl i)\<lparr>p_sysclog := p_sysclog (tbl' i)\<rparr>"
proof (induction j k p ip npair tbl rule: log_to_init.induct)
  case (2 j k p ip npair tbl)
  show ?case
  proof (cases "callno (p_sysclog (tbl p) j) \<noteq> 0")
    case True
    with 2 obtain q where "ip = Some q" by (auto split: option.splits)
    with True 2 have "tbl' i = ((tbl(q := (tbl q)\<lparr>p_sysclog := (p_sysclog (tbl q))(npair := p_sysclog (tbl p) j)\<rparr>)) i)
        \<lparr>p_sysclog := p_sysclog (tbl' i)\<rparr>" by (simp del: fun_upd_apply)
    then show ?thesis by (cases "i = q") simp_all
  next
    case False
    with 2 show ?thesis by simp
  qed
qed simp

lemma log_to_init_sel:
  "log_to_init j k p ip npair tbl = Some (tbl', n) \<Longrightarrow>
   p_state (tbl' i) = p_state (tbl i) \<and> p_killed (tbl' i) = p_killed (tbl i)
   \<and> p_pid (tbl' i) = p_pid (tbl i) \<and> p_chan (tbl' i) = p_chan (tbl i)"
proof -
  assume "log_to_init j k p ip npair tbl = Some (tbl', n)"
  note f = log_to_init_frame [OF this, of i]
  show ?thesis
    using arg_cong [OF f, of p_state] arg_cong [OF f, of p_killed] arg_cong [OF f, of p_pid]
      arg_cong [OF f, of p_chan] by simp
qed

lemma log_terminated_frame:
  "on_ret (log_terminated p npair s) (\<lambda>_ t. ptable t = ptable s \<and> held t = held s \<and> cur t = cur s
     \<and> nextpid t = nextpid s)"
  by (auto simp: log_terminated_def acquire_def Let_def upd_pproc_def split: option.splits)

text \<open>What \<open>kill\<close> does to the process table when it finds the process \<open>p\<close>.\<close>

definition marked :: "'z pst_scheme \<Rightarrow> nat \<Rightarrow> 'z pst_scheme \<Rightarrow> bool" where
  "marked s p t \<longleftrightarrow> p_killed (ptable t p)
     \<and> p_states t p = (if p_states s p = SLEEPING then RUNNABLE else p_states s p)
     \<and> {i. p_states t i \<noteq> p_states s i} \<subseteq> {p}"

definition same_pids :: "'z pst_scheme \<Rightarrow> 'z pst_scheme \<Rightarrow> bool" where
  "same_pids s t \<longleftrightarrow> held t = held s \<and> cur t = cur s \<and> nextpid t = nextpid s
     \<and> (\<forall>i. p_pid (ptable t i) = p_pid (ptable s i) \<and> p_chan (ptable t i) = p_chan (ptable s i))"

lemma kill_found:
  fixes s :: "'z pst_scheme"
  assumes "LPtable \<notin> held s"
    and eq: "log_to_init 0 NLOGPAIR p ip 0 ((ptable s)(p := kill_mark (ptable s p))) = Some (tbl, n)"
  shows "on_ret (log_terminated p n (s\<lparr>held := insert LPtable (held s), ptable := tbl\<rparr>))
    (\<lambda>_ u. on_ret (release LPtable u) (\<lambda>_ t. same_pids s t \<and> marked s p t))"
proof (rule on_ret_mono [OF log_terminated_frame])
  fix u :: "'z pst_scheme"
  let ?v = "s\<lparr>held := insert LPtable (held s), ptable := tbl\<rparr>"
  assume "ptable u = ptable ?v \<and> held u = held ?v \<and> cur u = cur ?v \<and> nextpid u = nextpid ?v"
  with assms(1) log_to_init_sel [OF eq]
  show "on_ret (release LPtable u) (\<lambda>_ t. same_pids s t \<and> marked s p t)"
    by (auto simp: same_pids_def marked_def p_states_def split: if_splits)
qed

lemma kill_effect:
  fixes s :: "'z pst_scheme"
  shows "on_ret (kill pid s) (\<lambda>r t. same_pids s t \<and>
     (if r = 0 then \<exists>p < NPROC. p_pid (ptable s p) = pid \<and> marked s p t
      else r = - 1 \<and> t = s \<and> {i. i < NPROC \<and> p_pid (ptable s i) = pid} = {}))"
proof (cases "LPtable \<in> held s")
  case True
  then show ?thesis by (simp add: kill_def acquire_def)
next
  case free: False
  show ?thesis
  proof (cases "find_from (\<lambda>i. p_pid (ptable s i) = pid) 0 NPROC")
    case None
    then have "{i. i < NPROC \<and> p_pid (ptable s i) = pid} = {}" by (auto simp: find_from_None)
    with None free show ?thesis by (simp add: kill_def same_pids_def)
  next
    case (Some p)
    then have p: "p < NPROC" "p_pid (ptable s p) = pid" by (auto simp: find_from_Some)
    show ?thesis
    proof (cases "log_to_init 0 NLOGPAIR p (initproc s) 0 ((ptable s)(p := kill_mark (ptable s p)))")
      case None
      with Some free show ?thesis by (simp add: kill_def Let_def upd_proc_def)
    next
      case (Some tn)
      then obtain tbl n where eq:
        "log_to_init 0 NLOGPAIR p (initproc s) 0 ((ptable s)(p := kill_mark (ptable s p))) = Some (tbl, n)"
        by (cases tn) simp
      from kill_found [OF free eq] show ?thesis
        using \<open>find_from _ _ _ = Some p\<close> p free eq
        by (auto simp: kill_def Let_def upd_proc_def elim!: on_ret_mono)
    qed
  qed
qed


text \<open>C18. A killed process hides its calls: \<open>kill\<close> does not reset the index between copying the log
  to the first process and to \<open>pptable\<close>, so the entries of the terminated process start behind a
  gap. The listing of \<open>print_syscalls\<close>, which stops at the first empty entry, shows none of them.\<close>

theorem kill_hides_log:
  assumes "LPtable \<notin> held s" "LPptable \<notin> held s" "initproc s = Some q" "p \<noteq> q"
    and "find_from (\<lambda>i. p_pid (ptable s i) = pid) 0 NPROC = Some p"
    and "find_from (\<lambda>i. p_pid (pptable s i) = 0) 0 NPROC = Some npp"
    and "callno (p_sysclog (pptable s npp) 0) = 0"
    and "logged (p_sysclog (ptable s p)) 0 NLOGPAIR = e # es" "2 * length (e # es) \<le> NLOGPAIR"
  shows "returns (kill pid s) (\<lambda>r t. r = 0 \<and> p_pid (pptable t npp) = pid
    \<and> callno (p_sysclog (pptable t npp) 0) = 0
    \<and> p_sysclog (pptable t npp) (length (e # es)) = e)"
proof -
  have "p_pid (ptable s p) = pid" using assms(5) by (simp add: find_from_Some)
  with assms(7) show ?thesis
    by (intro returns_mono [OF kill_result [OF assms(1-6) assms(8) [symmetric] assms(9)]])
      (auto simp: overlay_below overlay_at)
qed

lemma NLOGPAIR_ge: "2 \<le> NLOGPAIR"
  by (simp add: NLOGPAIR_def)

theorem kill_hides_log_witness:
  "returns (kill 5 logged_pst) (\<lambda>r t. r = 0 \<and> callno (p_sysclog (pptable t 0) 0) = 0
    \<and> callno (p_sysclog (pptable t 0) 1) = 11)"
  by (rule returns_mono [OF kill_hides_log [where q = 0 and p = 1 and npp = 0
        and e = "\<lparr>callno = 11, retval = 5\<rparr>" and es = "[]"]])
    (auto simp: logged_pst_log [simplified] logged_pst_sel NLOGPAIR_ge,
      auto simp: logged_pst_def boot_pst_def no_proc_def NPROC_def)

end
