(* ===== verification/Xv6_Sleep.thy ===== *)
theory Xv6_Sleep
  imports Xv6_Sched
begin

text \<open>
  The life of processes as a step relation over the operations of \<open>Xv6_Proc\<close>, with its invariant,
  and the interleaving of \<open>sleep\<close> with a concurrent \<open>wakeup\<close> (src/proc.c).
\<close>

section \<open>Frame rules\<close>

lemma same_but_screen_pst:
  assumes "same_but_screen s t"
  shows "ptable t = ptable s" "cur t = cur s" "nextpid t = nextpid s" "held t = held s" "ticks t = ticks s"
    "pptable t = pptable s" "initproc t = initproc s"
  using assms by (cases s; cases t; simp add: same_but_screen_def)+

lemma kalloc_frame: "on_ret (kalloc s) (\<lambda>r t. t = s\<lparr>freelist := freelist t\<rparr>)"
  by (auto simp: kalloc_def acquire_def Let_def)

section \<open>Steps of the process table\<close>

text \<open>
  \<open>kstep\<close> is one operation on the process table, from the point of view of one CPU. A thread that
  leaves the CPU (\<open>Swtch\<close>) is followed by the rest of the scheduler's round (\<open>scheduler_back\<close>).
  Steps \<open>ready\<close>, \<open>zombie\<close> and \<open>reap\<close> are the stores to the state of a process in \<open>fork\<close>, \<open>exit\<close> and
  \<open>wait\<close>. Process ids are assumed not to have run out.
\<close>

inductive kstep :: "'z pst_scheme \<Rightarrow> 'z pst_scheme \<Rightarrow> bool" where
  alloc: "allocproc s = Ret r t \<Longrightarrow> unat (nextpid s) < 2 ^ 31 \<Longrightarrow> kstep s t"
| ready: "p_state (ptable s i) = EMBRYO \<Longrightarrow> kstep s (upd_proc i (p_state_update (\<lambda>_. RUNNABLE)) s)"
| round: "cur s = None \<Longrightarrow> scheduler_round fdiv s = Ret r t \<Longrightarrow> kstep s t"
| sleeps: "(sleep k ch lk s :: (_, unit) outcome) = Swtch k t \<Longrightarrow> scheduler_back t = Ret () u \<Longrightarrow> kstep s u"
| yields: "yield s = Swtch k t \<Longrightarrow> scheduler_back t = Ret () u \<Longrightarrow> kstep s u"
| sleep_done: "sleep_resume lk s = Ret () t \<Longrightarrow> kstep s t"
| yield_done: "yield_resume s = Ret () t \<Longrightarrow> kstep s t"
| wakes: "wakeup ch s = Ret () t \<Longrightarrow> kstep s t"
| kills: "kill pid s = Ret r t \<Longrightarrow> kstep s t"
| tick: "kstep s (s\<lparr>ticks := ticks s + 1\<rparr>)"
| zombie: "cur s = Some p \<Longrightarrow> (sched 0 (upd_proc p (p_state_update (\<lambda>_. ZOMBIE)) s) :: (_, unit) outcome) = Swtch 0 t
    \<Longrightarrow> scheduler_back t = Ret () u \<Longrightarrow> kstep s u"
| reap: "p_state (ptable s i) = ZOMBIE \<Longrightarrow>
    kstep s (upd_proc i (\<lambda>q. q\<lparr>p_pid := 0, p_parent := None, p_killed := False, p_state := UNUSED\<rparr>) s)"

inductive_cases kstepE: "kstep s t"

section \<open>The invariant\<close>

definition running_ok :: "'z pst_scheme \<Rightarrow> bool" where
  "running_ok s \<longleftrightarrow> {i. i < NPROC \<and> p_state (ptable s i) = RUNNING} = set_option (cur s)"

definition pids_ok :: "'z pst_scheme \<Rightarrow> bool" where
  "pids_ok s \<longleftrightarrow> 0 < nextpid s \<and> (\<forall>i < NPROC. p_pid (ptable s i) < nextpid s)
     \<and> inj_on (\<lambda>i. p_pid (ptable s i)) {i. i < NPROC \<and> p_pid (ptable s i) \<noteq> 0}"

definition chans_ok :: "'z pst_scheme \<Rightarrow> bool" where
  "chans_ok s \<longleftrightarrow> (\<forall>i < NPROC. p_state (ptable s i) = SLEEPING \<longrightarrow> p_chan (ptable s i) \<noteq> None)"

definition proc_ok :: "'z pst_scheme \<Rightarrow> bool" where
  "proc_ok s \<longleftrightarrow> running_ok s \<and> pids_ok s \<and> chans_ok s"

lemma running_iff:
  "running_ok s \<longleftrightarrow> (\<forall>i. i < NPROC \<and> p_state (ptable s i) = RUNNING \<longleftrightarrow> cur s = Some i)"
  by (auto simp: running_ok_def set_eq_iff)

lemma proc_ok_fields [simp]:
  "proc_ok (s\<lparr>held := h\<rparr>) = proc_ok s" "proc_ok (s\<lparr>ticks := k\<rparr>) = proc_ok s"
  by (simp_all add: proc_ok_def running_ok_def pids_ok_def chans_ok_def)

text \<open>The parts of the state on which the invariant depends, and how an operation changes them.\<close>

lemma proc_ok_upd:
  assumes "proc_ok s" "cur t = cur s" "nextpid t = nextpid s"
    and "\<And>i. i < NPROC \<Longrightarrow> p_pid (ptable t i) = p_pid (ptable s i) \<or> p_pid (ptable t i) = 0"
    and "\<And>i. i < NPROC \<Longrightarrow> p_state (ptable t i) = RUNNING \<longleftrightarrow> p_state (ptable s i) = RUNNING"
    and "\<And>i. i < NPROC \<Longrightarrow> p_state (ptable t i) = SLEEPING \<Longrightarrow>
           p_state (ptable s i) = SLEEPING \<and> p_chan (ptable t i) = p_chan (ptable s i)"
  shows "proc_ok t"
proof -
  have "running_ok t" using assms(1,2,5) by (auto simp: proc_ok_def running_ok_def)
  moreover have "chans_ok t" using assms(1,6) by (auto simp: proc_ok_def chans_ok_def)
  moreover have "pids_ok t"
  proof -
    have s: "0 < nextpid s" "\<And>i. i < NPROC \<Longrightarrow> p_pid (ptable s i) < nextpid s"
      "inj_on (\<lambda>i. p_pid (ptable s i)) {i. i < NPROC \<and> p_pid (ptable s i) \<noteq> 0}"
      using assms(1) by (auto simp: proc_ok_def pids_ok_def)
    have "p_pid (ptable t i) < nextpid t" if "i < NPROC" for i
      using assms(3,4) s that by metis
    moreover have "inj_on (\<lambda>i. p_pid (ptable t i)) {i. i < NPROC \<and> p_pid (ptable t i) \<noteq> 0}"
      using s(3) assms(4) unfolding inj_on_def by (metis (mono_tags, lifting) mem_Collect_eq)
    ultimately show ?thesis using s(1) assms(3) by (simp add: pids_ok_def)
  qed
  ultimately show ?thesis by (simp add: proc_ok_def)
qed

lemma proc_ok_leave:
  assumes "proc_ok s" "cur s = Some p" "cur t = None" "nextpid t = nextpid s"
    and "ptable t = (ptable s)(p := q)" "p_pid q = p_pid (ptable s p)" "p_state q \<noteq> RUNNING"
    and "p_state q = SLEEPING \<Longrightarrow> p_chan q \<noteq> None"
  shows "proc_ok t"
proof -
  have r: "{i. i < NPROC \<and> p_state (ptable s i) = RUNNING} = {p}"
    using assms(1,2) by (simp add: proc_ok_def running_ok_def)
  have "running_ok t" using r assms(3,5,7) by (auto simp: running_ok_def)
  moreover have "chans_ok t" using assms(1,5,8) by (auto simp: proc_ok_def chans_ok_def)
  moreover have "(\<lambda>i. p_pid (ptable t i)) = (\<lambda>i. p_pid (ptable s i))" using assms(5,6) by auto
  then have "pids_ok t" using assms(1,4) by (simp add: proc_ok_def pids_ok_def fun_eq_iff)
  ultimately show ?thesis by (simp add: proc_ok_def)
qed

text \<open>Choosing a process leaves ids, states and channels alone.\<close>

definition same_ids :: "'z pst_scheme \<Rightarrow> 'z pst_scheme \<Rightarrow> bool" where
  "same_ids s t \<longleftrightarrow> cur t = cur s \<and> nextpid t = nextpid s \<and> held t = held s
     \<and> (\<forall>i. p_pid (ptable t i) = p_pid (ptable s i) \<and> p_state (ptable t i) = p_state (ptable s i)
          \<and> p_chan (ptable t i) = p_chan (ptable s i))"

lemma same_ids_refl [simp]: "same_ids s s"
  by (simp add: same_ids_def)

lemma same_ids_trans: "same_ids s t \<Longrightarrow> same_ids t u \<Longrightarrow> same_ids s u"
  by (simp add: same_ids_def)

lemma same_ids_aging: "same_ids s (apply_aging i s)"
  by (simp add: same_ids_def apply_aging_def Let_def)

lemma same_ids_rr: "same_ids s (snd (rr_search i k s))"
proof (induction k arbitrary: i s)
  case (Suc k)
  show ?case
    using same_ids_trans [OF same_ids_aging [of s i] Suc [of "apply_aging i s" "Suc i"]]
    by (simp add: Let_def same_ids_aging)
qed simp

lemma same_ids_hrrn: "same_ids s (snd (hrrn_search f i k s))"
proof (induction k arbitrary: i s)
  case (Suc k)
  show ?case
    using same_ids_trans [OF same_ids_aging [of s i] Suc [of "apply_aging i s" "Suc i"]] Suc [of s "Suc i"]
    by (simp add: Let_def same_ids_aging)
qed simp

lemma same_ids_pick: "on_ret (scheduler_pick f s) (\<lambda>r t. same_ids s t)"
proof -
  have hr: "on_ret (sched_hrrn f u) (\<lambda>r t. same_ids s t)" if "same_ids s u" for u
    using same_ids_trans [OF that same_ids_hrrn [of u f 0 NPROC]]
    by (cases "hrrn_search f 0 NPROC u") (simp add: sched_hrrn_def)
  have rr1: "on_ret (sched_rr u) (\<lambda>r t. same_ids s t)" if "same_ids s u" for u
    using same_ids_trans [OF that same_ids_rr [of u 0 NPROC]]
    by (cases "rr_search 0 NPROC u") (simp add: sched_rr_def)
  have rr: "on_ret (bindK (sched_rr u) (\<lambda>r t. if r \<noteq> None then Ret r t else sched_hrrn f t)) (\<lambda>r t. same_ids s t)"
    if "same_ids s u" for u
    unfolding on_ret_bindK by (rule on_ret_mono [OF rr1 [OF that]]) (simp add: hr)
  have "on_ret (sched_lottery s) (\<lambda>r u. same_ids s u)"
    by (auto simp: sched_lottery_def same_ids_def split: outcome.splits)
  then show ?thesis
    unfolding scheduler_pick_def using rr by (auto simp del: on_ret_bindK simp: on_ret_bindK [of "sched_lottery s"] elim!: on_ret_mono)
qed

lemma same_ids_alarm: "on_ret (check_alarm p s) (\<lambda>_ t. same_ids s t)"
proof -
  have "same_ids s (upd_proc p (p_alarm_time_update (\<lambda>_. 0)) t)" if "same_but_screen s t" for t
    using same_but_screen_pst [OF that] by (simp add: same_ids_def)
  then show ?thesis
    by (auto simp: check_alarm_def intro: on_ret_mono [OF cprintf_frame])
qed

section \<open>Every step keeps the invariant\<close>

lemma round_ok:
  assumes "proc_ok s" "cur s = None" "scheduler_round f s = Ret r t"
  shows "proc_ok t"
proof -
  let ?s = "s\<lparr>held := insert LPtable (held s)\<rparr>"
  obtain u where u: "LPtable \<notin> held s" "scheduler_pick f ?s = Ret r u"
    and t: "case r of Some p \<Rightarrow> run_proc p u = Ret () t | None \<Rightarrow> release LPtable u = Ret () t"
    using assms(3) by (auto simp: scheduler_round_def outcome_inv split: option.splits)
  have ids: "same_ids ?s u" using on_retD [OF same_ids_pick u(2)] .
  then have ok: "proc_ok u" using assms(1) by (auto simp: same_ids_def intro: proc_ok_upd [of s u])
  show ?thesis
  proof (cases r)
    case None
    with t have "t = u\<lparr>held := held u - {LPtable}\<rparr>" by (simp add: outcome_inv)
    then show ?thesis using ok by simp
  next
    case (Some p)
    have p: "p < NPROC" using on_retD [OF scheduler_pick_result u(2)] Some by simp
    have none: "{i. i < NPROC \<and> p_state (ptable u i) = RUNNING} = {}"
      using ok ids assms(2) by (simp add: proc_ok_def running_ok_def same_ids_def)
    let ?v = "upd_proc p (p_state_update (\<lambda>_. RUNNING)) ((upd_proc p (\<lambda>q. q\<lparr>p_clicks := p_clicks q + 1,
      p_last_run := ticks u\<rparr>) u)\<lparr>cur := Some p, ts_esp0 := p_kstack (ptable u p) + KSTACKSIZE,
      cr3 := V2P (p_pgdir (ptable u p))\<rparr>)"
    have "check_alarm p ?v = Ret () t"
      using t Some by (auto simp: run_proc_def switchuvm_def Let_def outcome_inv split: if_splits)
    then have v: "same_ids ?v t" using on_retD [OF same_ids_alarm] by blast
    have "running_ok ?v" using none p by (auto simp: running_ok_def)
    moreover have "pids_ok ?v" "chans_ok ?v"
      using ok by (auto simp: proc_ok_def pids_ok_def chans_ok_def inj_on_def)
    ultimately have "proc_ok ?v" by (simp add: proc_ok_def)
    then show ?thesis using v by (auto simp: same_ids_def intro: proc_ok_upd [of ?v t])
  qed
qed

lemma sched_Swtch: "(sched k s :: (_, 'a) outcome) = Swtch j t \<Longrightarrow>
    t = s \<and> held s = {LPtable} \<and> (\<exists>p. cur s = Some p \<and> p_state (ptable s p) \<noteq> RUNNING)"
  by (auto simp: sched_def myprocK_def split: option.splits if_splits)

lemma scheduler_back_ret: "scheduler_back t = Ret () u \<Longrightarrow>
    ptable u = ptable t \<and> cur u = None \<and> nextpid u = nextpid t"
  by (auto simp: scheduler_back_def run_proc_back_def switchkvm_def outcome_inv)

lemma bindK_Swtch_iff:
  "bindK m f = Swtch k t \<longleftrightarrow> m = Swtch k t \<or> (\<exists>x s. m = Ret x s \<and> f x s = Swtch k t)"
  by (cases m) auto

lemma sleep_Swtch:
  assumes "(sleep k ch lk s :: (_, 'a) outcome) = Swtch j t"
  shows "\<exists>p. cur s = Some p \<and> cur t = Some p \<and> nextpid t = nextpid s \<and> held t = {LPtable}
    \<and> ptable t = (ptable s)(p := (ptable s p)\<lparr>p_chan := Some ch, p_state := SLEEPING\<rparr>)"
proof (cases "cur s")
  case None
  with assms show ?thesis by (simp add: sleep_def)
next
  case (Some p)
  let ?u = "if lk = LPtable then s else s\<lparr>held := insert LPtable (held s) - {lk}\<rparr>"
  have "(sched k (upd_proc p (\<lambda>q. q\<lparr>p_chan := Some ch, p_state := SLEEPING\<rparr>) ?u) :: (_, 'a) outcome) = Swtch j t"
    using assms Some
    by (auto simp: sleep_def bindK_Swtch_iff outcome_inv acquire_def release_def split: if_splits)
  with Some sched_Swtch [OF this] show ?thesis by (auto split: if_splits)
qed

lemma yield_Swtch:
  assumes "yield s = Swtch j t"
  shows "\<exists>p. cur s = Some p \<and> nextpid t = nextpid s
    \<and> ptable t = (ptable s)(p := (ptable s p)\<lparr>p_state := RUNNABLE\<rparr>)"
proof -
  let ?s = "s\<lparr>held := insert LPtable (held s)\<rparr>"
  from assms obtain p where p: "cur s = Some p"
    "(sched 0 (upd_proc p (p_state_update (\<lambda>_. RUNNABLE)) ?s) :: (_, unit) outcome) = Swtch j t"
    by (auto simp: yield_def bindK_Swtch_iff outcome_inv acquire_def myprocK_def split: if_splits option.splits)
  with sched_Swtch [OF p(2)] show ?thesis by auto
qed

lemma pids_ok_fresh:
  assumes lt: "nextpid s < nextpid s + 1" and "pids_ok s"
    and q: "ptable t = (ptable s)(i := q)" "p_pid q = nextpid s" "nextpid t = nextpid s + 1"
  shows "pids_ok t"
proof -
  have s: "0 < nextpid s" "\<And>j. j < NPROC \<Longrightarrow> p_pid (ptable s j) < nextpid s"
    "inj_on (\<lambda>j. p_pid (ptable s j)) {j. j < NPROC \<and> p_pid (ptable s j) \<noteq> 0}"
    using assms(2) by (auto simp: pids_ok_def)
  have pid: "p_pid (ptable t j) = (if j = i then nextpid s else p_pid (ptable s j))" for j
    using q by simp
  have "p_pid (ptable t j) < nextpid t" if "j < NPROC" for j
    using s(2) [OF that] lt q(3) pid by auto
  moreover have "j = k" if jk: "j < NPROC" "k < NPROC" "p_pid (ptable t j) = p_pid (ptable t k)"
      "p_pid (ptable t j) \<noteq> 0" for j k
    using that s(2) [OF jk(1)] s(2) [OF jk(2)] inj_onD [OF s(3), of j k]
    by (auto simp: pid split: if_splits)
  ultimately show ?thesis using lt s(1) q(3) by (auto simp: pids_ok_def inj_on_def)
qed

lemma alloc_ok:
  assumes "proc_ok s" "allocproc s = Ret r t" "unat (nextpid s) < 2 ^ 31"
  shows "proc_ok t"
proof -
  let ?s = "s\<lparr>held := insert LPtable (held s)\<rparr>"
  obtain i where i: "find_from (\<lambda>i. p_state (ptable ?s i) = UNUSED) 0 NPROC = Some i"
    using assms(2) by (auto simp: allocproc_def outcome_inv split: option.splits)
  then have slot: "i < NPROC" "p_state (ptable s i) = UNUSED" by (auto simp: find_from_Some)
  let ?u = "allocproc_init i s"
  have "\<exists>q. ptable t = (ptable s)(i := q) \<and> p_pid q = nextpid s \<and> p_state q \<in> {EMBRYO, UNUSED}
      \<and> cur t = cur s \<and> nextpid t = nextpid s + 1"
  proof -
    have rel: "LPtable \<notin> held s \<and> (\<exists>k v. kalloc ?u = Ret k v \<and>
       t = (if k = 0 then upd_proc i (p_state_update (\<lambda>_. UNUSED)) (upd_proc i (p_kstack_update (\<lambda>_. k)) v)
            else let w = upd_proc i (p_kstack_update (\<lambda>_. k)) v; x = wr32 (k + KSTACKSIZE - 76 - 4) (sym_trapret w) w
                 in upd_proc i (p_context_update (\<lambda>_. zero_context\<lparr>ctx_eip := sym_forkret x\<rparr>)) x))"
      using assms(2) i
      by (auto simp: allocproc_def allocproc_init_def upd_proc_def outcome_inv Let_def split: if_splits)
    then obtain k v where kv: "kalloc ?u = Ret k v" "v = ?u\<lparr>freelist := freelist v\<rparr>"
      "t = (if k = 0 then upd_proc i (p_state_update (\<lambda>_. UNUSED)) (upd_proc i (p_kstack_update (\<lambda>_. k)) v)
            else let w = upd_proc i (p_kstack_update (\<lambda>_. k)) v; x = wr32 (k + KSTACKSIZE - 76 - 4) (sym_trapret w) w
                 in upd_proc i (p_context_update (\<lambda>_. zero_context\<lparr>ctx_eip := sym_forkret x\<rparr>)) x)"
      using on_retD [OF kalloc_frame] by blast
    have "ptable v = ptable ?u" "cur v = cur ?u" "nextpid v = nextpid ?u"
      by (subst kv(2); simp)+
    then show ?thesis unfolding kv(3) by (auto simp: Let_def wr32_def allocproc_init_def)
  qed
  then obtain q where q: "ptable t = (ptable s)(i := q)" "p_pid q = nextpid s" "p_state q \<in> {EMBRYO, UNUSED}"
    "cur t = cur s" "nextpid t = nextpid s + 1" by blast
  have "nextpid s < nextpid s + 1" using assms(3) by (simp add: word_less_nat_alt unat_word_ariths)
  then have "pids_ok t" by (rule pids_ok_fresh [OF _ _ q(1,2,5)]) (use assms(1) in \<open>simp add: proc_ok_def\<close>)
  moreover have "running_ok t"
  proof -
    have run: "j < NPROC \<and> p_state (ptable s j) = RUNNING \<longleftrightarrow> cur s = Some j" for j
      using assms(1) by (simp add: proc_ok_def running_iff)
    have "cur s \<noteq> Some i" using run [of i] slot by auto
    moreover have "p_state q \<noteq> RUNNING" using q(3) by auto
    ultimately have "j < NPROC \<and> p_state (ptable t j) = RUNNING \<longleftrightarrow> cur t = Some j" for j
      using run [of j] q(1,4) by (cases "j = i") auto
    then show ?thesis by (simp add: running_iff)
  qed
  moreover have "chans_ok t" using assms(1) q slot by (auto simp: proc_ok_def chans_ok_def)
  ultimately show ?thesis by (simp add: proc_ok_def)
qed

lemma sleep_done_ok: "sleep_resume lk s = Ret () t \<Longrightarrow> proc_ok s \<Longrightarrow> proc_ok t"
proof -
  assume r: "sleep_resume lk s = Ret () t" and ok: "proc_ok s"
  from r obtain p where p: "cur s = Some p"
    by (auto simp: sleep_resume_def myprocK_def split: option.splits)
  then have "p_state (ptable s p) = RUNNING" using ok by (auto simp: proc_ok_def running_iff)
  then have "proc_ok (upd_proc p (p_chan_update (\<lambda>_. None)) s)"
    by (intro proc_ok_upd [OF ok]) (auto split: if_splits)
  then show ?thesis
    using r p by (auto simp: sleep_resume_def myprocK_def Let_def outcome_inv acquire_def split: if_splits)
qed

lemma kills_ok: "kill pid s = Ret r t \<Longrightarrow> proc_ok s \<Longrightarrow> proc_ok t"
proof -
  assume k: "kill pid s = Ret r t" and ok: "proc_ok s"
  note e = on_retD [OF kill_effect k]
  then have same: "same_pids s t" by blast
  have st: "p_state (ptable t i) = p_state (ptable s i)
      \<or> p_state (ptable s i) = SLEEPING \<and> p_state (ptable t i) = RUNNABLE" for i
    using e by (auto simp: marked_def p_states_def split: if_splits)
  have "p_state (ptable t i) = RUNNING \<longleftrightarrow> p_state (ptable s i) = RUNNING" for i
    using st [of i] by auto
  moreover have "p_state (ptable t i) = SLEEPING \<Longrightarrow> p_state (ptable s i) = SLEEPING" for i
    using st [of i] by auto
  ultimately show ?thesis
    using same by (intro proc_ok_upd [OF ok]) (auto simp: same_pids_def)
qed

lemma kstep_ok: "kstep s t \<Longrightarrow> proc_ok s \<Longrightarrow> proc_ok t"
proof (induction rule: kstep.induct)
  case (alloc s r t)
  then show ?case by (blast intro: alloc_ok)
next
  case (ready s i)
  show ?case by (rule proc_ok_upd [OF ready(2)]) (use ready(1) in \<open>auto split: if_splits\<close>)
next
  case (round s fdiv r t)
  then show ?case by (blast intro: round_ok)
next
  case (sleeps k ch lk s t u)
  obtain p where "cur s = Some p" "nextpid t = nextpid s"
    "ptable t = (ptable s)(p := (ptable s p)\<lparr>p_chan := Some ch, p_state := SLEEPING\<rparr>)"
    using sleep_Swtch [OF sleeps(1)] by blast
  with scheduler_back_ret [OF sleeps(2)] sleeps(3) show ?case
    by (intro proc_ok_leave [of s p u "(ptable s p)\<lparr>p_chan := Some ch, p_state := SLEEPING\<rparr>"]) auto
next
  case (yields s k t u)
  obtain p where "cur s = Some p" "nextpid t = nextpid s"
    "ptable t = (ptable s)(p := (ptable s p)\<lparr>p_state := RUNNABLE\<rparr>)"
    using yield_Swtch [OF yields(1)] by blast
  with scheduler_back_ret [OF yields(2)] yields(3) show ?case
    by (intro proc_ok_leave [of s p u "(ptable s p)\<lparr>p_state := RUNNABLE\<rparr>"]) auto
next
  case (sleep_done lk s t)
  then show ?case by (rule sleep_done_ok)
next
  case (yield_done s t)
  then show ?case by (auto simp: yield_resume_def outcome_inv)
next
  case (wakes ch s t)
  then have t: "t = s\<lparr>ptable := wake_all ch (ptable s)\<rparr>"
    by (auto simp: wakeup_def wakeup1_table outcome_inv)
  show ?case unfolding t
    by (rule proc_ok_upd [OF wakes(2)]) (auto simp: wake_all_def wake_def split: if_splits)
next
  case (kills pid s r t)
  then show ?case by (rule kills_ok)
next
  case (tick s)
  then show ?case by simp
next
  case (zombie s p t u)
  have "t = upd_proc p (p_state_update (\<lambda>_. ZOMBIE)) s" using sched_Swtch [OF zombie(2)] by blast
  with scheduler_back_ret [OF zombie(3)] zombie(1,4) show ?case
    by (intro proc_ok_leave [of s p u "(ptable s p)\<lparr>p_state := ZOMBIE\<rparr>"]) auto
next
  case (reap s i)
  show ?case by (rule proc_ok_upd [OF reap(2)]) (use reap(1) in \<open>auto split: if_splits\<close>)
qed


text \<open>A machine with a process that \<open>fork\<close> has just built.\<close>

definition embryo_pst :: pst where
  "embryo_pst = boot_pst\<lparr>nextpid := 5, ptable := (\<lambda>_. no_proc)(2 := no_proc\<lparr>p_state := EMBRYO, p_pid := 4\<rparr>)\<rparr>"

lemma embryo_ok: "proc_ok embryo_pst"
  by (auto simp: proc_ok_def running_ok_def pids_ok_def chans_ok_def embryo_pst_def boot_pst_def
      no_proc_def inj_on_def word_less_nat_alt split: if_splits)

lemma embryo_reach:
  "kstep\<^sup>*\<^sup>* embryo_pst ((upd_proc 2 (p_state_update (\<lambda>_. RUNNABLE)) embryo_pst)\<lparr>ticks := 1\<rparr>)"
proof -
  let ?t = "upd_proc 2 (p_state_update (\<lambda>_. RUNNABLE)) embryo_pst"
  have "kstep embryo_pst ?t" by (rule kstep.ready) (simp add: embryo_pst_def)
  moreover have "ticks ?t + 1 = 1" by (simp add: embryo_pst_def boot_pst_def)
  then have "kstep ?t (?t\<lparr>ticks := 1\<rparr>)" using kstep.tick [of ?t] by (simp only:)
  ultimately show ?thesis by (meson rtranclp.rtrancl_into_rtrancl rtranclp.rtrancl_refl)
qed


section \<open>No wakeup is lost\<close>

text \<open>
  A sleeper runs \<open>acquire(lk); if(!condition) sleep(chan, lk)\<close> on one CPU while a waker runs
  \<open>acquire(lk); condition = 1; wakeup(chan); release(lk)\<close> on another. Each store and each lock
  operation is a step of its own; a step that acquires a lock waits until the lock is free. The
  steps of the sleeper are those of \<open>sleep\<close>, ending with the scheduler's release of \<open>ptable.lock\<close>;
  those of the waker are those of \<open>wakeup\<close>.
\<close>

datatype spc = SLock | STest | SPtable | SUnlock | SStore | SSched | SOff | SSkip
datatype wpc = WLock | WSet | WPtable | WWake | WRelease | WUnlock | WDone
datatype party = Sleeper | Waker

record sw =
  sw_s :: spc
  sw_w :: wpc
  sw_lk :: "party option"
  sw_pt :: "party option"
  sw_cond :: bool
  sw_k :: pst

inductive sw_step :: "nat \<Rightarrow> chan \<Rightarrow> sw \<Rightarrow> sw \<Rightarrow> bool" for p ch where
  "sw_s s = SLock \<Longrightarrow> sw_lk s = None \<Longrightarrow> sw_step p ch s (s\<lparr>sw_s := STest, sw_lk := Some Sleeper\<rparr>)"
| "sw_s s = STest \<Longrightarrow> \<not> sw_cond s \<Longrightarrow> sw_step p ch s (s\<lparr>sw_s := SPtable\<rparr>)"
| "sw_s s = STest \<Longrightarrow> sw_cond s \<Longrightarrow> sw_step p ch s (s\<lparr>sw_s := SSkip, sw_lk := None\<rparr>)"
| "sw_s s = SPtable \<Longrightarrow> sw_pt s = None \<Longrightarrow> sw_step p ch s (s\<lparr>sw_s := SUnlock, sw_pt := Some Sleeper\<rparr>)"
| "sw_s s = SUnlock \<Longrightarrow> sw_step p ch s (s\<lparr>sw_s := SStore, sw_lk := None\<rparr>)"
| "sw_s s = SStore \<Longrightarrow> sw_step p ch s (s\<lparr>sw_s := SSched,
     sw_k := upd_proc p (\<lambda>q. q\<lparr>p_chan := Some ch, p_state := SLEEPING\<rparr>) (sw_k s)\<rparr>)"
| "sw_s s = SSched \<Longrightarrow> sw_step p ch s (s\<lparr>sw_s := SOff, sw_pt := None\<rparr>)"
| "sw_w s = WLock \<Longrightarrow> sw_lk s = None \<Longrightarrow> sw_step p ch s (s\<lparr>sw_w := WSet, sw_lk := Some Waker\<rparr>)"
| "sw_w s = WSet \<Longrightarrow> sw_step p ch s (s\<lparr>sw_w := WPtable, sw_cond := True\<rparr>)"
| "sw_w s = WPtable \<Longrightarrow> sw_pt s = None \<Longrightarrow> sw_step p ch s (s\<lparr>sw_w := WWake, sw_pt := Some Waker\<rparr>)"
| "sw_w s = WWake \<Longrightarrow> sw_step p ch s (s\<lparr>sw_w := WRelease, sw_k := wakeup1 ch (sw_k s)\<rparr>)"
| "sw_w s = WRelease \<Longrightarrow> sw_step p ch s (s\<lparr>sw_w := WUnlock, sw_pt := None\<rparr>)"
| "sw_w s = WUnlock \<Longrightarrow> sw_step p ch s (s\<lparr>sw_w := WDone, sw_lk := None\<rparr>)"

definition sw_init :: "pst \<Rightarrow> sw" where
  "sw_init k = \<lparr>sw_s = SLock, sw_w = WLock, sw_lk = None, sw_pt = None, sw_cond = False, sw_k = k\<rparr>"

text \<open>Who owns which lock, and what the waker can have done meanwhile.\<close>

definition sw_locks :: "sw \<Rightarrow> bool" where
  "sw_locks s \<longleftrightarrow>
     (sw_lk s = Some Sleeper \<longleftrightarrow> sw_s s \<in> {STest, SPtable, SUnlock})
     \<and> (sw_lk s = Some Waker \<longleftrightarrow> sw_w s \<notin> {WLock, WDone})
     \<and> (sw_pt s = Some Sleeper \<longleftrightarrow> sw_s s \<in> {SUnlock, SStore, SSched})
     \<and> (sw_pt s = Some Waker \<longleftrightarrow> sw_w s \<in> {WWake, WRelease})
     \<and> (sw_cond s \<longleftrightarrow> sw_w s \<notin> {WLock, WSet})
     \<and> (sw_s s \<in> {SPtable, SUnlock} \<longrightarrow> \<not> sw_cond s)
     \<and> (sw_s s \<in> {SStore, SSched} \<longrightarrow> sw_w s \<in> {WLock, WSet, WPtable})"

definition sw_sleeps :: "nat \<Rightarrow> chan \<Rightarrow> sw \<Rightarrow> bool" where
  "sw_sleeps p ch s \<longleftrightarrow>
     (sw_s s = SSched \<or> sw_s s = SOff \<and> sw_w s \<in> {WLock, WSet, WPtable, WWake} \<longrightarrow>
        p_state (ptable (sw_k s) p) = SLEEPING \<and> p_chan (ptable (sw_k s) p) = Some ch)
     \<and> (sw_s s = SOff \<and> sw_w s \<in> {WRelease, WUnlock, WDone} \<longrightarrow>
        p_state (ptable (sw_k s) p) = RUNNABLE)"

lemma sw_locks_step: "sw_step p ch s t \<Longrightarrow> sw_locks s \<Longrightarrow> sw_locks t"
proof (induction rule: sw_step.induct)
qed (cases "sw_lk s"; cases "sw_pt s"; auto simp: sw_locks_def)+

lemma wakeup1_sleeper:
  "p < NPROC \<Longrightarrow> p_state (ptable k p) = SLEEPING \<Longrightarrow> p_chan (ptable k p) = Some ch \<Longrightarrow>
   p_state (ptable (wakeup1 ch k) p) = RUNNABLE"
  by (simp add: wakeup1_table wake_all_def wake_def)

lemma sw_sleeps_step:
  "sw_step p ch s t \<Longrightarrow> p < NPROC \<Longrightarrow> sw_locks s \<Longrightarrow> sw_sleeps p ch s \<Longrightarrow> sw_sleeps p ch t"
proof (induction rule: sw_step.induct)
qed (auto simp: sw_sleeps_def sw_locks_def intro: wakeup1_sleeper)



end
