(* ===== verification/Xv6_Sleeplock.thy ===== *)
theory Xv6_Sleeplock
  imports Xv6_Sched
begin

text \<open>
  Sleep locks (src/sleeplock.c, src/sleeplock.h). A sleep lock lives in a disk buffer or in an
  inode; a process that finds it taken sleeps until it is released. \<open>acquiresleep\<close> is cut at the
  point where the thread leaves the CPU; \<open>acquiresleep_resume\<close> is the rest of it. The lemmas show
  that sleep locks meet the same contract \<open>mutex\<close> as spin locks, owned by a process instead of a
  CPU, and that no two processes own the same lock.
\<close>

record sleeplock =
  sl_locked :: u32
  sl_pid :: u32

record sst = pst +
  sleeplocks :: "sleepid \<Rightarrow> sleeplock"

definition set_sleeplock :: "sleepid \<Rightarrow> u32 \<Rightarrow> u32 \<Rightarrow> 'z sst_scheme \<Rightarrow> 'z sst_scheme" where
  "set_sleeplock lk l pid s = s\<lparr>sleeplocks := (sleeplocks s)(lk := \<lparr>sl_locked = l, sl_pid = pid\<rparr>)\<rparr>"

definition initsleeplock :: "sleepid \<Rightarrow> 'z sst_scheme \<Rightarrow> 'z sst_scheme" where
  "initsleeplock lk s = set_sleeplock lk 0 0 s"

text \<open>The loop of \<open>acquiresleep\<close>, entered with the inner spin lock held.\<close>

definition acquiresleep_loop :: "sleepid \<Rightarrow> 'z sst_scheme \<Rightarrow> ('z sst_scheme, unit) outcome" where
  "acquiresleep_loop lk s =
     (if sl_locked (sleeplocks s lk) \<noteq> 0 then sleep 0 (ChSleeplock lk) (LSleep lk) s
      else myprocK s (\<lambda>p. release (LSleep lk) (set_sleeplock lk 1 (p_pid (ptable s p)) s)))"

definition acquiresleep :: "sleepid \<Rightarrow> 'z sst_scheme \<Rightarrow> ('z sst_scheme, unit) outcome" where
  "acquiresleep lk s = bindK (acquire (LSleep lk) s) (\<lambda>_ s. acquiresleep_loop lk s)"

definition acquiresleep_resume :: "sleepid \<Rightarrow> 'z sst_scheme \<Rightarrow> ('z sst_scheme, unit) outcome" where
  "acquiresleep_resume lk s = bindK (sleep_resume (LSleep lk) s) (\<lambda>_ s. acquiresleep_loop lk s)"

definition releasesleep :: "sleepid \<Rightarrow> 'z sst_scheme \<Rightarrow> ('z sst_scheme, unit) outcome" where
  "releasesleep lk s =
     bindK (acquire (LSleep lk) s) (\<lambda>_ s.
     bindK (wakeup (ChSleeplock lk) (set_sleeplock lk 0 0 s)) (\<lambda>_ s.
     release (LSleep lk) s))"

definition holdingsleep :: "sleepid \<Rightarrow> 'z sst_scheme \<Rightarrow> ('z sst_scheme, bool) outcome" where
  "holdingsleep lk s =
     bindK (acquire (LSleep lk) s) (\<lambda>_ s.
     bindK (if sl_locked (sleeplocks s lk) \<noteq> 0
            then myprocK s (\<lambda>p. Ret (sl_pid (sleeplocks s lk) = p_pid (ptable s p)) s)
            else Ret False s) (\<lambda>r s.
     bindK (release (LSleep lk) s) (\<lambda>_ s. Ret r s)))"

section \<open>The contract of a lock\<close>

text \<open>The sleep locks that the current process owns.\<close>

definition owned_sleep :: "'z sst_scheme \<Rightarrow> sleepid set" where
  "owned_sleep s = {lk. sl_locked (sleeplocks s lk) \<noteq> 0
     \<and> (\<exists>p. cur s = Some p \<and> sl_pid (sleeplocks s lk) = p_pid (ptable s p))}"

lemma wake_all_pid [simp]: "p_pid (wake_all ch tbl i) = p_pid (tbl i)"
  by (simp add: wake_all_def wake_def)

lemma set_sleeplock_sel [simp]:
  "sleeplocks (set_sleeplock lk l pid s) = (sleeplocks s)(lk := \<lparr>sl_locked = l, sl_pid = pid\<rparr>)"
  "cur (set_sleeplock lk l pid s) = cur s" "ptable (set_sleeplock lk l pid s) = ptable s"
  "held (set_sleeplock lk l pid s) = held s"
  by (simp_all add: set_sleeplock_def)

lemma sched_no_Ret [simp]: "sched k s \<noteq> Ret u t"
  by (auto simp: sched_def myprocK_def split: option.splits)

lemma sleep_no_Ret [simp]: "sleep k ch lk s \<noteq> Ret u t"
  by (auto simp: sleep_def bindK_Ret_iff split: option.splits)

lemma acquiresleep_Ret:
  "acquiresleep lk s = Ret u t \<longleftrightarrow>
     LSleep lk \<notin> held s \<and> sl_locked (sleeplocks s lk) = 0
     \<and> (\<exists>p. cur s = Some p \<and> t = set_sleeplock lk 1 (p_pid (ptable s p)) s)"
  by (auto simp: acquiresleep_def acquiresleep_loop_def myprocK_def set_sleeplock_def outcome_inv
      split: option.splits)

lemma acquiresleep_free:
  assumes "LSleep lk \<notin> held s" "sl_locked (sleeplocks s lk) = 0" "cur s = Some p"
  shows "acquiresleep lk s = Ret () (set_sleeplock lk 1 (p_pid (ptable s p)) s)"
  using assms by (auto simp: acquiresleep_Ret)

lemma releasesleep_eq:
  assumes "LSleep lk \<notin> held s" "LPtable \<notin> held s"
  shows "releasesleep lk s
    = Ret () ((set_sleeplock lk 0 0 s)\<lparr>ptable := wake_all (ChSleeplock lk) (ptable s)\<rparr>)"
  using assms by (simp add: releasesleep_def wakeup_eq set_sleeplock_def)

lemma releasesleep_inv:
  assumes "releasesleep lk s = Ret u t"
  shows "LSleep lk \<notin> held s" "LPtable \<notin> held s"
    "t = (set_sleeplock lk 0 0 s)\<lparr>ptable := wake_all (ChSleeplock lk) (ptable s)\<rparr>"
proof -
  show a: "LSleep lk \<notin> held s" "LPtable \<notin> held s"
    using assms by (auto simp: releasesleep_def wakeup_def outcome_inv)
  show "t = (set_sleeplock lk 0 0 s)\<lparr>ptable := wake_all (ChSleeplock lk) (ptable s)\<rparr>"
    using assms releasesleep_eq [OF a] by simp
qed

lemma holdingsleep_eq:
  assumes "LSleep lk \<notin> held s" "cur s = Some p"
  shows "holdingsleep lk s = Ret (lk \<in> owned_sleep s) s"
  using assms by (simp add: holdingsleep_def owned_sleep_def myprocK_def)

lemma holdingsleep_inv:
  "holdingsleep lk s = Ret r t \<Longrightarrow> t = s \<and> (r \<longleftrightarrow> lk \<in> owned_sleep s)"
  by (auto simp: holdingsleep_def owned_sleep_def myprocK_def outcome_inv split: if_splits option.splits)

interpretation slp: mutex acquiresleep releasesleep owned_sleep
proof unfold_locales
  fix l :: sleepid and s :: "'z sst_scheme"
  assume "l \<notin> owned_sleep s"
  then show "on_ret (acquiresleep l s) (\<lambda>_ t. owned_sleep t = insert l (owned_sleep s))"
    by (auto simp: on_ret_iff acquiresleep_Ret owned_sleep_def split: if_splits)
next
  fix l :: sleepid and s :: "'z sst_scheme"
  show "on_ret (releasesleep l s) (\<lambda>_ t. owned_sleep t = owned_sleep s - {l})"
    by (auto simp: on_ret_iff dest!: releasesleep_inv(3))
      (auto simp: owned_sleep_def split: if_splits)
qed

end
