(* ===== verification/Xv6_Bio.thy ===== *)
theory Xv6_Bio
  imports Xv6_Sleeplock
begin

unbundle bit_operations_syntax

text \<open>
  The disk and the buffer cache (src/bio.c, src/buf.h, and the memory disk src/memide.c). The cache
  is the array \<open>bcache.buf\<close> threaded on a ring through \<open>prev\<close> and \<open>next\<close>; index \<open>NBUF\<close> is
  \<open>bcache.head\<close>. The block array \<open>data\<close> of a buffer is a byte array, and copying all its \<open>BSIZE\<close>
  bytes assigns it.

  The disk is the array of blocks that \<open>memdisk\<close> points to, together with \<open>dhist\<close>, the block writes
  that reached it, in order. \<open>dhist\<close> is not read by the code: it records the states the disk goes
  through, so that later theories can speak about a crash between two writes.
\<close>

section \<open>Data\<close>

definition NBUF :: nat where "NBUF = 30"
definition BSIZE :: nat where "BSIZE = 512"
definition B_VALID :: u32 where "B_VALID = 2"
definition B_DIRTY :: u32 where "B_DIRTY = 4"

record buf =
  b_flags :: u32
  b_dev :: u32
  b_blockno :: u32
  b_refcnt :: u32
  b_prev :: nat
  b_next :: nat
  b_qnext :: "nat option"
  b_data :: bytes

record bst = sst +
  bufs :: "nat \<Rightarrow> buf"
  disk :: "nat \<Rightarrow> bytes"
  disksize :: u32
  dhist :: "(nat \<times> bytes) list"

definition upd_buf :: "nat \<Rightarrow> (buf \<Rightarrow> buf) \<Rightarrow> 'z bst_scheme \<Rightarrow> 'z bst_scheme" where
  "upd_buf b f s = s\<lparr>bufs := (bufs s)(b := f (bufs s b))\<rparr>"

section \<open>The memory disk\<close>

definition ideinit :: "(nat \<Rightarrow> bytes) \<Rightarrow> u32 \<Rightarrow> 'z bst_scheme \<Rightarrow> 'z bst_scheme" where
  "ideinit img sz s = s\<lparr>disk := img, disksize := sz div of_nat BSIZE\<rparr>"

definition iderw :: "nat \<Rightarrow> 'z bst_scheme \<Rightarrow> ('z bst_scheme, unit) outcome" where
  "iderw b s =
     bindK (holdingsleep (SBuf b) s) (\<lambda>h s.
     let q = bufs s b; n = unat (b_blockno q)
     in if \<not> h then Panic ''iderw: buf not locked''
        else if b_flags q AND (B_VALID OR B_DIRTY) = B_VALID then Panic ''iderw: nothing to do''
        else if b_dev q \<noteq> 1 then Panic ''iderw: request not for disk 1''
        else if b_blockno q \<ge> disksize s then Panic ''iderw: block out of range''
        else if b_flags q AND B_DIRTY \<noteq> 0 then
          Ret () (upd_buf b (b_flags_update (\<lambda>f. (f AND NOT B_DIRTY) OR B_VALID))
            (s\<lparr>disk := (disk s)(n := b_data q), dhist := dhist s @ [(n, b_data q)]\<rparr>))
        else
          Ret () (upd_buf b (\<lambda>q. q\<lparr>b_data := disk s n, b_flags := b_flags q OR B_VALID\<rparr>) s))"

section \<open>The buffer cache\<close>

text \<open>Put buffer \<open>b\<close> behind the head of the ring.\<close>

definition link_front :: "nat \<Rightarrow> 'z bst_scheme \<Rightarrow> 'z bst_scheme" where
  "link_front b s =
     (let s = upd_buf b (b_next_update (\<lambda>_. b_next (bufs s NBUF))) s;
          s = upd_buf b (b_prev_update (\<lambda>_. NBUF)) s;
          s = upd_buf (b_next (bufs s NBUF)) (b_prev_update (\<lambda>_. b)) s
      in upd_buf NBUF (b_next_update (\<lambda>_. b)) s)"

definition binit :: "'z bst_scheme \<Rightarrow> 'z bst_scheme" where
  "binit s =
     for_range 0 NBUF (\<lambda>b s. link_front b (initsleeplock (SBuf b) s))
       (upd_buf NBUF (\<lambda>q. q\<lparr>b_prev := NBUF, b_next := NBUF\<rparr>) s)"

text \<open>
  The two searches of \<open>bget\<close>. A walk along the ring carries fuel; \<open>NBUF + 1\<close> steps reach the head
  again from every buffer of a well-formed ring.
\<close>

fun bget_cached :: "nat \<Rightarrow> u32 \<Rightarrow> u32 \<Rightarrow> nat \<Rightarrow> 'z bst_scheme \<Rightarrow> ('z bst_scheme, nat option) outcome" where
  "bget_cached 0 dev blockno b s = Diverge"
| "bget_cached (Suc fuel) dev blockno b s =
     (if b = NBUF then Ret None s
      else if b_dev (bufs s b) = dev \<and> b_blockno (bufs s b) = blockno then Ret (Some b) s
      else bget_cached fuel dev blockno (b_next (bufs s b)) s)"

fun bget_unused :: "nat \<Rightarrow> nat \<Rightarrow> 'z bst_scheme \<Rightarrow> ('z bst_scheme, nat option) outcome" where
  "bget_unused 0 b s = Diverge"
| "bget_unused (Suc fuel) b s =
     (if b = NBUF then Ret None s
      else if b_refcnt (bufs s b) = 0 \<and> b_flags (bufs s b) AND B_DIRTY = 0 then Ret (Some b) s
      else bget_unused fuel (b_prev (bufs s b)) s)"

definition bget :: "u32 \<Rightarrow> u32 \<Rightarrow> 'z bst_scheme \<Rightarrow> ('z bst_scheme, nat) outcome" where
  "bget dev blockno s =
     bindK (acquire LBcache s) (\<lambda>_ s.
     bindK (bget_cached (Suc NBUF) dev blockno (b_next (bufs s NBUF)) s) (\<lambda>r s.
     case r of
       Some b \<Rightarrow>
         bindK (release LBcache (upd_buf b (b_refcnt_update (\<lambda>r. r + 1)) s)) (\<lambda>_ s.
         bindK (acquiresleep (SBuf b) s) (\<lambda>_ s. Ret b s))
     | None \<Rightarrow>
         bindK (bget_unused (Suc NBUF) (b_prev (bufs s NBUF)) s) (\<lambda>r s.
         case r of
           Some b \<Rightarrow>
             bindK (release LBcache (upd_buf b (\<lambda>q. q\<lparr>b_dev := dev, b_blockno := blockno,
               b_flags := 0, b_refcnt := 1\<rparr>) s)) (\<lambda>_ s.
             bindK (acquiresleep (SBuf b) s) (\<lambda>_ s. Ret b s))
         | None \<Rightarrow> Panic ''bget: no buffers'')))"

definition bread :: "u32 \<Rightarrow> u32 \<Rightarrow> 'z bst_scheme \<Rightarrow> ('z bst_scheme, nat) outcome" where
  "bread dev blockno s =
     bindK (bget dev blockno s) (\<lambda>b s.
     bindK (if b_flags (bufs s b) AND B_VALID = 0 then iderw b s else Ret () s) (\<lambda>_ s.
     Ret b s))"

definition bwrite :: "nat \<Rightarrow> 'z bst_scheme \<Rightarrow> ('z bst_scheme, unit) outcome" where
  "bwrite b s =
     bindK (holdingsleep (SBuf b) s) (\<lambda>h s.
     if \<not> h then Panic ''bwrite''
     else iderw b (upd_buf b (b_flags_update (\<lambda>f. f OR B_DIRTY)) s))"

definition brelse_unlink :: "nat \<Rightarrow> 'z bst_scheme \<Rightarrow> 'z bst_scheme" where
  "brelse_unlink b s =
     (let s = upd_buf (b_next (bufs s b)) (b_prev_update (\<lambda>_. b_prev (bufs s b))) s
      in upd_buf (b_prev (bufs s b)) (b_next_update (\<lambda>_. b_next (bufs s b))) s)"

definition brelse :: "nat \<Rightarrow> 'z bst_scheme \<Rightarrow> ('z bst_scheme, unit) outcome" where
  "brelse b s =
     bindK (holdingsleep (SBuf b) s) (\<lambda>h s.
     if \<not> h then Panic ''brelse''
     else
       bindK (releasesleep (SBuf b) s) (\<lambda>_ s.
       bindK (acquire LBcache s) (\<lambda>_ s.
       let s = upd_buf b (b_refcnt_update (\<lambda>r. r - 1)) s;
           s = (if b_refcnt (bufs s b) = 0 then link_front b (brelse_unlink b s) else s)
       in release LBcache s)))"

end
