(* ===== verification/Xv6_Log.thy ===== *)
theory Xv6_Log
  imports Xv6_Bio
begin

unbundle bit_operations_syntax

text \<open>
  The log (src/log.c): the in-memory header, its copy in the first block of the log area, the
  transactions of file-system calls (\<open>begin_op\<close>, \<open>end_op\<close>, \<open>log_write\<close>) and the commit and recovery
  procedures. \<open>readsb\<close> of src/fs.c is here because \<open>initlog\<close> uses it.
\<close>

section \<open>Data\<close>

definition MAXOPBLOCKS :: nat where "MAXOPBLOCKS = 10"
definition LOGSIZE :: nat where "LOGSIZE = MAXOPBLOCKS * 3"

record logheader =
  lh_n :: u32
  lh_block :: "nat \<Rightarrow> u32"

record loginfo =
  lg_start :: u32
  lg_size :: u32
  lg_outstanding :: u32
  lg_committing :: u32
  lg_dev :: u32
  lg_lh :: logheader

record lst = bst +
  lg :: loginfo

definition upd_lg :: "(loginfo \<Rightarrow> loginfo) \<Rightarrow> 'z lst_scheme \<Rightarrow> 'z lst_scheme" where
  "upd_lg f s = s\<lparr>lg := f (lg s)\<rparr>"

definition upd_lh :: "(logheader \<Rightarrow> logheader) \<Rightarrow> 'z lst_scheme \<Rightarrow> 'z lst_scheme" where
  "upd_lh f = upd_lg (\<lambda>l. l\<lparr>lg_lh := f (lg_lh l)\<rparr>)"

text \<open>The number of entries of the in-memory header, as the bound of the loops.\<close>

definition lh_count :: "'z lst_scheme \<Rightarrow> nat" where
  "lh_count s = nat (sint (lh_n (lg_lh (lg s))))"

definition set_data :: "nat \<Rightarrow> bytes \<Rightarrow> 'z bst_scheme \<Rightarrow> 'z bst_scheme" where
  "set_data b d s = upd_buf b (b_data_update (\<lambda>_. d)) s"

record superblock =
  sb_size :: u32
  sb_nblocks :: u32
  sb_ninodes :: u32
  sb_nlog :: u32
  sb_logstart :: u32
  sb_inodestart :: u32
  sb_bmapstart :: u32

definition readsb :: "u32 \<Rightarrow> 'z bst_scheme \<Rightarrow> ('z bst_scheme, superblock) outcome" where
  "readsb dev s =
     bindK (bread dev 1 s) (\<lambda>bp s.
     let d = b_data (bufs s bp);
         sb = \<lparr>sb_size = get32 d 0, sb_nblocks = get32 d 4, sb_ninodes = get32 d 8,
           sb_nlog = get32 d 12, sb_logstart = get32 d 16, sb_inodestart = get32 d 20,
           sb_bmapstart = get32 d 24\<rparr>
     in bindK (brelse bp s) (\<lambda>_ s. Ret sb s))"

section \<open>Commit and recovery\<close>

definition install_trans :: "'z lst_scheme \<Rightarrow> ('z lst_scheme, unit) outcome" where
  "install_trans s =
     for_rangeK 0 (lh_count s) (\<lambda>tail s.
       bindK (bread (lg_dev (lg s)) (lg_start (lg s) + of_nat tail + 1) s) (\<lambda>lbuf s.
       bindK (bread (lg_dev (lg s)) (lh_block (lg_lh (lg s)) tail) s) (\<lambda>dbuf s.
       bindK (bwrite dbuf (set_data dbuf (b_data (bufs s lbuf)) s)) (\<lambda>_ s.
       bindK (brelse lbuf s) (\<lambda>_ s.
       brelse dbuf s))))) s"

text \<open>An entry at or behind \<open>LOGSIZE\<close> is outside \<open>lh.block\<close>.\<close>

definition read_head :: "'z lst_scheme \<Rightarrow> ('z lst_scheme, unit) outcome" where
  "read_head s =
     bindK (bread (lg_dev (lg s)) (lg_start (lg s)) s) (\<lambda>buf s.
     let s = upd_lh (lh_n_update (\<lambda>_. get32 (b_data (bufs s buf)) 0)) s
     in bindK (for_rangeK 0 (lh_count s) (\<lambda>i s.
          if i < LOGSIZE then
            Ret () (upd_lh (lh_block_update (\<lambda>f. f(i := get32 (b_data (bufs s buf)) (4 + 4 * i)))) s)
          else Undef ''lh.block[LOGSIZE]'') s) (\<lambda>_ s.
        brelse buf s))"

definition write_head :: "'z lst_scheme \<Rightarrow> ('z lst_scheme, unit) outcome" where
  "write_head s =
     bindK (bread (lg_dev (lg s)) (lg_start (lg s)) s) (\<lambda>buf s.
     let s = set_data buf (put32 (b_data (bufs s buf)) 0 (lh_n (lg_lh (lg s)))) s
     in bindK (for_rangeK 0 (lh_count s) (\<lambda>i s.
          if i < LOGSIZE then
            Ret () (set_data buf (put32 (b_data (bufs s buf)) (4 + 4 * i) (lh_block (lg_lh (lg s)) i)) s)
          else Undef ''lh.block[LOGSIZE]'') s) (\<lambda>_ s.
        bindK (bwrite buf s) (\<lambda>_ s.
        brelse buf s)))"

definition recover_from_log :: "'z lst_scheme \<Rightarrow> ('z lst_scheme, unit) outcome" where
  "recover_from_log s =
     bindK (read_head s) (\<lambda>_ s.
     bindK (install_trans s) (\<lambda>_ s.
     write_head (upd_lh (lh_n_update (\<lambda>_. 0)) s)))"

definition initlog :: "u32 \<Rightarrow> 'z lst_scheme \<Rightarrow> ('z lst_scheme, unit) outcome" where
  "initlog dev s =
     (if 4 + 4 * LOGSIZE \<ge> BSIZE then Panic ''initlog: too big logheader''
      else
        bindK (readsb dev s) (\<lambda>sb s.
        recover_from_log (upd_lg (\<lambda>l. l\<lparr>lg_start := sb_logstart sb, lg_size := sb_nlog sb, lg_dev := dev\<rparr>) s)))"

definition write_log :: "'z lst_scheme \<Rightarrow> ('z lst_scheme, unit) outcome" where
  "write_log s =
     for_rangeK 0 (lh_count s) (\<lambda>tail s.
       bindK (bread (lg_dev (lg s)) (lg_start (lg s) + of_nat tail + 1) s) (\<lambda>to s.
       bindK (bread (lg_dev (lg s)) (lh_block (lg_lh (lg s)) tail) s) (\<lambda>from s.
       bindK (bwrite to (set_data to (b_data (bufs s from)) s)) (\<lambda>_ s.
       bindK (brelse from s) (\<lambda>_ s.
       brelse to s))))) s"

definition commit :: "'z lst_scheme \<Rightarrow> ('z lst_scheme, unit) outcome" where
  "commit s =
     (if sint (lh_n (lg_lh (lg s))) > 0 then
        bindK (write_log s) (\<lambda>_ s.
        bindK (write_head s) (\<lambda>_ s.
        bindK (install_trans s) (\<lambda>_ s.
        write_head (upd_lh (lh_n_update (\<lambda>_. 0)) s))))
      else Ret () s)"

section \<open>Transactions\<close>

text \<open>The loop of \<open>begin_op\<close>, entered with \<open>log.lock\<close> held.\<close>

definition begin_op_loop :: "'z lst_scheme \<Rightarrow> ('z lst_scheme, unit) outcome" where
  "begin_op_loop s =
     (if lg_committing (lg s) \<noteq> 0 then sleep 0 ChLog LLog s
      else if sint (lh_n (lg_lh (lg s)) + (lg_outstanding (lg s) + 1) * of_nat MAXOPBLOCKS) > int LOGSIZE
      then sleep 0 ChLog LLog s
      else release LLog (upd_lg (\<lambda>l. l\<lparr>lg_outstanding := lg_outstanding l + 1\<rparr>) s))"

definition begin_op :: "'z lst_scheme \<Rightarrow> ('z lst_scheme, unit) outcome" where
  "begin_op s = bindK (acquire LLog s) (\<lambda>_ s. begin_op_loop s)"

definition begin_op_resume :: "'z lst_scheme \<Rightarrow> ('z lst_scheme, unit) outcome" where
  "begin_op_resume s = bindK (sleep_resume LLog s) (\<lambda>_ s. begin_op_loop s)"

text \<open>\<open>end_op\<close> up to the release of the lock; the result is \<open>do_commit\<close>.\<close>

definition end_op_enter :: "'z lst_scheme \<Rightarrow> ('z lst_scheme, bool) outcome" where
  "end_op_enter s =
     bindK (acquire LLog s) (\<lambda>_ s.
     let s = upd_lg (\<lambda>l. l\<lparr>lg_outstanding := lg_outstanding l - 1\<rparr>) s
     in if lg_committing (lg s) \<noteq> 0 then Panic ''log.committing''
        else if lg_outstanding (lg s) = 0 then
          bindK (release LLog (upd_lg (lg_committing_update (\<lambda>_. 1)) s)) (\<lambda>_ s. Ret True s)
        else
          bindK (wakeup ChLog s) (\<lambda>_ s.
          bindK (release LLog s) (\<lambda>_ s. Ret False s)))"

definition end_op :: "'z lst_scheme \<Rightarrow> ('z lst_scheme, unit) outcome" where
  "end_op s =
     bindK (end_op_enter s) (\<lambda>do_commit s.
     if do_commit then
       bindK (commit s) (\<lambda>_ s.
       bindK (acquire LLog s) (\<lambda>_ s.
       bindK (wakeup ChLog (upd_lg (lg_committing_update (\<lambda>_. 0)) s)) (\<lambda>_ s.
       release LLog s)))
     else Ret () s)"

text \<open>The position at which \<open>log_write\<close> stores: an earlier entry for the block, or a new one.\<close>

definition log_slot :: "u32 \<Rightarrow> 'z lst_scheme \<Rightarrow> nat" where
  "log_slot blockno s =
     (case find_from (\<lambda>i. lh_block (lg_lh (lg s)) i = blockno) 0 (lh_count s) of
        Some i \<Rightarrow> i | None \<Rightarrow> lh_count s)"

definition log_write :: "nat \<Rightarrow> 'z lst_scheme \<Rightarrow> ('z lst_scheme, unit) outcome" where
  "log_write b s =
     (if sint (lh_n (lg_lh (lg s))) \<ge> int LOGSIZE
         \<or> sint (lh_n (lg_lh (lg s))) \<ge> sint (lg_size (lg s) - 1)
      then Panic ''too big a transaction''
      else if sint (lg_outstanding (lg s)) < 1 then Panic ''log_write outside of trans''
      else
        bindK (acquire LLog s) (\<lambda>_ s.
        let i = log_slot (b_blockno (bufs s b)) s;
            s = upd_lh (lh_block_update (\<lambda>f. f(i := b_blockno (bufs s b)))) s;
            s = (if of_nat i = lh_n (lg_lh (lg s)) then upd_lh (lh_n_update (\<lambda>n. n + 1)) s else s)
        in release LLog (upd_buf b (b_flags_update (\<lambda>f. f OR B_DIRTY)) s)))"

end
