(* ===== verification/Xv6_Inode.thy ===== *)
theory Xv6_Inode
  imports Xv6_Log Xv6_String
begin

unbundle bit_operations_syntax

text \<open>
  The lower half of the file system (src/fs.c, src/fs.h): the block allocator over the free bitmap,
  the in-memory inode table \<open>icache\<close> with its reference counts, the on-disk inodes, and the map from
  file blocks to disk blocks. A pointer to an inode is its index in \<open>icache\<close>.
\<close>

section \<open>Data\<close>

definition ROOTINO :: u32 where "ROOTINO = 1"
definition ROOTDEV :: u32 where "ROOTDEV = 1"
definition NINODE :: nat where "NINODE = 50"
definition NDIRECT :: nat where "NDIRECT = 12"
definition NINDIRECT :: nat where "NINDIRECT = BSIZE div 4"
definition MAXFILE :: nat where "MAXFILE = NDIRECT + NINDIRECT"
definition DINODE_SIZE :: nat where "DINODE_SIZE = 12 + 4 * (NDIRECT + 1)"
definition IPB :: nat where "IPB = BSIZE div DINODE_SIZE"
definition BPB :: nat where "BPB = BSIZE * 8"
definition T_DIR :: u16 where "T_DIR = 1"
definition T_FILE :: u16 where "T_FILE = 2"
definition T_DEV :: u16 where "T_DEV = 3"

record inode =
  i_dev :: u32
  i_inum :: u32
  i_ref :: u32
  i_valid :: bool
  i_type :: u16
  i_major :: u16
  i_minor :: u16
  i_nlink :: u16
  i_size :: u32
  i_addrs :: "nat \<Rightarrow> u32"

record ist = lst +
  sb :: superblock
  icache :: "nat \<Rightarrow> inode"

definition upd_inode :: "nat \<Rightarrow> (inode \<Rightarrow> inode) \<Rightarrow> 'z ist_scheme \<Rightarrow> 'z ist_scheme" where
  "upd_inode ip f s = s\<lparr>icache := (icache s)(ip := f (icache s ip))\<rparr>"

definition IBLOCK :: "u32 \<Rightarrow> superblock \<Rightarrow> u32" where
  "IBLOCK i b = i div of_nat IPB + sb_inodestart b"

definition BBLOCK :: "u32 \<Rightarrow> superblock \<Rightarrow> u32" where
  "BBLOCK bno b = bno div of_nat BPB + sb_bmapstart b"

section \<open>Blocks\<close>

definition bzero :: "u32 \<Rightarrow> u32 \<Rightarrow> 'z lst_scheme \<Rightarrow> ('z lst_scheme, unit) outcome" where
  "bzero dev bno s =
     bindK (bread dev bno s) (\<lambda>bp s.
     bindK (log_write bp (set_data bp (\<lambda>_. 0) s)) (\<lambda>_ s.
     brelse bp s))"

text \<open>Bit \<open>bi\<close> of a bitmap block.\<close>

definition bm_mask :: "nat \<Rightarrow> u8" where "bm_mask bi = push_bit (bi mod 8) 1"

definition bm_free :: "bytes \<Rightarrow> nat \<Rightarrow> bool" where
  "bm_free d bi \<longleftrightarrow> d (bi div 8) AND bm_mask bi = 0"

definition bm_set :: "bytes \<Rightarrow> nat \<Rightarrow> bytes" where
  "bm_set d bi = d(bi div 8 := d (bi div 8) OR bm_mask bi)"

definition bm_clear :: "bytes \<Rightarrow> nat \<Rightarrow> bytes" where
  "bm_clear d bi = d(bi div 8 := d (bi div 8) AND NOT (bm_mask bi))"

text \<open>The loop of \<open>balloc\<close> over the bitmap blocks, with \<open>k\<close> of them left.\<close>

fun balloc_loop :: "nat \<Rightarrow> u32 \<Rightarrow> nat \<Rightarrow> 'z ist_scheme \<Rightarrow> ('z ist_scheme, u32) outcome" where
  "balloc_loop 0 dev b s = Panic ''balloc: out of blocks''"
| "balloc_loop (Suc k) dev b s =
     bindK (bread dev (BBLOCK (of_nat b) (sb s)) s) (\<lambda>bp s.
     case find_from (bm_free (b_data (bufs s bp))) 0 (min BPB (unat (sb_size (sb s)) - b)) of
       Some bi \<Rightarrow>
         bindK (log_write bp (set_data bp (bm_set (b_data (bufs s bp)) bi) s)) (\<lambda>_ s.
         bindK (brelse bp s) (\<lambda>_ s.
         bindK (bzero dev (of_nat (b + bi)) s) (\<lambda>_ s.
         Ret (of_nat (b + bi)) s)))
     | None \<Rightarrow>
         bindK (brelse bp s) (\<lambda>_ s. balloc_loop k dev (b + BPB) s))"

definition balloc :: "u32 \<Rightarrow> 'z ist_scheme \<Rightarrow> ('z ist_scheme, u32) outcome" where
  "balloc dev s = balloc_loop ((unat (sb_size (sb s)) + BPB - 1) div BPB) dev 0 s"

definition bfree :: "u32 \<Rightarrow> u32 \<Rightarrow> 'z ist_scheme \<Rightarrow> ('z ist_scheme, unit) outcome" where
  "bfree dev b s =
     bindK (bread dev (BBLOCK b (sb s)) s) (\<lambda>bp s.
     let bi = unat b mod BPB; d = b_data (bufs s bp)
     in if bm_free d bi then Panic ''freeing free block''
        else
          bindK (log_write bp (set_data bp (bm_clear d bi) s)) (\<lambda>_ s.
          brelse bp s))"

section \<open>On-disk inodes\<close>

text \<open>Offset of inode \<open>inum\<close> in its block; the fields of \<open>struct dinode\<close> follow in order.\<close>

definition dinode_off :: "u32 \<Rightarrow> nat" where
  "dinode_off inum = (unat inum mod IPB) * DINODE_SIZE"

definition put_dinode :: "nat \<Rightarrow> inode \<Rightarrow> bytes \<Rightarrow> bytes" where
  "put_dinode off ip d =
     (let d = put16 d off (i_type ip);
          d = put16 d (off + 2) (i_major ip);
          d = put16 d (off + 4) (i_minor ip);
          d = put16 d (off + 6) (i_nlink ip);
          d = put32 d (off + 8) (i_size ip)
      in for_range 0 (NDIRECT + 1) (\<lambda>i d. put32 d (off + 12 + 4 * i) (i_addrs ip i)) d)"

definition get_dinode :: "nat \<Rightarrow> bytes \<Rightarrow> inode \<Rightarrow> inode" where
  "get_dinode off d ip =
     ip\<lparr>i_type := get16 d off, i_major := get16 d (off + 2), i_minor := get16 d (off + 4),
        i_nlink := get16 d (off + 6), i_size := get32 d (off + 8),
        i_addrs := (\<lambda>i. if i < NDIRECT + 1 then get32 d (off + 12 + 4 * i) else i_addrs ip i)\<rparr>"

definition iupdate :: "nat \<Rightarrow> 'z ist_scheme \<Rightarrow> ('z ist_scheme, unit) outcome" where
  "iupdate ip s =
     bindK (bread (i_dev (icache s ip)) (IBLOCK (i_inum (icache s ip)) (sb s)) s) (\<lambda>bp s.
     let d = put_dinode (dinode_off (i_inum (icache s ip))) (icache s ip) (b_data (bufs s bp))
     in bindK (log_write bp (set_data bp d s)) (\<lambda>_ s.
        brelse bp s))"

section \<open>The inode table\<close>

definition iget :: "u32 \<Rightarrow> u32 \<Rightarrow> 'z ist_scheme \<Rightarrow> ('z ist_scheme, nat) outcome" where
  "iget dev inum s =
     bindK (acquire LIcache s) (\<lambda>_ s.
     case find_from (\<lambda>i. sint (i_ref (icache s i)) > 0 \<and> i_dev (icache s i) = dev
            \<and> i_inum (icache s i) = inum) 0 NINODE of
       Some ip \<Rightarrow>
         bindK (release LIcache (upd_inode ip (i_ref_update (\<lambda>r. r + 1)) s)) (\<lambda>_ s. Ret ip s)
     | None \<Rightarrow>
         (case find_from (\<lambda>i. i_ref (icache s i) = 0) 0 NINODE of
            None \<Rightarrow> Panic ''iget: no inodes''
          | Some ip \<Rightarrow>
              bindK (release LIcache (upd_inode ip (\<lambda>q. q\<lparr>i_dev := dev, i_inum := inum,
                i_ref := 1, i_valid := False\<rparr>) s)) (\<lambda>_ s. Ret ip s)))"

definition idup :: "nat \<Rightarrow> 'z ist_scheme \<Rightarrow> ('z ist_scheme, nat) outcome" where
  "idup ip s =
     bindK (acquire LIcache s) (\<lambda>_ s.
     bindK (release LIcache (upd_inode ip (i_ref_update (\<lambda>r. r + 1)) s)) (\<lambda>_ s. Ret ip s))"

text \<open>The loop of \<open>ialloc\<close>, with \<open>k\<close> inode numbers left.\<close>

fun ialloc_loop :: "nat \<Rightarrow> u32 \<Rightarrow> u16 \<Rightarrow> u32 \<Rightarrow> 'z ist_scheme \<Rightarrow> ('z ist_scheme, nat) outcome" where
  "ialloc_loop 0 dev type inum s = Panic ''ialloc: no inodes''"
| "ialloc_loop (Suc k) dev type inum s =
     bindK (bread dev (IBLOCK inum (sb s)) s) (\<lambda>bp s.
     let off = dinode_off inum; d = b_data (bufs s bp)
     in if get16 d off = 0 then
          bindK (log_write bp (set_data bp (put16 (fill_bytes d off 0 DINODE_SIZE) off type) s)) (\<lambda>_ s.
          bindK (brelse bp s) (\<lambda>_ s.
          iget dev inum s))
        else
          bindK (brelse bp s) (\<lambda>_ s. ialloc_loop k dev type (inum + 1) s))"

definition ialloc :: "u32 \<Rightarrow> u16 \<Rightarrow> 'z ist_scheme \<Rightarrow> ('z ist_scheme, nat) outcome" where
  "ialloc dev type s = ialloc_loop (unat (sb_ninodes (sb s)) - 1) dev type 1 s"

definition ilock :: "nat \<Rightarrow> 'z ist_scheme \<Rightarrow> ('z ist_scheme, unit) outcome" where
  "ilock ip s =
     (if sint (i_ref (icache s ip)) < 1 then Panic ''ilock''
      else
        bindK (acquiresleep (SInode ip) s) (\<lambda>_ s.
        if i_valid (icache s ip) then Ret () s
        else
          bindK (bread (i_dev (icache s ip)) (IBLOCK (i_inum (icache s ip)) (sb s)) s) (\<lambda>bp s.
          let s = upd_inode ip (get_dinode (dinode_off (i_inum (icache s ip))) (b_data (bufs s bp))) s
          in bindK (brelse bp s) (\<lambda>_ s.
             let s = upd_inode ip (i_valid_update (\<lambda>_. True)) s
             in if i_type (icache s ip) = 0 then Panic ''ilock: no type'' else Ret () s))))"

definition iunlock :: "nat \<Rightarrow> 'z ist_scheme \<Rightarrow> ('z ist_scheme, unit) outcome" where
  "iunlock ip s =
     bindK (holdingsleep (SInode ip) s) (\<lambda>h s.
     if \<not> h \<or> sint (i_ref (icache s ip)) < 1 then Panic ''iunlock''
     else releasesleep (SInode ip) s)"

section \<open>The blocks of a file\<close>

definition bmap :: "nat \<Rightarrow> u32 \<Rightarrow> 'z ist_scheme \<Rightarrow> ('z ist_scheme, u32) outcome" where
  "bmap ip bn s =
     (if unat bn < NDIRECT then
        (let addr = i_addrs (icache s ip) (unat bn)
         in if addr = 0 then
              bindK (balloc (i_dev (icache s ip)) s) (\<lambda>addr s.
              Ret addr (upd_inode ip (i_addrs_update (\<lambda>f. f(unat bn := addr))) s))
            else Ret addr s)
      else
        let bn = unat bn - NDIRECT
        in if bn < NINDIRECT then
             bindK (if i_addrs (icache s ip) NDIRECT = 0 then
                      bindK (balloc (i_dev (icache s ip)) s) (\<lambda>addr s.
                      Ret addr (upd_inode ip (i_addrs_update (\<lambda>f. f(NDIRECT := addr))) s))
                    else Ret (i_addrs (icache s ip) NDIRECT) s) (\<lambda>addr s.
             bindK (bread (i_dev (icache s ip)) addr s) (\<lambda>bp s.
             bindK (if get32 (b_data (bufs s bp)) (4 * bn) = 0 then
                      bindK (balloc (i_dev (icache s ip)) s) (\<lambda>addr s.
                      bindK (log_write bp (set_data bp (put32 (b_data (bufs s bp)) (4 * bn) addr) s)) (\<lambda>_ s.
                      Ret addr s))
                    else Ret (get32 (b_data (bufs s bp)) (4 * bn)) s) (\<lambda>addr s.
             bindK (brelse bp s) (\<lambda>_ s. Ret addr s))))
           else Panic ''bmap: out of range'')"

definition itrunc_indirect :: "nat \<Rightarrow> 'z ist_scheme \<Rightarrow> ('z ist_scheme, unit) outcome" where
  "itrunc_indirect ip s =
     bindK (bread (i_dev (icache s ip)) (i_addrs (icache s ip) NDIRECT) s) (\<lambda>bp s.
     bindK (for_rangeK 0 NINDIRECT (\<lambda>j s.
              let a = get32 (b_data (bufs s bp)) (4 * j)
              in if a \<noteq> 0 then bfree (i_dev (icache s ip)) a s else Ret () s) s) (\<lambda>_ s.
     bindK (brelse bp s) (\<lambda>_ s.
     bindK (bfree (i_dev (icache s ip)) (i_addrs (icache s ip) NDIRECT) s) (\<lambda>_ s.
     Ret () (upd_inode ip (i_addrs_update (\<lambda>f. f(NDIRECT := 0))) s)))))"

definition itrunc :: "nat \<Rightarrow> 'z ist_scheme \<Rightarrow> ('z ist_scheme, unit) outcome" where
  "itrunc ip s =
     bindK (for_rangeK 0 NDIRECT (\<lambda>i s.
              if i_addrs (icache s ip) i \<noteq> 0 then
                bindK (bfree (i_dev (icache s ip)) (i_addrs (icache s ip) i) s) (\<lambda>_ s.
                Ret () (upd_inode ip (i_addrs_update (\<lambda>f. f(i := 0))) s))
              else Ret () s) s) (\<lambda>_ s.
     bindK (if i_addrs (icache s ip) NDIRECT \<noteq> 0 then itrunc_indirect ip s else Ret () s) (\<lambda>_ s.
     iupdate ip (upd_inode ip (i_size_update (\<lambda>_. 0)) s)))"

definition iput :: "nat \<Rightarrow> 'z ist_scheme \<Rightarrow> ('z ist_scheme, unit) outcome" where
  "iput ip s =
     bindK (acquiresleep (SInode ip) s) (\<lambda>_ s.
     bindK (if i_valid (icache s ip) \<and> i_nlink (icache s ip) = 0 then
              bindK (acquire LIcache s) (\<lambda>_ s.
              let r = i_ref (icache s ip)
              in bindK (release LIcache s) (\<lambda>_ s.
                 if r = 1 then
                   bindK (itrunc ip s) (\<lambda>_ s.
                   bindK (iupdate ip (upd_inode ip (i_type_update (\<lambda>_. 0)) s)) (\<lambda>_ s.
                   Ret () (upd_inode ip (i_valid_update (\<lambda>_. False)) s)))
                 else Ret () s))
            else Ret () s) (\<lambda>_ s.
     bindK (releasesleep (SInode ip) s) (\<lambda>_ s.
     bindK (acquire LIcache s) (\<lambda>_ s.
     release LIcache (upd_inode ip (i_ref_update (\<lambda>r. r - 1)) s)))))"

definition iunlockput :: "nat \<Rightarrow> 'z ist_scheme \<Rightarrow> ('z ist_scheme, unit) outcome" where
  "iunlockput ip s = bindK (iunlock ip s) (\<lambda>_ s. iput ip s)"

definition iinit :: "u32 \<Rightarrow> 'z ist_scheme \<Rightarrow> ('z ist_scheme, unit) outcome" where
  "iinit dev s =
     (let s = for_range 0 NINODE (\<lambda>i s. initsleeplock (SInode i) s) s
      in bindK (readsb dev s) (\<lambda>b s.
         cprintf (''sb: size %d nblocks %d ninodes %d nlog %d logstart %d''
            @ '' inodestart %d bmap start %d'' @ newline)
           [AInt (sb_size b), AInt (sb_nblocks b), AInt (sb_ninodes b), AInt (sb_nlog b),
            AInt (sb_logstart b), AInt (sb_inodestart b), AInt (sb_bmapstart b)] (s\<lparr>sb := b\<rparr>)))"

record stat =
  st_type :: u16
  st_dev :: u32
  st_ino :: u32
  st_nlink :: u16
  st_size :: u32

definition stati :: "inode \<Rightarrow> stat" where
  "stati ip = \<lparr>st_type = i_type ip, st_dev = i_dev ip, st_ino = i_inum ip, st_nlink = i_nlink ip,
     st_size = i_size ip\<rparr>"

end
