(* ===== verification/Xv6_Args.thy ===== *)
theory Xv6_Args
  imports Xv6_Sched
begin

unbundle bit_operations_syntax

text \<open>
  Access of the kernel to the memory of the current process through its page table, and the
  fetching of system-call arguments from the user stack (the first part of src/syscall.c).
\<close>

section \<open>Memory that kernel code reads and writes through a pointer\<close>

text \<open>
  A pointer argument of a routine that copies data (\<open>readi\<close>, \<open>writei\<close>, \<open>piperead\<close>, the console)
  is a user address, translated by the page table in \<open>cr3\<close>; a kernel address; or a local variable of
  the caller. The bytes copied into a local variable are handed back to the caller as a value. An
  access to a user page that is not mapped is a page fault in the kernel.
\<close>

datatype mem = MUser u32 | MKern u32 | MLocal bytes

definition user_ka :: "'z vst_scheme \<Rightarrow> u32 \<Rightarrow> u32 option" where
  "user_ka s va =
     map_option (\<lambda>pte. P2V (PTE_ADDR pte) + (va AND 0xFFF)) (pt_lookup (pages s) (P2V (cr3 s)) va)"

definition rd8 :: "u32 \<Rightarrow> 'z kst_scheme \<Rightarrow> u8" where
  "rd8 a s = pages s (frame a) (page_off a)"

definition wr8 :: "u32 \<Rightarrow> u8 \<Rightarrow> 'z kst_scheme \<Rightarrow> 'z kst_scheme" where
  "wr8 a v s = s\<lparr>pages := (pages s)(frame a := (pages s (frame a))(page_off a := v))\<rparr>"

definition load8 :: "mem \<Rightarrow> nat \<Rightarrow> 'z vst_scheme \<Rightarrow> ('z vst_scheme, u8) outcome" where
  "load8 m i s =
     (case m of
        MUser va \<Rightarrow> (case user_ka s (va + of_nat i) of
                       None \<Rightarrow> Undef ''page fault'' | Some a \<Rightarrow> Ret (rd8 a s) s)
      | MKern a \<Rightarrow> Ret (rd8 (a + of_nat i) s) s
      | MLocal d \<Rightarrow> Ret (d i) s)"

definition store8 :: "mem \<Rightarrow> nat \<Rightarrow> u8 \<Rightarrow> 'z vst_scheme \<Rightarrow> ('z vst_scheme, unit) outcome" where
  "store8 m i v s =
     (case m of
        MUser va \<Rightarrow> (case user_ka s (va + of_nat i) of
                       None \<Rightarrow> Undef ''page fault'' | Some a \<Rightarrow> Ret () (wr8 a v s))
      | MKern a \<Rightarrow> Ret () (wr8 (a + of_nat i) v s)
      | MLocal d \<Rightarrow> Ret () s)"

fun load_bytes :: "mem \<Rightarrow> nat \<Rightarrow> nat \<Rightarrow> 'z vst_scheme \<Rightarrow> ('z vst_scheme, u8 list) outcome" where
  "load_bytes m i 0 s = Ret [] s"
| "load_bytes m i (Suc n) s =
     bindK (load8 m i s) (\<lambda>c s. bindK (load_bytes m (Suc i) n s) (\<lambda>cs s. Ret (c # cs) s))"

fun store_bytes :: "mem \<Rightarrow> nat \<Rightarrow> u8 list \<Rightarrow> 'z vst_scheme \<Rightarrow> ('z vst_scheme, unit) outcome" where
  "store_bytes m i [] s = Ret () s"
| "store_bytes m i (c # cs) s = bindK (store8 m i c s) (\<lambda>_ s. store_bytes m (Suc i) cs s)"

section \<open>Arguments of system calls\<close>

text \<open>\<open>None\<close> is the result \<open>-1\<close>; otherwise the value that the code stores through its pointer.\<close>

definition fetchint :: "u32 \<Rightarrow> 'z pst_scheme \<Rightarrow> ('z pst_scheme, u32 option) outcome" where
  "fetchint addr s =
     myprocK s (\<lambda>p.
     if addr \<ge> p_sz (ptable s p) \<or> addr + 4 > p_sz (ptable s p) then Ret None s
     else bindK (load_bytes (MUser addr) 0 4 s) (\<lambda>cs s. Ret (Some (get32 (\<lambda>i. cs ! i) 0)) s))"

text \<open>
  The search for the NUL, with \<open>k\<close> bytes left before the end of the process. The result is the
  string; its length is what the code returns.
\<close>

fun fetchstr_loop :: "u32 \<Rightarrow> nat \<Rightarrow> nat \<Rightarrow> 'z pst_scheme \<Rightarrow> ('z pst_scheme, u8 list option) outcome" where
  "fetchstr_loop addr i 0 s = Ret None s"
| "fetchstr_loop addr i (Suc k) s =
     bindK (load8 (MUser addr) i s) (\<lambda>c s.
     if c = 0 then Ret (Some []) s
     else bindK (fetchstr_loop addr (Suc i) k s) (\<lambda>r s. Ret (map_option ((#) c) r) s))"

definition fetchstr :: "u32 \<Rightarrow> 'z pst_scheme \<Rightarrow> ('z pst_scheme, u8 list option) outcome" where
  "fetchstr addr s =
     myprocK s (\<lambda>p.
     if addr \<ge> p_sz (ptable s p) then Ret None s
     else fetchstr_loop addr 0 (unat (p_sz (ptable s p)) - unat addr) s)"

definition argint :: "nat \<Rightarrow> 'z pst_scheme \<Rightarrow> ('z pst_scheme, u32 option) outcome" where
  "argint n s = myprocK s (\<lambda>p. fetchint (tf_esp (p_tf (ptable s p)) + 4 + 4 * of_nat n) s)"

definition argptr :: "nat \<Rightarrow> u32 \<Rightarrow> 'z pst_scheme \<Rightarrow> ('z pst_scheme, u32 option) outcome" where
  "argptr n sz s =
     bindK (argint n s) (\<lambda>r s.
     case r of
       None \<Rightarrow> Ret None s
     | Some i \<Rightarrow>
         myprocK s (\<lambda>p.
         if sint sz < 0 \<or> i \<ge> p_sz (ptable s p) \<or> i + sz > p_sz (ptable s p) then Ret None s
         else Ret (Some i) s))"

definition argstr :: "nat \<Rightarrow> 'z pst_scheme \<Rightarrow> ('z pst_scheme, u8 list option) outcome" where
  "argstr n s =
     bindK (argint n s) (\<lambda>r s. case r of None \<Rightarrow> Ret None s | Some addr \<Rightarrow> fetchstr addr s)"

section \<open>Memory of the caller\<close>

text \<open>Loads and stores through a pointer depend on physical memory and the page table base only.\<close>

lemma load8_transfer:
  "load8 m i s = Ret c s \<Longrightarrow> pages s' = pages s \<Longrightarrow> cr3 s' = cr3 s \<Longrightarrow> load8 m i s' = Ret c s'"
  by (auto simp: load8_def user_ka_def rd8_def split: mem.splits option.splits)

lemma load8_state: "load8 m i s = Ret c t \<Longrightarrow> t = s"
  by (auto simp: load8_def split: mem.splits option.splits)

lemma load_bytes_nth: "load_bytes m i n s = Ret bs t \<Longrightarrow> t = s \<and> length bs = n \<and> (\<forall>j < n. load8 m (i + j) s = Ret (bs ! j) s)"
proof (induction n arbitrary: i bs t)
  case (Suc n)
  then obtain c s1 cs where c1: "load8 m i s = Ret c s1" "load_bytes m (Suc i) n s1 = Ret cs t" "bs = c # cs"
    by (auto simp: outcome_inv)
  then have c: "load8 m i s = Ret c s" "load_bytes m (Suc i) n s = Ret cs t" "bs = c # cs" using load8_state by blast+
  show ?case using Suc.IH [OF c(2)] c by (auto simp: nth_Cons' less_Suc_eq_0_disj split: nat.splits)
qed auto

lemma store8_transfer:
  assumes "store8 m i v s = Ret () u" "pages s' = pages s" "cr3 s' = cr3 s"
  shows "store8 m i v s' = Ret () (s'\<lparr>pages := pages u\<rparr>)" "cr3 u = cr3 s"
  using assms by (auto simp: store8_def user_ka_def wr8_def split: mem.splits option.splits)

lemma store_bytes_transfer:
  "store_bytes m i cs s = Ret () u \<Longrightarrow> pages s' = pages s \<Longrightarrow> cr3 s' = cr3 s
    \<Longrightarrow> store_bytes m i cs s' = Ret () (s'\<lparr>pages := pages u\<rparr>)"
proof (induction cs arbitrary: i s s')
  case (Cons c cs)
  then obtain t where t: "store8 m i c s = Ret () t" "store_bytes m (Suc i) cs t = Ret () u" by (auto simp: outcome_inv)
  note T = store8_transfer [OF t(1) Cons.prems(2,3)]
  show ?case using T Cons.IH [OF t(2), of "s'\<lparr>pages := pages t\<rparr>"] Cons.prems(3) by simp
qed auto

section \<open>No argument can make the kernel fault\<close>

lemma load8_user: "user_ka s (va + of_nat i) \<noteq> None \<Longrightarrow> \<exists>c. load8 (MUser va) i s = Ret c s"
  by (auto simp: load8_def)

lemma load_bytes_user:
  "\<forall>j < n. user_ka s (va + of_nat (i + j)) \<noteq> None \<Longrightarrow> \<exists>bs. load_bytes (MUser va) i n s = Ret bs s \<and> length bs = n"
proof (induction n arbitrary: i)
  case (Suc n)
  obtain c where c: "load8 (MUser va) i s = Ret c s" using load8_user [of s va i] Suc.prems by force
  have "\<forall>j < n. user_ka s (va + of_nat (Suc i + j)) \<noteq> None" using Suc.prems by (metis Suc_less_eq add_Suc_shift)
  from Suc.IH [OF this] obtain bs where "load_bytes (MUser va) (Suc i) n s = Ret bs s" "length bs = n" by blast
  then show ?case using c by simp
qed simp

text \<open>The addresses below the size of the process, reached from one of them without wrapping around.\<close>

lemma addr_inside:
  fixes a sz :: u32
  assumes "unat a + j < unat sz"
  shows "a + of_nat j < sz" "unat (a + of_nat j) = unat a + j"
proof -
  have "unat sz < 2 ^ 32" by (rule order_less_le_trans [OF unsigned_less]) simp
  then have "unat a + j < 2 ^ 32" using assms by simp
  then show "unat (a + of_nat j) = unat a + j" by (simp add: unat_word_ariths unsigned_of_nat take_bit_nat_eq_self)
  then show "a + of_nat j < sz" using assms by (simp add: word_less_nat_alt)
qed

text \<open>The state of a process whose memory is mapped, as \<open>allocuvm\<close> and \<open>exec\<close> leave it.\<close>

definition user_mapped :: "nat \<Rightarrow> 'z pst_scheme \<Rightarrow> bool" where
  "user_mapped p s \<longleftrightarrow> cur s = Some p \<and> p_sz (ptable s p) \<le> KERNBASE \<and> (\<forall>va < p_sz (ptable s p). user_ka s va \<noteq> None)"

lemma KERNBASE_unat: "sz \<le> KERNBASE \<Longrightarrow> unat sz \<le> 2 ^ 31"
  by (simp add: KERNBASE_def word_le_nat_alt)

lemma unat_below_sint: "0 \<le> sint x \<Longrightarrow> unat x < 2 ^ 31" for x :: u32
proof (rule ccontr)
  assume s: "0 \<le> sint x" and "\<not> unat x < 2 ^ 31"
  then have "int (2 ^ 31) \<le> int (unat x)" by (simp only: of_nat_le_iff linorder_not_less)
  then have u: "2 ^ 31 \<le> uint x" by simp
  have l: "uint x < 2 ^ 32" by (rule order_less_le_trans [OF unsigned_less]) simp
  define y where "y = uint x - 2 ^ 31"
  have y: "uint x + 2 ^ 31 = y + 2 ^ 32" "0 \<le> y" "y < 2 ^ 31" using u l by (simp_all add: y_def)
  have "sint x = (uint x + 2 ^ 31) mod 2 ^ 32 - 2 ^ 31"
    by (simp add: sint_uint signed_take_bit_eq_take_bit_shift take_bit_eq_mod)
  also have "(uint x + 2 ^ 31) mod 2 ^ 32 = y" unfolding y(1) using y(2,3) by simp
  finally show False using s y(3) by simp
qed

lemma fetchint_ok:
  assumes m: "user_mapped p s"
  shows "\<exists>r. fetchint addr s = Ret r s"
proof (cases "addr \<ge> p_sz (ptable s p) \<or> addr + 4 > p_sz (ptable s p)")
  case True
  then show ?thesis using m by (auto simp: fetchint_def user_mapped_def myprocK_def)
next
  case False
  let ?sz = "p_sz (ptable s p)"
  have "unat addr < unat ?sz" "unat ?sz \<le> 2 ^ 31" using False m KERNBASE_unat by (auto simp: word_less_nat_alt word_le_nat_alt user_mapped_def)
  then have "unat (addr + 4) = unat addr + 4" by (simp add: unat_word_ariths)
  then have "unat addr + 4 \<le> unat ?sz" using False by (simp add: word_le_nat_alt linorder_not_less)
  then have "\<forall>j < 4. user_ka s (addr + of_nat (0 + j)) \<noteq> None" using m addr_inside(1) [of addr _ ?sz] by (auto simp: user_mapped_def)
  from load_bytes_user [OF this] obtain bs where "load_bytes (MUser addr) 0 4 s = Ret bs s" by blast
  then show ?thesis using False m by (auto simp: fetchint_def user_mapped_def myprocK_def)
qed

lemma argint_ok: "user_mapped p s \<Longrightarrow> \<exists>r. argint n s = Ret r s"
  using fetchint_ok by (auto simp: argint_def user_mapped_def myprocK_def)

lemma fetchstr_loop_ok:
  assumes m: "user_mapped p s"
  shows "unat addr + i + k \<le> unat (p_sz (ptable s p)) \<Longrightarrow> \<exists>r. fetchstr_loop addr i k s = Ret r s
    \<and> (\<forall>cs. r = Some cs \<longrightarrow> length cs < k \<and> 0 \<notin> set cs \<and> load_bytes (MUser addr) i (Suc (length cs)) s = Ret (cs @ [0]) s)"
proof (induction k arbitrary: i)
  case (Suc k)
  have "unat addr + i < unat (p_sz (ptable s p))" using Suc.prems by simp
  from addr_inside(1) [OF this] obtain c where c: "load8 (MUser addr) i s = Ret c s"
    using load8_user [of s addr i] m by (auto simp: user_mapped_def)
  have "unat addr + Suc i + k \<le> unat (p_sz (ptable s p))" using Suc.prems by simp
  from Suc.IH [OF this] obtain r where r: "fetchstr_loop addr (Suc i) k s = Ret r s"
    "\<forall>cs. r = Some cs \<longrightarrow> length cs < k \<and> 0 \<notin> set cs \<and> load_bytes (MUser addr) (Suc i) (Suc (length cs)) s = Ret (cs @ [0]) s" by blast
  show ?case
  proof (cases "c = 0")
    case True
    then show ?thesis using c by simp
  next
    case False
    then show ?thesis using c r by (cases r) auto
  qed
qed simp

text \<open>C30. Whatever a user program leaves in its registers and on its stack, fetching the arguments of a system
  call comes back without a page fault and changes nothing; a pointer that is accepted with a size designates
  memory of the process, and its end does not wrap around; a string that is accepted lies with its NUL
  inside the process.\<close>

theorem syscall_args_safe:
  assumes "user_mapped p s"
  shows "returns (argint n s) (\<lambda>_ t. t = s)
    \<and> returns (argptr n len s) (\<lambda>r t. t = s \<and> (\<forall>i. r = Some i \<longrightarrow> 0 \<le> sint len \<and> unat i + unat len \<le> unat (p_sz (ptable s p))))
    \<and> returns (argstr n s) (\<lambda>r t. t = s \<and> (\<forall>cs. r = Some cs \<longrightarrow> (\<exists>a. argint n s = Ret (Some a) s
        \<and> unat a + length cs < unat (p_sz (ptable s p)) \<and> 0 \<notin> set cs \<and> load_bytes (MUser a) 0 (Suc (length cs)) s = Ret (cs @ [0]) s)))"
proof -
  let ?sz = "p_sz (ptable s p)"
  have c: "cur s = Some p" "unat ?sz \<le> 2 ^ 31" using assms KERNBASE_unat by (auto simp: user_mapped_def)
  obtain r where r: "argint n s = Ret r s" using argint_ok [OF assms] by blast
  have "unat i + unat len \<le> unat ?sz" if "\<not> (sint len < 0 \<or> i \<ge> ?sz \<or> i + len > ?sz)" for i
  proof -
    have s: "0 \<le> sint len" "unat i < unat ?sz" "unat (i + len) \<le> unat ?sz"
      using that by (auto simp: word_less_nat_alt word_le_nat_alt)
    have "unat len < 2 ^ 31" using s(1) unat_below_sint by blast
    then have "unat (i + len) = unat i + unat len" using s(2) c(2) by (simp add: unat_word_ariths)
    then show ?thesis using s(3) by simp
  qed
  then have "returns (argptr n len s) (\<lambda>r t. t = s \<and> (\<forall>i. r = Some i \<longrightarrow> 0 \<le> sint len \<and> unat i + unat len \<le> unat ?sz))"
    using r c(1) by (auto simp: argptr_def myprocK_def split: option.split)
  moreover have "returns (argstr n s) (\<lambda>r t. t = s \<and> (\<forall>cs. r = Some cs \<longrightarrow> (\<exists>a. argint n s = Ret (Some a) s
        \<and> unat a + length cs < unat ?sz \<and> 0 \<notin> set cs \<and> load_bytes (MUser a) 0 (Suc (length cs)) s = Ret (cs @ [0]) s)))"
  proof (cases "\<exists>a. r = Some a \<and> a < ?sz")
    case True
    then obtain a where a: "r = Some a" "unat a < unat ?sz" by (auto simp: word_less_nat_alt)
    then have "unat a + 0 + (unat ?sz - unat a) \<le> unat ?sz" by simp
    from fetchstr_loop_ok [OF assms this] obtain q where q: "fetchstr_loop a 0 (unat ?sz - unat a) s = Ret q s"
      "\<forall>cs. q = Some cs \<longrightarrow> length cs < unat ?sz - unat a \<and> 0 \<notin> set cs \<and> load_bytes (MUser a) 0 (Suc (length cs)) s = Ret (cs @ [0]) s"
      by blast
    then show ?thesis using a r c(1) by (auto simp: argstr_def fetchstr_def myprocK_def word_le_nat_alt)
  qed (use r c(1) in \<open>auto simp: argstr_def fetchstr_def myprocK_def split: option.split\<close>)
  ultimately show ?thesis using r by simp
qed

text \<open>A process of two pages; every entry of its page tables designates the first page frame.\<close>

definition args_pst :: pst where
  "args_pst = boot_pst\<lparr>pages := (\<lambda>_ i. if i mod 4 = 0 then 7 else 0), cur := Some 0,
     ptable := (\<lambda>_. no_proc)(0 := no_proc\<lparr>p_sz := 0x2000, p_tf := zero_tf\<lparr>tf_esp := 0x100\<rparr>\<rparr>)\<rparr>"

lemma sevens: "get32 (\<lambda>i. if i mod 4 = 0 then 7 else 0) (4 * k) = 7"
  by (simp add: get32_def mod_Suc)

lemma args_mapped: "user_mapped 0 args_pst"
  by (simp add: user_mapped_def args_pst_def KERNBASE_def user_ka_def pt_lookup_def pde_of_def pgtab_of_def present_def PTE_P_def sevens)

theorem syscall_args_safe_witness:
  "returns (argptr 0 0x1000 args_pst) (\<lambda>r t. t = args_pst \<and> (case r of None \<Rightarrow> True | Some i \<Rightarrow> unat i + 0x1000 \<le> 0x2000))"
proof -
  have "p_sz (ptable args_pst 0) = 0x2000" by (simp add: args_pst_def)
  then show ?thesis
    by (intro returns_mono [OF conjunct1 [OF conjunct2 [OF syscall_args_safe [OF args_mapped, of 0 "0x1000"]]]])
      (auto split: option.split)
qed

end
