(* ===== verification/Xv6_Proc_Debug.thy ===== *)
theory Xv6_Proc_Debug
  imports Xv6_Sched
begin

unbundle bit_operations_syntax

text \<open>
  The printing operations of src/proc.c: the listing behind control-P (\<open>procdump\<close>) and the system
  calls that print (\<open>count_num_of_digits\<close>, \<open>print_syscalls\<close>, \<open>read_registers\<close>, \<open>ps\<close>).
\<close>

abbreviation tab :: string where "tab \<equiv> [CHR 0x09]"

text \<open>\<open>p->name\<close> as an argument of \<open>cprintf\<close>: the characters before the NUL in its 16 bytes.\<close>

definition nameK :: "bytes \<Rightarrow> (carg \<Rightarrow> ('s, 'a) outcome) \<Rightarrow> ('s, 'a) outcome" where
  "nameK nm f =
     (case find_from (\<lambda>i. nm i = 0) 0 16 of
        None \<Rightarrow> Undef ''name without NUL''
      | Some k \<Rightarrow> f (AStr (Some (map (\<lambda>i. char_of (unat (nm i))) [0..<k]))))"

section \<open>procdump\<close>

definition states :: "procstate \<Rightarrow> string" where
  "states st = (case st of UNUSED \<Rightarrow> ''unused'' | EMBRYO \<Rightarrow> ''embryo'' | SLEEPING \<Rightarrow> ''sleep ''
     | RUNNABLE \<Rightarrow> ''runble'' | RUNNING \<Rightarrow> ''run   '' | ZOMBIE \<Rightarrow> ''zombie'')"

fun procdump_pcs :: "u32 list \<Rightarrow> 'z cst_scheme \<Rightarrow> ('z cst_scheme, unit) outcome" where
  "procdump_pcs [] s = Ret () s"
| "procdump_pcs (pc # pcs) s =
     (if pc = 0 then Ret () s
      else bindK (cprintf '' %p'' [AInt pc] s) (\<lambda>_ s. procdump_pcs pcs s))"

definition procdump_proc :: "nat \<Rightarrow> 'z pst_scheme \<Rightarrow> ('z pst_scheme, unit) outcome" where
  "procdump_proc i s =
     (let p = ptable s i
      in if p_state p = UNUSED then Ret () s
         else
           nameK (p_name p) (\<lambda>nm.
           bindK (cprintf ''%d %s %s'' [AInt (p_pid p), AStr (Some (states (p_state p))), nm] s) (\<lambda>_ s.
           bindK (if p_state p = SLEEPING
                  then procdump_pcs (getcallerpcs (\<lambda>a. rd32 a s) (ctx_ebp (p_context p) + 8)) s
                  else Ret () s) (\<lambda>_ s.
           cprintf newline [] s))))"

definition procdump :: "'z pst_scheme \<Rightarrow> ('z pst_scheme, unit) outcome" where
  "procdump s = for_rangeK 0 NPROC procdump_proc s"

section \<open>System calls that print\<close>

fun count_loop :: "nat \<Rightarrow> nat" where
  "count_loop n = (if n > 0 then 1 + count_loop (n div 10) else 0)"

declare count_loop.simps [simp del]

definition count_num_of_digits :: "'z pst_scheme \<Rightarrow> ('z pst_scheme, u32) outcome" where
  "count_num_of_digits s =
     myprocK s (\<lambda>p.
     let n = tf_ebx (p_tf (ptable s p));
         count = of_nat (count_loop (nat (sint n)))
     in bindK (cprintf (''count of number %d digits: %d '' @ newline) [AInt n, AInt count] s) (\<lambda>_ s.
        Ret count s))"

definition syscall_names :: "string list" where
  "syscall_names = [[], ''fork'', ''exit'', ''wait'', ''pipe'', ''read'', ''kill'', ''exec'', ''fstat'',
     ''chdir'', ''dup'', ''getpid'', ''sbrk'', ''sleep'', ''uptime'', ''open'', ''write'', ''mknod'',
     ''unlink'', ''link'', ''mkdir'', ''close'', ''count_num_of_digits'', ''set_alarm'',
     ''print_syscalls'', ''set_edx'', ''read_registers'']"

text \<open>The loop over the log of one process; an index behind the last name leaves the array.\<close>

fun print_log :: "nat \<Rightarrow> nat \<Rightarrow> (nat \<Rightarrow> sysclog) \<Rightarrow> 'z cst_scheme \<Rightarrow> ('z cst_scheme, unit) outcome" where
  "print_log j 0 l s = Ret () s"
| "print_log j (Suc k) l s =
     (let c = callno (l j); fmt = tab @ ''%s:'' @ tab @ ''%d'' @ newline
      in if c = 0 then Ret () s
         else if unat c > length syscall_names then
           bindK (cprintf fmt [AStr (Some ''unknown''), AInt (retval (l j))] s) (\<lambda>_ s.
           print_log (Suc j) k l s)
         else if unat c < length syscall_names then
           bindK (cprintf fmt [AStr (Some (syscall_names ! unat c)), AInt (retval (l j))] s) (\<lambda>_ s.
           print_log (Suc j) k l s)
         else Undef ''names[27]'')"

definition print_proc_log :: "proc \<Rightarrow> 'z cst_scheme \<Rightarrow> ('z cst_scheme, unit) outcome" where
  "print_proc_log p s =
     (if p_pid p = 0 then Ret () s
      else
        bindK (cprintf (''Proc %d'' @ newline) [AInt (p_pid p)] s) (\<lambda>_ s.
        print_log 0 NLOGPAIR (p_sysclog p) s))"

definition print_syscalls :: "'z pst_scheme \<Rightarrow> ('z pst_scheme, u32) outcome" where
  "print_syscalls s =
     bindK (acquire LPtable s) (\<lambda>_ s.
     bindK (for_rangeK 0 NPROC (\<lambda>i s. print_proc_log (ptable s i) s) s) (\<lambda>_ s.
     bindK (release LPtable s) (\<lambda>_ s.
     bindK (cprintf (''Terminated Processes: '' @ newline) [] s) (\<lambda>_ s.
     bindK (acquire LPptable s) (\<lambda>_ s.
     bindK (for_rangeK 0 NPROC (\<lambda>i s. print_proc_log (pptable s i) s) s) (\<lambda>_ s.
     bindK (release LPptable s) (\<lambda>_ s. Ret 23 s)))))))"

definition reg_fmt :: "string \<Rightarrow> string" where
  "reg_fmt r = [CHR 0x1B] @ ''[32m'' @ r @ [CHR 0x1B] @ ''[37m:  '' @ [CHR 0x1B] @ ''[36m0x%x''
     @ [CHR 0x1B] @ ''[0m'' @ newline"

fun print_regs :: "(string \<times> u32) list \<Rightarrow> 'z cst_scheme \<Rightarrow> ('z cst_scheme, unit) outcome" where
  "print_regs [] s = Ret () s"
| "print_regs ((r, v) # rs) s = bindK (cprintf (reg_fmt r) [AInt v] s) (\<lambda>_ s. print_regs rs s)"

definition read_registers :: "'z pst_scheme \<Rightarrow> ('z pst_scheme, u32) outcome" where
  "read_registers s =
     bindK (acquire LPtable s) (\<lambda>_ s.
     myprocK s (\<lambda>p.
     let tf = p_tf (ptable s p)
     in bindK (print_regs [(''EAX'', tf_eax tf), (''EBX'', tf_ebx tf), (''ECX'', tf_ecx tf),
          (''EDX'', tf_edx tf), (''ESI'', tf_esi tf), (''EDI'', tf_edi tf), (''EBP'', tf_ebp tf),
          (''ESP'', tf_esp tf), (''EIP'', tf_eip tf), (''EFLAGS'', tf_eflags tf),
          (''SS'', ucast (tf_ss tf)), (''DS'', ucast (tf_ds tf)), (''ES'', ucast (tf_es tf)),
          (''FS'', ucast (tf_fs tf)), (''GS'', ucast (tf_gs tf))] s) (\<lambda>_ s.
        bindK (release LPtable s) (\<lambda>_ s. Ret 26 s))))"

definition ps_state :: "procstate \<Rightarrow> string" where
  "ps_state st = (case st of UNUSED \<Rightarrow> ''UNUSED'' | EMBRYO \<Rightarrow> ''EMBRYO'' | SLEEPING \<Rightarrow> ''SLEEPING''
     | RUNNABLE \<Rightarrow> ''RUNNABLE'' | RUNNING \<Rightarrow> ''RUNNING'' | ZOMBIE \<Rightarrow> ''ZOMBIE'')"

definition ps_proc :: "nat \<Rightarrow> 'z pst_scheme \<Rightarrow> ('z pst_scheme, unit) outcome" where
  "ps_proc i s =
     (let p = ptable s i
      in if p_pid p = 0 then Ret () s
         else if unat (p_priority p) < 3 then
           nameK (p_name p) (\<lambda>nm.
           cprintf (''%s '' @ tab @ '' %d '' @ tab @ '' %s '' @ tab @ '' %s '' @ tab @ tab @ '' %d ''
               @ tab @ '' '' @ newline)
             [nm, AInt (p_pid p), AStr (Some (ps_state (p_state p))),
              AStr (Some ([''1'', ''2'', ''3''] ! unat (p_priority p))), AInt (p_arrival_time p)] s)
         else Undef ''priority[3]'')"

definition ps :: "'z pst_scheme \<Rightarrow> ('z pst_scheme, u32) outcome" where
  "ps s =
     bindK (acquire LPtable s) (\<lambda>_ s.
     bindK (cprintf (''name '' @ tab @ '' pid '' @ tab @ '' state '' @ tab @ tab @ '' priority '' @ tab
         @ '' create time '' @ tab @ '' '' @ newline) [] s) (\<lambda>_ s.
     bindK (for_rangeK 0 NPROC ps_proc s) (\<lambda>_ s.
     bindK (release LPtable s) (\<lambda>_ s. Ret 27 s))))"

end
