(* ===== verification/Xv6_Console_In.thy ===== *)
theory Xv6_Console_In
  imports Xv6_Inode Xv6_Args Xv6_Proc_Debug
begin

unbundle bit_operations_syntax

text \<open>
  Console input (src/console.c): the edited line in the ring \<open>input\<close>, the history of commands behind
  the tab key, the interrupt handler \<open>consoleintr\<close>, and the device functions \<open>consoleread\<close> and
  \<open>consolewrite\<close>. A character is a natural number below 256, as \<open>getc\<close> returns it.

  \<open>tabhandler\<close> and the history use the indices \<open>input.r\<close> and \<open>input.e\<close> without reducing them modulo
  \<open>INPUT_BUF\<close>; an access behind the end of the array is \<open>Undef\<close>.
\<close>

section \<open>Data\<close>

definition INPUT_BUF :: nat where "INPUT_BUF = 128"
definition HIS_SIZE :: nat where "HIS_SIZE = 10"
definition NDEV :: nat where "NDEV = 10"
definition CONSOLE :: nat where "CONSOLE = 1"

record inputbuf =
  in_buf :: bytes
  in_r :: u32
  in_w :: u32
  in_e :: u32

record history =
  hs_command :: "nat \<Rightarrow> bytes"
  hs_size :: "nat \<Rightarrow> u32"
  hs_index :: u32

text \<open>
  \<open>devsw_read m\<close> and \<open>devsw_write m\<close> say whether the entry of major device \<open>m\<close> is set. The only
  functions that the kernel ever stores there are \<open>consoleread\<close> and \<open>consolewrite\<close>.
\<close>

record xst = ist +
  input :: inputbuf
  history :: history
  devsw_read :: "nat \<Rightarrow> bool"
  devsw_write :: "nat \<Rightarrow> bool"

definition upd_input :: "(inputbuf \<Rightarrow> inputbuf) \<Rightarrow> 'z xst_scheme \<Rightarrow> 'z xst_scheme" where
  "upd_input f s = s\<lparr>input := f (input s)\<rparr>"

definition in_at :: "u32 \<Rightarrow> inputbuf \<Rightarrow> u8" where
  "in_at i b = in_buf b (unat i mod INPUT_BUF)"

section \<open>History\<close>

text \<open>\<open>strncmp(...) == 0\<close> on two arrays of \<open>INPUT_BUF\<close> bytes; \<open>None\<close> is a read behind the end.\<close>

fun tab_strncmp :: "bytes \<Rightarrow> nat \<Rightarrow> bytes \<Rightarrow> nat \<Rightarrow> nat \<Rightarrow> bool option" where
  "tab_strncmp x p y q 0 = Some True"
| "tab_strncmp x p y q (Suc n) =
     (if p \<ge> INPUT_BUF \<or> q \<ge> INPUT_BUF then None
      else if x p \<noteq> 0 \<and> x p = y q then tab_strncmp x (p + 1) y (q + 1) n
      else Some (x p = y q))"

fun tab_insert :: "bytes \<Rightarrow> nat \<Rightarrow> nat \<Rightarrow> 'z xst_scheme \<Rightarrow> ('z xst_scheme, unit) outcome" where
  "tab_insert cmd j 0 s = Ret () s"
| "tab_insert cmd j (Suc k) s =
     (if j \<ge> INPUT_BUF then Undef ''history.command''
      else
        bindK (consputc (unat (cmd j)) s) (\<lambda>_ s.
        let e = unat (in_e (input s))
        in if e \<ge> INPUT_BUF then Undef ''input.buf''
           else tab_insert cmd (j + 1) k
             (upd_input (\<lambda>b. b\<lparr>in_buf := (in_buf b)(e := cmd j), in_e := in_e b + 1\<rparr>) s)))"

fun tab_loop :: "nat \<Rightarrow> nat \<Rightarrow> 'z xst_scheme \<Rightarrow> ('z xst_scheme, unit) outcome" where
  "tab_loop i 0 s = Ret () s"
| "tab_loop i (Suc k) s =
     (let wlen = unat (in_e (input s) - in_r (input s));
          index = unat (hs_index (history s) - of_nat i) mod HIS_SIZE;
          cmd = hs_command (history s) index
      in case tab_strncmp (in_buf (input s)) (unat (in_r (input s))) cmd 0 wlen of
           None \<Rightarrow> Undef ''input.buf''
         | Some True \<Rightarrow> tab_insert cmd wlen (unat (hs_size (history s) index) - wlen) s
         | Some False \<Rightarrow> tab_loop (i + 1) k s)"

definition tabhandler :: "'z xst_scheme \<Rightarrow> ('z xst_scheme, unit) outcome" where
  "tabhandler s = tab_loop 0 HIS_SIZE s"

text \<open>\<open>strncpy\<close> from \<open>input.buf\<close> at position \<open>p\<close>; \<open>None\<close> is a read behind its end.\<close>

fun hist_copy :: "bytes \<Rightarrow> nat \<Rightarrow> nat \<Rightarrow> nat \<Rightarrow> bytes \<Rightarrow> bytes option" where
  "hist_copy src p q 0 dst = Some dst"
| "hist_copy src p q (Suc n) dst =
     (if p \<ge> INPUT_BUF then None
      else if src p \<noteq> 0 then hist_copy src (p + 1) (q + 1) n (dst(q := src p))
      else Some (strncpy_pad (dst(q := 0)) (q + 1) n))"

definition history_add :: "'z xst_scheme \<Rightarrow> ('z xst_scheme, unit) outcome" where
  "history_add s =
     (let sz = in_e (input s) - in_r (input s) - 1;
          k = unat (hs_index (history s))
      in case hist_copy (in_buf (input s)) (unat (in_r (input s))) 0 (nat (sint sz))
             (hs_command (history s) k) of
           None \<Rightarrow> Undef ''input.buf''
         | Some cmd \<Rightarrow>
             Ret () (s\<lparr>history := \<lparr>hs_command = (hs_command (history s))(k := cmd),
               hs_size = (hs_size (history s))(k := sz),
               hs_index = of_nat ((k + 1) mod HIS_SIZE)\<rparr>\<rparr>))"

section \<open>The interrupt handler\<close>

text \<open>
  \<open>while(input.e != input.w && ...)\<close>: the loop of the kill-line and clear keys. \<open>k\<close> is
  \<open>input.e - input.w\<close>, which every round decreases by one.
\<close>

fun kill_line :: "nat \<Rightarrow> 'z xst_scheme \<Rightarrow> ('z xst_scheme, unit) outcome" where
  "kill_line 0 s = Ret () s"
| "kill_line (Suc k) s =
     (if in_at (in_e (input s) - 1) (input s) \<noteq> 10 then
        bindK (consputc BACKSPACE (upd_input (\<lambda>b. b\<lparr>in_e := in_e b - 1\<rparr>) s)) (\<lambda>_ s. kill_line k s)
      else Ret () s)"

definition input_pending :: "'z xst_scheme \<Rightarrow> nat" where
  "input_pending s = unat (in_e (input s) - in_w (input s))"

definition consoleintr_default :: "nat \<Rightarrow> 'z xst_scheme \<Rightarrow> ('z xst_scheme, unit) outcome" where
  "consoleintr_default c s =
     (if c \<noteq> 0 \<and> in_e (input s) - in_r (input s) < of_nat INPUT_BUF then
        let c = (if c = 13 then 10 else c);
            s = upd_input (\<lambda>b. b\<lparr>in_buf := (in_buf b)(unat (in_e b) mod INPUT_BUF := of_nat c),
                  in_e := in_e b + 1\<rparr>) s
        in bindK (consputc c s) (\<lambda>_ s.
           bindK (if c = 10 then history_add s else Ret () s) (\<lambda>_ s.
           if c = 10 \<or> c = ctl (CHR ''D'') \<or> in_e (input s) = in_r (input s) + of_nat INPUT_BUF
           then wakeup ChInput (upd_input (\<lambda>b. b\<lparr>in_w := in_e b\<rparr>) s)
           else Ret () s))
      else Ret () s)"

definition consoleintr_key :: "nat \<Rightarrow> 'z xst_scheme \<Rightarrow> ('z xst_scheme, unit) outcome" where
  "consoleintr_key c s =
     (if c = ctl (CHR ''U'') then kill_line (input_pending s) s
      else if c = ctl (CHR ''H'') \<or> c = 0x7F then
        (if in_e (input s) \<noteq> in_w (input s)
         then consputc BACKSPACE (upd_input (\<lambda>b. b\<lparr>in_e := in_e b - 1\<rparr>) s)
         else Ret () s)
      else if c = ctl (CHR ''R'') then
        bindK (kill_line (input_pending s) s) (\<lambda>_ s.
        bindK (consputc c s) (\<lambda>_ s.
        bindK (consputc 36 s) (\<lambda>_ s.
        consputc 32 s)))
      else if c = 9 then tabhandler s
      else consoleintr_default c s)"

text \<open>The argument list holds what successive calls of \<open>getc\<close> return before it has nothing more.\<close>

fun consoleintr_loop :: "nat list \<Rightarrow> bool \<Rightarrow> 'z xst_scheme \<Rightarrow> ('z xst_scheme, bool) outcome" where
  "consoleintr_loop [] doprocdump s = Ret doprocdump s"
| "consoleintr_loop (c # cs) doprocdump s =
     (if c = ctl (CHR ''P'') then consoleintr_loop cs True s
      else bindK (consoleintr_key c s) (\<lambda>_ s. consoleintr_loop cs doprocdump s))"

definition consoleintr :: "nat list \<Rightarrow> 'z xst_scheme \<Rightarrow> ('z xst_scheme, unit) outcome" where
  "consoleintr cs s =
     bindK (acquire LCons s) (\<lambda>_ s.
     bindK (consoleintr_loop cs False s) (\<lambda>doprocdump s.
     bindK (release LCons s) (\<lambda>_ s.
     if doprocdump then procdump s else Ret () s)))"

section \<open>The device functions\<close>

text \<open>
  The loop of \<open>consoleread\<close> with \<open>n\<close> bytes still wanted. \<open>None\<close> means that the process was killed;
  otherwise the result is the final \<open>n\<close>. When the thread sleeps, \<open>n\<close> stays in its frame.
\<close>

fun consoleread_loop :: "mem \<Rightarrow> nat \<Rightarrow> nat \<Rightarrow> 'z xst_scheme \<Rightarrow> ('z xst_scheme, nat option) outcome" where
  "consoleread_loop dst target 0 s = Ret (Some 0) s"
| "consoleread_loop dst target (Suc n) s =
     (if in_r (input s) = in_w (input s) then
        myprocK s (\<lambda>p. if p_killed (ptable s p) then Ret None s else sleep (Suc n) ChInput LCons s)
      else
        let c = in_at (in_r (input s)) (input s);
            s' = upd_input (\<lambda>b. b\<lparr>in_r := in_r b + 1\<rparr>) s
        in if unat c = ctl (CHR ''D'') then
             (if Suc n < target then Ret (Some (Suc n)) s else Ret (Some (Suc n)) s')
           else
             bindK (store8 dst (target - Suc n) c s') (\<lambda>_ s.
             if c = 10 then Ret (Some n) s else consoleread_loop dst target n s))"

definition consoleread_end :: "nat \<Rightarrow> nat \<Rightarrow> nat option \<Rightarrow> 'z xst_scheme \<Rightarrow> ('z xst_scheme, int) outcome" where
  "consoleread_end ip target r s =
     bindK (release LCons s) (\<lambda>_ s.
     bindK (ilock ip s) (\<lambda>_ s.
     Ret (case r of None \<Rightarrow> - 1 | Some n \<Rightarrow> int target - int n) s))"

definition consoleread :: "nat \<Rightarrow> mem \<Rightarrow> u32 \<Rightarrow> 'z xst_scheme \<Rightarrow> ('z xst_scheme, int) outcome" where
  "consoleread ip dst n s =
     bindK (iunlock ip s) (\<lambda>_ s.
     bindK (acquire LCons s) (\<lambda>_ s.
     bindK (consoleread_loop dst (nat (sint n)) (nat (sint n)) s) (\<lambda>r s.
     consoleread_end ip (nat (sint n)) r s)))"

definition consoleread_resume ::
  "nat \<Rightarrow> mem \<Rightarrow> u32 \<Rightarrow> nat \<Rightarrow> 'z xst_scheme \<Rightarrow> ('z xst_scheme, int) outcome" where
  "consoleread_resume ip dst n k s =
     bindK (sleep_resume LCons s) (\<lambda>_ s.
     bindK (consoleread_loop dst (nat (sint n)) k s) (\<lambda>r s.
     consoleread_end ip (nat (sint n)) r s))"

definition consolewrite :: "nat \<Rightarrow> mem \<Rightarrow> u32 \<Rightarrow> 'z xst_scheme \<Rightarrow> ('z xst_scheme, int) outcome" where
  "consolewrite ip buf n s =
     bindK (iunlock ip s) (\<lambda>_ s.
     bindK (acquire LCons s) (\<lambda>_ s.
     bindK (for_rangeK 0 (nat (sint n)) (\<lambda>i s.
              bindK (load8 buf i s) (\<lambda>c s. consputc (unat c) s)) s) (\<lambda>_ s.
     bindK (release LCons s) (\<lambda>_ s.
     bindK (ilock ip s) (\<lambda>_ s. Ret (sint n) s)))))"

definition consoleinit :: "'z xst_scheme \<Rightarrow> 'z xst_scheme" where
  "consoleinit s =
     s\<lparr>devsw_write := (devsw_write s)(CONSOLE := True), devsw_read := (devsw_read s)(CONSOLE := True),
       cons_locking := True\<rparr>"

end
