(* ===== verification/Xv6_Fs.thy ===== *)
theory Xv6_Fs
  imports Xv6_Console_In
begin

unbundle bit_operations_syntax

text \<open>
  The upper half of the file system (src/fs.c): reading and writing the contents of an inode,
  directories, and path names. A path is the list of its characters before the NUL. A name is a byte
  array of \<open>DIRSIZ\<close> bytes that need not end with a NUL.
\<close>

section \<open>Contents of an inode\<close>

function readi_loop ::
  "nat \<Rightarrow> mem \<Rightarrow> nat \<Rightarrow> u32 \<Rightarrow> nat \<Rightarrow> 'z xst_scheme \<Rightarrow> ('z xst_scheme, u8 list) outcome" where
  "readi_loop ip dst tot off 0 s = Ret [] s"
| "readi_loop ip dst tot off (Suc left) s =
     bindK (bmap ip (off div of_nat BSIZE) s) (\<lambda>addr s.
     bindK (bread (i_dev (icache s ip)) addr s) (\<lambda>bp s.
     let o1 = unat off mod BSIZE; m = min (Suc left) (BSIZE - o1);
         cs = map (b_data (bufs s bp)) [o1..<o1 + m]
     in bindK (store_bytes dst tot cs s) (\<lambda>_ s.
        bindK (brelse bp s) (\<lambda>_ s.
        bindK (readi_loop ip dst (tot + m) (off + of_nat m) (Suc left - m) s) (\<lambda>ds s.
        Ret (cs @ ds) s)))))"
  by pat_completeness auto
termination
  by (relation "measure (\<lambda>(ip, dst, tot, off, left, s). left)") (auto simp: BSIZE_def)

text \<open>The result is the value returned and the bytes copied to \<open>dst\<close>.\<close>

definition readi ::
  "nat \<Rightarrow> mem \<Rightarrow> u32 \<Rightarrow> u32 \<Rightarrow> 'z xst_scheme \<Rightarrow> ('z xst_scheme, int \<times> u8 list) outcome" where
  "readi ip dst off n s =
     (if i_type (icache s ip) = T_DEV then
        (let major = sint (i_major (icache s ip))
         in if major < 0 \<or> major \<ge> int NDEV \<or> \<not> devsw_read s (nat major) then Ret (- 1, []) s
            else bindK (consoleread ip dst n s) (\<lambda>r s. Ret (r, []) s))
      else if off > i_size (icache s ip) \<or> off + n < off then Ret (- 1, []) s
      else
        let n = (if off + n > i_size (icache s ip) then i_size (icache s ip) - off else n)
        in bindK (readi_loop ip dst 0 off (unat n) s) (\<lambda>cs s. Ret (sint n, cs) s))"

function writei_loop ::
  "nat \<Rightarrow> mem \<Rightarrow> nat \<Rightarrow> u32 \<Rightarrow> nat \<Rightarrow> 'z xst_scheme \<Rightarrow> ('z xst_scheme, u32) outcome" where
  "writei_loop ip src tot off 0 s = Ret off s"
| "writei_loop ip src tot off (Suc left) s =
     bindK (bmap ip (off div of_nat BSIZE) s) (\<lambda>addr s.
     bindK (bread (i_dev (icache s ip)) addr s) (\<lambda>bp s.
     let o1 = unat off mod BSIZE; m = min (Suc left) (BSIZE - o1)
     in bindK (load_bytes src tot m s) (\<lambda>cs s.
        bindK (log_write bp (set_data bp (overlay o1 cs (b_data (bufs s bp))) s)) (\<lambda>_ s.
        bindK (brelse bp s) (\<lambda>_ s.
        writei_loop ip src (tot + m) (off + of_nat m) (Suc left - m) s)))))"
  by pat_completeness auto
termination
  by (relation "measure (\<lambda>(ip, src, tot, off, left, s). left)") (auto simp: BSIZE_def)

definition writei :: "nat \<Rightarrow> mem \<Rightarrow> u32 \<Rightarrow> u32 \<Rightarrow> 'z xst_scheme \<Rightarrow> ('z xst_scheme, int) outcome" where
  "writei ip src off n s =
     (if i_type (icache s ip) = T_DEV then
        (let major = sint (i_major (icache s ip))
         in if major < 0 \<or> major \<ge> int NDEV \<or> \<not> devsw_write s (nat major) then Ret (- 1) s
            else consolewrite ip src n s)
      else if off > i_size (icache s ip) \<or> off + n < off then Ret (- 1) s
      else if off + n > of_nat (MAXFILE * BSIZE) then Ret (- 1) s
      else
        bindK (writei_loop ip src 0 off (unat n) s) (\<lambda>off s.
        if n > 0 \<and> off > i_size (icache s ip) then
          bindK (iupdate ip (upd_inode ip (i_size_update (\<lambda>_. off)) s)) (\<lambda>_ s. Ret (sint n) s)
        else Ret (sint n) s))"

section \<open>Directories\<close>

definition DIRSIZ :: nat where "DIRSIZ = 14"
definition DIRENT_SIZE :: nat where "DIRENT_SIZE = 2 + DIRSIZ"

text \<open>Two separate byte arrays in one memory, the second behind the \<open>n\<close> bytes of the first.\<close>

definition beside :: "nat \<Rightarrow> bytes \<Rightarrow> bytes \<Rightarrow> bytes" where
  "beside n x y = (\<lambda>i. if i < n then x i else y (i - n))"

definition namecmp :: "bytes \<Rightarrow> bytes \<Rightarrow> int" where
  "namecmp s t = strncmp (beside DIRSIZ s t) 0 DIRSIZ DIRSIZ"

definition de_inum :: "u8 list \<Rightarrow> u16" where
  "de_inum de = get16 (\<lambda>i. de ! i) 0"

definition de_name :: "u8 list \<Rightarrow> bytes" where
  "de_name de = (\<lambda>i. de ! (2 + i))"

text \<open>
  The loops over the entries of a directory carry fuel; \<open>size / 16 + 2\<close> rounds pass the end. The
  result of \<open>dirlookup\<close> is the inode and the offset that it stores through \<open>poff\<close>.
\<close>

fun dirlookup_loop ::
  "nat \<Rightarrow> nat \<Rightarrow> bytes \<Rightarrow> u32 \<Rightarrow> 'z xst_scheme \<Rightarrow> ('z xst_scheme, (nat \<times> u32) option) outcome" where
  "dirlookup_loop 0 dp name off s = Diverge"
| "dirlookup_loop (Suc fuel) dp name off s =
     (if off < i_size (icache s dp) then
        bindK (readi dp (MLocal (\<lambda>_. 0)) off (of_nat DIRENT_SIZE) s) (\<lambda>(r, de) s.
        if r \<noteq> int DIRENT_SIZE then Panic ''dirlookup read''
        else if de_inum de \<noteq> 0 \<and> namecmp name (de_name de) = 0 then
          bindK (iget (i_dev (icache s dp)) (ucast (de_inum de)) s) (\<lambda>ip s. Ret (Some (ip, off)) s)
        else dirlookup_loop fuel dp name (off + of_nat DIRENT_SIZE) s)
      else Ret None s)"

definition dir_fuel :: "u32 \<Rightarrow> nat" where "dir_fuel sz = unat sz div DIRENT_SIZE + 2"

definition dirlookup ::
  "nat \<Rightarrow> bytes \<Rightarrow> 'z xst_scheme \<Rightarrow> ('z xst_scheme, (nat \<times> u32) option) outcome" where
  "dirlookup dp name s =
     (if i_type (icache s dp) \<noteq> T_DIR then Panic ''dirlookup not DIR''
      else dirlookup_loop (dir_fuel (i_size (icache s dp))) dp name 0 s)"

text \<open>The search for an empty entry; the result is its offset, or the end of the directory.\<close>

fun dirlink_loop :: "nat \<Rightarrow> nat \<Rightarrow> u32 \<Rightarrow> 'z xst_scheme \<Rightarrow> ('z xst_scheme, u32) outcome" where
  "dirlink_loop 0 dp off s = Diverge"
| "dirlink_loop (Suc fuel) dp off s =
     (if off < i_size (icache s dp) then
        bindK (readi dp (MLocal (\<lambda>_. 0)) off (of_nat DIRENT_SIZE) s) (\<lambda>(r, de) s.
        if r \<noteq> int DIRENT_SIZE then Panic ''dirlink read''
        else if de_inum de = 0 then Ret off s
        else dirlink_loop fuel dp (off + of_nat DIRENT_SIZE) s)
      else Ret off s)"

definition make_dirent :: "bytes \<Rightarrow> u16 \<Rightarrow> bytes" where
  "make_dirent name inum =
     put16 (strncpy (beside DIRENT_SIZE (\<lambda>_. 0) name) 2 DIRENT_SIZE (int DIRSIZ)) 0 inum"

definition dirlink :: "nat \<Rightarrow> bytes \<Rightarrow> u32 \<Rightarrow> 'z xst_scheme \<Rightarrow> ('z xst_scheme, int) outcome" where
  "dirlink dp name inum s =
     bindK (dirlookup dp name s) (\<lambda>r s.
     case r of
       Some (ip, _) \<Rightarrow> bindK (iput ip s) (\<lambda>_ s. Ret (- 1) s)
     | None \<Rightarrow>
         bindK (dirlink_loop (dir_fuel (i_size (icache s dp))) dp 0 s) (\<lambda>off s.
         bindK (writei dp (MLocal (make_dirent name (ucast inum))) off (of_nat DIRENT_SIZE) s) (\<lambda>r s.
         if r \<noteq> int DIRENT_SIZE then Panic ''dirlink'' else Ret 0 s)))"

section \<open>Paths\<close>

abbreviation slash :: u8 where "slash \<equiv> 47"

definition skipelem :: "u8 list \<Rightarrow> bytes \<Rightarrow> (u8 list \<times> bytes) option" where
  "skipelem path name =
     (let path = dropWhile (\<lambda>c. c = slash) path
      in if path = [] then None
         else
           let e = takeWhile (\<lambda>c. c \<noteq> slash) path;
               path = dropWhile (\<lambda>c. c \<noteq> slash) path;
               name = (if length e \<ge> DIRSIZ then overlay 0 (take DIRSIZ e) name
                       else (overlay 0 e name)(length e := 0))
           in Some (dropWhile (\<lambda>c. c = slash) path, name))"

lemma skipelem_shorter:
  assumes "skipelem path name = Some (path', name')"
  shows "length path' < length path"
proof -
  let ?p = "dropWhile (\<lambda>c. c = slash) path"
  from assms have ne: "?p \<noteq> []" and p': "path' = dropWhile (\<lambda>c. c = slash) (dropWhile (\<lambda>c. c \<noteq> slash) ?p)"
    by (auto simp: skipelem_def Let_def split: if_splits)
  have "hd ?p \<noteq> slash" using hd_dropWhile [OF ne] by simp
  then have "dropWhile (\<lambda>c. c \<noteq> slash) ?p = dropWhile (\<lambda>c. c \<noteq> slash) (tl ?p)"
    using ne by (cases ?p) auto
  then have "length path' \<le> length (dropWhile (\<lambda>c. c \<noteq> slash) (tl ?p))"
    unfolding p' by (simp only: length_dropWhile_le)
  also have "\<dots> \<le> length (tl ?p)" by (rule length_dropWhile_le)
  also have "\<dots> < length ?p" using ne by simp
  also have "\<dots> \<le> length path" by (rule length_dropWhile_le)
  finally show ?thesis .
qed

text \<open>\<open>nameiparent\<close> is the flag \<open>par\<close>; the result is the inode and the name left in \<open>name\<close>.\<close>

function namex_loop ::
  "u8 list \<Rightarrow> bool \<Rightarrow> bytes \<Rightarrow> nat \<Rightarrow> 'z xst_scheme \<Rightarrow> ('z xst_scheme, nat option \<times> bytes) outcome" where
  "namex_loop path par name ip s =
     (case skipelem path name of
        None \<Rightarrow>
          if par then bindK (iput ip s) (\<lambda>_ s. Ret (None, name) s) else Ret (Some ip, name) s
      | Some (path, name) \<Rightarrow>
          bindK (ilock ip s) (\<lambda>_ s.
          if i_type (icache s ip) \<noteq> T_DIR then
            bindK (iunlockput ip s) (\<lambda>_ s. Ret (None, name) s)
          else if par \<and> path = [] then
            bindK (iunlock ip s) (\<lambda>_ s. Ret (Some ip, name) s)
          else
            bindK (dirlookup ip name s) (\<lambda>r s.
            bindK (iunlockput ip s) (\<lambda>_ s.
            case r of
              None \<Rightarrow> Ret (None, name) s
            | Some (nxt, _) \<Rightarrow> namex_loop path par name nxt s))))"
  by pat_completeness auto
termination
  by (relation "measure (\<lambda>(path, par, name, ip, s). length path)") (auto dest: skipelem_shorter)

declare namex_loop.simps [simp del]

definition namex ::
  "u8 list \<Rightarrow> bool \<Rightarrow> bytes \<Rightarrow> 'z xst_scheme \<Rightarrow> ('z xst_scheme, nat option \<times> bytes) outcome" where
  "namex path par name s =
     bindK (if path \<noteq> [] \<and> hd path = slash then iget ROOTDEV ROOTINO s
            else myprocK s (\<lambda>p. case p_cwd (ptable s p) of
                   None \<Rightarrow> Undef ''null cwd'' | Some ip \<Rightarrow> idup ip s)) (\<lambda>ip s.
     namex_loop path par name ip s)"

definition namei :: "u8 list \<Rightarrow> 'z xst_scheme \<Rightarrow> ('z xst_scheme, nat option) outcome" where
  "namei path s = bindK (namex path False (\<lambda>_. 0) s) (\<lambda>(ip, _) s. Ret ip s)"

definition nameiparent ::
  "u8 list \<Rightarrow> bytes \<Rightarrow> 'z xst_scheme \<Rightarrow> ('z xst_scheme, nat option \<times> bytes) outcome" where
  "nameiparent path name s = namex path True name s"

end
