(* ===== verification/Xv6_File.thy ===== *)
theory Xv6_File
  imports Xv6_Fs
begin

unbundle bit_operations_syntax

text \<open>
  Open files and pipes (src/file.c, src/file.h, src/pipe.c). A pointer to an open file is its index
  in \<open>ftable\<close>. A pipe lives in a page of its own; it is found under the address of that page, and the
  page is taken from and given back to the page allocator as in the code.
\<close>

section \<open>Data\<close>

definition NFILE :: nat where "NFILE = 100"
definition PIPESIZE :: nat where "PIPESIZE = 512"

datatype filetype = FD_NONE | FD_PIPE | FD_INODE

record ofile =
  f_type :: filetype
  f_ref :: u32
  f_readable :: bool
  f_writable :: bool
  f_pipe :: u32
  f_ip :: "nat option"
  f_off :: u32

record pipe =
  pi_data :: bytes
  pi_nread :: u32
  pi_nwrite :: u32
  pi_readopen :: bool
  pi_writeopen :: bool

record fsst = xst +
  ftable :: "nat \<Rightarrow> ofile"
  pipes :: "u32 \<Rightarrow> pipe"

definition upd_file :: "nat \<Rightarrow> (ofile \<Rightarrow> ofile) \<Rightarrow> 'z fsst_scheme \<Rightarrow> 'z fsst_scheme" where
  "upd_file f g s = s\<lparr>ftable := (ftable s)(f := g (ftable s f))\<rparr>"

definition upd_pipe :: "u32 \<Rightarrow> (pipe \<Rightarrow> pipe) \<Rightarrow> 'z fsst_scheme \<Rightarrow> 'z fsst_scheme" where
  "upd_pipe p g s = s\<lparr>pipes := (pipes s)(p := g (pipes s p))\<rparr>"

abbreviation pipe_lock :: "u32 \<Rightarrow> lockid" where "pipe_lock p \<equiv> LPipe (unat p)"
abbreviation ch_nread :: "u32 \<Rightarrow> chan" where "ch_nread p \<equiv> ChNread (unat p)"
abbreviation ch_nwrite :: "u32 \<Rightarrow> chan" where "ch_nwrite p \<equiv> ChNwrite (unat p)"

section \<open>Pipes\<close>

definition pipeclose :: "u32 \<Rightarrow> bool \<Rightarrow> 'z fsst_scheme \<Rightarrow> ('z fsst_scheme, unit) outcome" where
  "pipeclose p writable s =
     bindK (acquire (pipe_lock p) s) (\<lambda>_ s.
     bindK (if writable
            then wakeup (ch_nread p) (upd_pipe p (pi_writeopen_update (\<lambda>_. False)) s)
            else wakeup (ch_nwrite p) (upd_pipe p (pi_readopen_update (\<lambda>_. False)) s)) (\<lambda>_ s.
     if \<not> pi_readopen (pipes s p) \<and> \<not> pi_writeopen (pipes s p)
     then bindK (release (pipe_lock p) s) (\<lambda>_ s. kfree p s)
     else release (pipe_lock p) s))"

text \<open>
  The loop of \<open>pipewrite\<close> at byte \<open>i\<close> with \<open>k\<close> bytes left; the result says whether all bytes were
  written. A writer that sleeps keeps \<open>i\<close> in its frame.
\<close>

definition pipe_full :: "pipe \<Rightarrow> bool" where
  "pipe_full q \<longleftrightarrow> pi_nwrite q = pi_nread q + of_nat PIPESIZE"

definition pipe_put :: "u8 \<Rightarrow> pipe \<Rightarrow> pipe" where
  "pipe_put c q = q\<lparr>pi_data := (pi_data q)(unat (pi_nwrite q) mod PIPESIZE := c), pi_nwrite := pi_nwrite q + 1\<rparr>"

fun pipewrite_loop ::
  "u32 \<Rightarrow> mem \<Rightarrow> nat \<Rightarrow> nat \<Rightarrow> 'z fsst_scheme \<Rightarrow> ('z fsst_scheme, bool) outcome" where
  "pipewrite_loop p addr i 0 s = Ret True s"
| "pipewrite_loop p addr i (Suc k) s =
     (if pipe_full (pipes s p) then
        myprocK s (\<lambda>q.
        if \<not> pi_readopen (pipes s p) \<or> p_killed (ptable s q) then Ret False s
        else
          bindK (wakeup (ch_nread p) s) (\<lambda>_ s.
          sleep i (ch_nwrite p) (pipe_lock p) s))
      else
        bindK (load8 addr i s) (\<lambda>c s.
        pipewrite_loop p addr (i + 1) k (upd_pipe p (pipe_put c) s)))"

definition pipewrite_end ::
  "u32 \<Rightarrow> u32 \<Rightarrow> bool \<Rightarrow> 'z fsst_scheme \<Rightarrow> ('z fsst_scheme, int) outcome" where
  "pipewrite_end p n ok s =
     (if ok then
        bindK (wakeup (ch_nread p) s) (\<lambda>_ s.
        bindK (release (pipe_lock p) s) (\<lambda>_ s. Ret (sint n) s))
      else bindK (release (pipe_lock p) s) (\<lambda>_ s. Ret (- 1) s))"

definition pipewrite :: "u32 \<Rightarrow> mem \<Rightarrow> u32 \<Rightarrow> 'z fsst_scheme \<Rightarrow> ('z fsst_scheme, int) outcome" where
  "pipewrite p addr n s =
     bindK (acquire (pipe_lock p) s) (\<lambda>_ s.
     bindK (pipewrite_loop p addr 0 (nat (sint n)) s) (\<lambda>ok s.
     pipewrite_end p n ok s))"

definition pipewrite_resume ::
  "u32 \<Rightarrow> mem \<Rightarrow> u32 \<Rightarrow> nat \<Rightarrow> 'z fsst_scheme \<Rightarrow> ('z fsst_scheme, int) outcome" where
  "pipewrite_resume p addr n i s =
     bindK (sleep_resume (pipe_lock p) s) (\<lambda>_ s.
     bindK (pipewrite_loop p addr i (nat (sint n) - i) s) (\<lambda>ok s.
     pipewrite_end p n ok s))"

text \<open>The first loop of \<open>piperead\<close>; the result is false when the process was killed.\<close>

definition piperead_wait :: "u32 \<Rightarrow> 'z fsst_scheme \<Rightarrow> ('z fsst_scheme, bool) outcome" where
  "piperead_wait p s =
     (if pi_nread (pipes s p) = pi_nwrite (pipes s p) \<and> pi_writeopen (pipes s p) then
        myprocK s (\<lambda>q.
        if p_killed (ptable s q) then Ret False s
        else sleep 0 (ch_nread p) (pipe_lock p) s)
      else Ret True s)"

definition pipe_front :: "pipe \<Rightarrow> u8" where
  "pipe_front q = pi_data q (unat (pi_nread q) mod PIPESIZE)"

fun piperead_copy ::
  "u32 \<Rightarrow> mem \<Rightarrow> nat \<Rightarrow> nat \<Rightarrow> 'z fsst_scheme \<Rightarrow> ('z fsst_scheme, nat) outcome" where
  "piperead_copy p addr i 0 s = Ret i s"
| "piperead_copy p addr i (Suc k) s =
     (if pi_nread (pipes s p) = pi_nwrite (pipes s p) then Ret i s
      else
        bindK (store8 addr i (pipe_front (pipes s p))
            (upd_pipe p (pi_nread_update (\<lambda>r. r + 1)) s)) (\<lambda>_ s.
        piperead_copy p addr (i + 1) k s))"

definition piperead_end ::
  "u32 \<Rightarrow> mem \<Rightarrow> u32 \<Rightarrow> bool \<Rightarrow> 'z fsst_scheme \<Rightarrow> ('z fsst_scheme, int) outcome" where
  "piperead_end p addr n ok s =
     (if ok then
        bindK (piperead_copy p addr 0 (nat (sint n)) s) (\<lambda>i s.
        bindK (wakeup (ch_nwrite p) s) (\<lambda>_ s.
        bindK (release (pipe_lock p) s) (\<lambda>_ s. Ret (int i) s)))
      else bindK (release (pipe_lock p) s) (\<lambda>_ s. Ret (- 1) s))"

definition piperead :: "u32 \<Rightarrow> mem \<Rightarrow> u32 \<Rightarrow> 'z fsst_scheme \<Rightarrow> ('z fsst_scheme, int) outcome" where
  "piperead p addr n s =
     bindK (acquire (pipe_lock p) s) (\<lambda>_ s.
     bindK (piperead_wait p s) (\<lambda>ok s.
     piperead_end p addr n ok s))"

definition piperead_resume :: "u32 \<Rightarrow> mem \<Rightarrow> u32 \<Rightarrow> 'z fsst_scheme \<Rightarrow> ('z fsst_scheme, int) outcome" where
  "piperead_resume p addr n s =
     bindK (sleep_resume (pipe_lock p) s) (\<lambda>_ s.
     bindK (piperead_wait p s) (\<lambda>ok s.
     piperead_end p addr n ok s))"

section \<open>Open files\<close>

definition filealloc :: "'z fsst_scheme \<Rightarrow> ('z fsst_scheme, nat option) outcome" where
  "filealloc s =
     bindK (acquire LFtable s) (\<lambda>_ s.
     case find_from (\<lambda>f. f_ref (ftable s f) = 0) 0 NFILE of
       Some f \<Rightarrow>
         bindK (release LFtable (upd_file f (f_ref_update (\<lambda>_. 1)) s)) (\<lambda>_ s. Ret (Some f) s)
     | None \<Rightarrow> bindK (release LFtable s) (\<lambda>_ s. Ret None s))"

definition filedup :: "nat \<Rightarrow> 'z fsst_scheme \<Rightarrow> ('z fsst_scheme, nat) outcome" where
  "filedup f s =
     bindK (acquire LFtable s) (\<lambda>_ s.
     if sint (f_ref (ftable s f)) < 1 then Panic ''filedup''
     else bindK (release LFtable (upd_file f (f_ref_update (\<lambda>r. r + 1)) s)) (\<lambda>_ s. Ret f s))"

definition fileclose :: "nat \<Rightarrow> 'z fsst_scheme \<Rightarrow> ('z fsst_scheme, unit) outcome" where
  "fileclose f s =
     bindK (acquire LFtable s) (\<lambda>_ s.
     if sint (f_ref (ftable s f)) < 1 then Panic ''fileclose''
     else
       let s = upd_file f (f_ref_update (\<lambda>r. r - 1)) s
       in if sint (f_ref (ftable s f)) > 0 then release LFtable s
          else
            let ff = ftable s f;
                s = upd_file f (\<lambda>g. g\<lparr>f_ref := 0, f_type := FD_NONE\<rparr>) s
            in bindK (release LFtable s) (\<lambda>_ s.
               case f_type ff of
                 FD_PIPE \<Rightarrow> pipeclose (f_pipe ff) (f_writable ff) s
               | FD_INODE \<Rightarrow>
                   bindK (begin_op s) (\<lambda>_ s.
                   case f_ip ff of
                     None \<Rightarrow> Undef ''null ip''
                   | Some ip \<Rightarrow> bindK (iput ip s) (\<lambda>_ s. end_op s))
               | FD_NONE \<Rightarrow> Ret () s))"

definition filestat :: "nat \<Rightarrow> 'z fsst_scheme \<Rightarrow> ('z fsst_scheme, stat option) outcome" where
  "filestat f s =
     (if f_type (ftable s f) = FD_INODE then
        (case f_ip (ftable s f) of
           None \<Rightarrow> Panic ''ilock''
         | Some ip \<Rightarrow>
             bindK (ilock ip s) (\<lambda>_ s.
             let st = stati (icache s ip)
             in bindK (iunlock ip s) (\<lambda>_ s. Ret (Some st) s)))
      else Ret None s)"

definition fileread :: "nat \<Rightarrow> mem \<Rightarrow> u32 \<Rightarrow> 'z fsst_scheme \<Rightarrow> ('z fsst_scheme, int) outcome" where
  "fileread f addr n s =
     (if \<not> f_readable (ftable s f) then Ret (- 1) s
      else case f_type (ftable s f) of
        FD_PIPE \<Rightarrow> piperead (f_pipe (ftable s f)) addr n s
      | FD_INODE \<Rightarrow>
          (case f_ip (ftable s f) of
             None \<Rightarrow> Panic ''ilock''
           | Some ip \<Rightarrow>
               bindK (ilock ip s) (\<lambda>_ s.
               bindK (readi ip addr (f_off (ftable s f)) n s) (\<lambda>(r, _) s.
               let s = (if r > 0 then upd_file f (f_off_update (\<lambda>x. x + of_int r)) s else s)
               in bindK (iunlock ip s) (\<lambda>_ s. Ret r s))))
      | FD_NONE \<Rightarrow> Panic ''fileread'')"

definition mem_add :: "mem \<Rightarrow> nat \<Rightarrow> mem" where
  "mem_add m i = (case m of MUser a \<Rightarrow> MUser (a + of_nat i) | MKern a \<Rightarrow> MKern (a + of_nat i)
     | MLocal d \<Rightarrow> MLocal (\<lambda>j. d (i + j)))"

definition filewrite_max :: nat where "filewrite_max = ((MAXOPBLOCKS - 1 - 1 - 2) div 2) * 512"

text \<open>The loop of \<open>filewrite\<close> at byte \<open>i\<close> with \<open>k\<close> bytes left; the result is the final \<open>i\<close>.\<close>

function filewrite_loop ::
  "nat \<Rightarrow> nat \<Rightarrow> mem \<Rightarrow> nat \<Rightarrow> nat \<Rightarrow> 'z fsst_scheme \<Rightarrow> ('z fsst_scheme, nat) outcome" where
  "filewrite_loop f ip addr i 0 s = Ret i s"
| "filewrite_loop f ip addr i (Suc k) s =
     (let n1 = min (Suc k) filewrite_max
      in bindK (begin_op s) (\<lambda>_ s.
         bindK (ilock ip s) (\<lambda>_ s.
         bindK (writei ip (mem_add addr i) (f_off (ftable s f)) (of_nat n1) s) (\<lambda>r s.
         let s = (if r > 0 then upd_file f (f_off_update (\<lambda>x. x + of_int r)) s else s)
         in bindK (iunlock ip s) (\<lambda>_ s.
            bindK (end_op s) (\<lambda>_ s.
            if r < 0 then Ret i s
            else if r \<noteq> int n1 then Panic ''short filewrite''
            else filewrite_loop f ip addr (i + n1) (Suc k - n1) s))))))"
  by pat_completeness auto
termination
  by (relation "measure (\<lambda>(f, ip, addr, i, k, s). k)") (auto simp: filewrite_max_def MAXOPBLOCKS_def)

definition filewrite :: "nat \<Rightarrow> mem \<Rightarrow> u32 \<Rightarrow> 'z fsst_scheme \<Rightarrow> ('z fsst_scheme, int) outcome" where
  "filewrite f addr n s =
     (if \<not> f_writable (ftable s f) then Ret (- 1) s
      else case f_type (ftable s f) of
        FD_PIPE \<Rightarrow> pipewrite (f_pipe (ftable s f)) addr n s
      | FD_INODE \<Rightarrow>
          (if sint n \<le> 0 then Ret (if sint n = 0 then 0 else - 1) s
           else case f_ip (ftable s f) of
             None \<Rightarrow> Panic ''ilock''
           | Some ip \<Rightarrow>
               bindK (filewrite_loop f ip addr 0 (nat (sint n)) s) (\<lambda>i s.
               Ret (if int i = sint n then sint n else - 1) s))
      | FD_NONE \<Rightarrow> Panic ''filewrite'')"

text \<open>The code behind the label \<open>bad\<close> of \<open>pipealloc\<close>.\<close>

definition pipealloc_bad ::
  "nat option \<Rightarrow> nat option \<Rightarrow> 'z fsst_scheme \<Rightarrow> ('z fsst_scheme, (nat \<times> nat) option) outcome" where
  "pipealloc_bad f0 f1 s =
     bindK (case f0 of None \<Rightarrow> Ret () s | Some f \<Rightarrow> fileclose f s) (\<lambda>_ s.
     bindK (case f1 of None \<Rightarrow> Ret () s | Some f \<Rightarrow> fileclose f s) (\<lambda>_ s.
     Ret None s))"

definition pipealloc :: "'z fsst_scheme \<Rightarrow> ('z fsst_scheme, (nat \<times> nat) option) outcome" where
  "pipealloc s =
     bindK (filealloc s) (\<lambda>f0 s.
     case f0 of
       None \<Rightarrow> pipealloc_bad None None s
     | Some r \<Rightarrow>
         bindK (filealloc s) (\<lambda>f1 s.
         case f1 of
           None \<Rightarrow> pipealloc_bad (Some r) None s
         | Some w \<Rightarrow>
             bindK (kalloc s) (\<lambda>p s.
             if p = 0 then pipealloc_bad (Some r) (Some w) s
             else
               let s = upd_pipe p (\<lambda>q. q\<lparr>pi_readopen := True, pi_writeopen := True, pi_nwrite := 0,
                     pi_nread := 0\<rparr>) s;
                   s = upd_file r (\<lambda>g. g\<lparr>f_type := FD_PIPE, f_readable := True, f_writable := False,
                     f_pipe := p\<rparr>) s;
                   s = upd_file w (\<lambda>g. g\<lparr>f_type := FD_PIPE, f_readable := False, f_writable := True,
                     f_pipe := p\<rparr>) s
               in Ret (Some (r, w)) s)))"

end
