(* ===== verification/Xv6_Life.thy ===== *)
theory Xv6_Life
  imports Xv6_File
begin

unbundle bit_operations_syntax

text \<open>
  Creation, growth, replacement and termination of processes: \<open>userinit\<close>, \<open>growproc\<close>, \<open>fork\<close>,
  \<open>exit\<close>, \<open>wait\<close> and \<open>forkret\<close> of src/proc.c, \<open>loaduvm\<close> of src/vm.c and \<open>exec\<close> of src/exec.c. \<open>exit\<close>
  ends with the switch to the scheduler; \<open>wait\<close> is cut where the parent goes to sleep.
\<close>

record mst = fsst +
  fr_first :: bool      \<comment> \<open>\<open>first\<close> of \<open>forkret\<close>\<close>

section \<open>Names\<close>

text \<open>\<open>safestrcpy(p->name, str, sizeof(p->name))\<close>.\<close>

definition set_name :: "bytes \<Rightarrow> proc \<Rightarrow> proc" where
  "set_name str q =
     q\<lparr>p_name := (\<lambda>i. if i < 16 then safestrcpy (beside 16 (p_name q) str) 0 16 16 i else p_name q i)\<rparr>"

definition str_bytes :: "u8 list \<Rightarrow> bytes" where
  "str_bytes cs = (\<lambda>i. if i < length cs then cs ! i else 0)"

definition ascii :: "string \<Rightarrow> u8 list" where "ascii cs = map of_char cs"

section \<open>Creation\<close>

definition SEG_UCODE :: u16 where "SEG_UCODE = 3"
definition SEG_UDATA :: u16 where "SEG_UDATA = 4"
definition DPL_USER :: u16 where "DPL_USER = 3"
definition FL_IF :: u32 where "FL_IF = 0x200"

definition user_tf :: trapframe where
  "user_tf = zero_tf\<lparr>tf_cs := push_bit 3 SEG_UCODE OR DPL_USER, tf_ds := push_bit 3 SEG_UDATA OR DPL_USER,
     tf_es := push_bit 3 SEG_UDATA OR DPL_USER, tf_ss := push_bit 3 SEG_UDATA OR DPL_USER,
     tf_eflags := FL_IF, tf_esp := PGSIZE, tf_eip := 0\<rparr>"

text \<open>\<open>code\<close> and \<open>sz\<close> are the image of initcode.S that the linker adds to the kernel.\<close>

definition userinit :: "bytes \<Rightarrow> u32 \<Rightarrow> 'z mst_scheme \<Rightarrow> ('z mst_scheme, unit) outcome" where
  "userinit code sz s =
     bindK (allocproc s) (\<lambda>r s.
     case r of
       None \<Rightarrow> Undef ''null p''
     | Some p \<Rightarrow>
         bindK (setupkvm (s\<lparr>initproc := Some p\<rparr>)) (\<lambda>d s.
         let s = upd_proc p (p_pgdir_update (\<lambda>_. d)) s
         in if d = 0 then Panic ''userinit: out of memory?''
            else
              bindK (inituvm d code sz s) (\<lambda>_ s.
              let s = upd_proc p (\<lambda>q. set_name (str_bytes (ascii ''initcode''))
                        (q\<lparr>p_sz := PGSIZE, p_tf := user_tf\<rparr>)) s
              in bindK (namei [slash] s) (\<lambda>ip s.
                 bindK (acquire LPtable (upd_proc p (p_cwd_update (\<lambda>_. ip)) s)) (\<lambda>_ s.
                 release LPtable (upd_proc p (p_state_update (\<lambda>_. RUNNABLE)) s))))))"

definition growproc :: "u32 \<Rightarrow> 'z mst_scheme \<Rightarrow> ('z mst_scheme, int) outcome" where
  "growproc n s =
     myprocK s (\<lambda>p.
     let sz = p_sz (ptable s p); d = p_pgdir (ptable s p)
     in bindK (if sint n > 0 then allocuvm d sz (sz + n) s
               else if sint n < 0 then deallocuvm d sz (sz + n) s
               else Ret sz s) (\<lambda>sz s.
        if sint n \<noteq> 0 \<and> sz = 0 then Ret (- 1) s
        else
          bindK (switchuvm p (upd_proc p (p_sz_update (\<lambda>_. sz)) s)) (\<lambda>_ s. Ret 0 s)))"

definition fork_files :: "nat \<Rightarrow> nat \<Rightarrow> 'z mst_scheme \<Rightarrow> ('z mst_scheme, unit) outcome" where
  "fork_files p np s =
     for_rangeK 0 NOFILE (\<lambda>i s.
       case p_ofile (ptable s p) i of
         None \<Rightarrow> Ret () s
       | Some f \<Rightarrow>
           bindK (filedup f s) (\<lambda>f s.
           Ret () (upd_proc np (p_ofile_update (\<lambda>t. t(i := Some f))) s))) s"

definition clear_sysclog :: "proc \<Rightarrow> proc" where
  "clear_sysclog q = q\<lparr>p_sysclog := (\<lambda>j. if j < NLOGPAIR then \<lparr>callno = 0, retval = 0\<rparr> else p_sysclog q j)\<rparr>"

definition fork :: "'z mst_scheme \<Rightarrow> ('z mst_scheme, u32) outcome" where
  "fork s =
     myprocK s (\<lambda>p.
     bindK (allocproc s) (\<lambda>r s.
     case r of
       None \<Rightarrow> Ret (- 1) s
     | Some np \<Rightarrow>
         bindK (copyuvm (p_pgdir (ptable s p)) (p_sz (ptable s p)) s) (\<lambda>d s.
         let s = upd_proc np (p_pgdir_update (\<lambda>_. d)) s
         in if d = 0 then
              bindK (kfree (p_kstack (ptable s np)) s) (\<lambda>_ s.
              Ret (- 1) (upd_proc np (\<lambda>q. q\<lparr>p_kstack := 0, p_state := UNUSED\<rparr>) s))
            else
              let s = upd_proc np (\<lambda>q. q\<lparr>p_sz := p_sz (ptable s p), p_parent := Some p,
                        p_tf := (p_tf (ptable s p))\<lparr>tf_eax := 0\<rparr>\<rparr>) s
              in bindK (fork_files p np s) (\<lambda>_ s.
                 case p_cwd (ptable s p) of
                   None \<Rightarrow> Undef ''null cwd''
                 | Some ip \<Rightarrow>
                     bindK (idup ip s) (\<lambda>ip s.
                     let s = upd_proc np (\<lambda>q. set_name (p_name (ptable s p)) (q\<lparr>p_cwd := Some ip\<rparr>)) s;
                         pid = p_pid (ptable s np)
                     in bindK (acquire LPtable s) (\<lambda>_ s.
                        bindK (release LPtable (upd_proc np (\<lambda>q. clear_sysclog (q\<lparr>p_state := RUNNABLE\<rparr>)) s))
                          (\<lambda>_ s. Ret pid s)))))))"

definition forkret :: "'z mst_scheme \<Rightarrow> ('z mst_scheme, unit) outcome" where
  "forkret s =
     bindK (release LPtable s) (\<lambda>_ s.
     if fr_first s then
       bindK (iinit ROOTDEV (s\<lparr>fr_first := False\<rparr>)) (\<lambda>_ s. initlog ROOTDEV s)
     else Ret () s)"

section \<open>Termination\<close>

definition close_files :: "nat \<Rightarrow> 'z mst_scheme \<Rightarrow> ('z mst_scheme, unit) outcome" where
  "close_files p s =
     for_rangeK 0 NOFILE (\<lambda>fd s.
       case p_ofile (ptable s p) fd of
         None \<Rightarrow> Ret () s
       | Some f \<Rightarrow>
           bindK (fileclose f s) (\<lambda>_ s.
           Ret () (upd_proc p (p_ofile_update (\<lambda>t. t(fd := None))) s))) s"

text \<open>\<open>wakeup1(p)\<close> for a process pointer that may be null; a null channel matches a null channel.\<close>

definition wakeup1_proc :: "nat option \<Rightarrow> 'z pst_scheme \<Rightarrow> 'z pst_scheme" where
  "wakeup1_proc q s =
     for_range 0 NPROC (\<lambda>i s.
       if p_state (ptable s i) = SLEEPING \<and> p_chan (ptable s i) = map_option ChProc q
       then upd_proc i (p_state_update (\<lambda>_. RUNNABLE)) s else s) s"

definition reparent :: "nat \<Rightarrow> 'z pst_scheme \<Rightarrow> 'z pst_scheme" where
  "reparent p s =
     for_range 0 NPROC (\<lambda>i s.
       if p_parent (ptable s i) = Some p then
         (let s = upd_proc i (p_parent_update (\<lambda>_. initproc s)) s
          in if p_state (ptable s i) = ZOMBIE then wakeup1_proc (initproc s) s else s)
       else s) s"

definition exit :: "'z mst_scheme \<Rightarrow> ('z mst_scheme, 'a) outcome" where
  "exit s =
     myprocK s (\<lambda>p.
     if initproc s = Some p then Panic ''init exiting''
     else
       bindK (close_files p s) (\<lambda>_ s.
       bindK (begin_op s) (\<lambda>_ s.
       case p_cwd (ptable s p) of
         None \<Rightarrow> Undef ''null cwd''
       | Some ip \<Rightarrow>
           bindK (iput ip s) (\<lambda>_ s.
           bindK (end_op s) (\<lambda>_ s.
           bindK (acquire LPtable (upd_proc p (p_cwd_update (\<lambda>_. None)) s)) (\<lambda>_ s.
           bindK (log_terminated p 0 (reparent p (wakeup1_proc (p_parent (ptable s p)) s))) (\<lambda>_ s.
           bindK (sched 0 (upd_proc p (p_state_update (\<lambda>_. ZOMBIE)) s)) (\<lambda>_ :: unit. \<lambda>s.
           Panic ''zombie exit''))))))))"

text \<open>One round of the loop of \<open>wait\<close>, entered with \<open>ptable.lock\<close> held.\<close>

definition reap :: "nat \<Rightarrow> 'z pst_scheme \<Rightarrow> ('z pst_scheme, u32) outcome" where
  "reap i s =
     (let pid = p_pid (ptable s i)
      in bindK (kfree (p_kstack (ptable s i)) s) (\<lambda>_ s.
         bindK (freevm (p_pgdir (ptable s i)) (upd_proc i (p_kstack_update (\<lambda>_. 0)) s)) (\<lambda>_ s.
         bindK (release LPtable (upd_proc i (\<lambda>q. q\<lparr>p_pid := 0, p_parent := None,
             p_name := (p_name q)(0 := 0), p_killed := False, p_state := UNUSED\<rparr>) s)) (\<lambda>_ s.
         Ret pid s))))"

definition wait_round :: "nat \<Rightarrow> 'z pst_scheme \<Rightarrow> ('z pst_scheme, u32) outcome" where
  "wait_round p s =
     (case find_from (\<lambda>i. p_parent (ptable s i) = Some p \<and> p_state (ptable s i) = ZOMBIE) 0 NPROC of
        Some i \<Rightarrow> reap i s
      | None \<Rightarrow>
          if find_from (\<lambda>i. p_parent (ptable s i) = Some p) 0 NPROC = None \<or> p_killed (ptable s p)
          then bindK (release LPtable s) (\<lambda>_ s. Ret (- 1) s)
          else sleep 0 (ChProc p) LPtable s)"

definition wait :: "'z pst_scheme \<Rightarrow> ('z pst_scheme, u32) outcome" where
  "wait s = myprocK s (\<lambda>p. bindK (acquire LPtable s) (\<lambda>_ s. wait_round p s))"

definition wait_resume :: "'z pst_scheme \<Rightarrow> ('z pst_scheme, u32) outcome" where
  "wait_resume s = myprocK s (\<lambda>p. bindK (sleep_resume LPtable s) (\<lambda>_ s. wait_round p s))"

section \<open>exec\<close>

fun loaduvm_loop ::
  "nat \<Rightarrow> u32 \<Rightarrow> u32 \<Rightarrow> nat \<Rightarrow> u32 \<Rightarrow> u32 \<Rightarrow> u32 \<Rightarrow> 'z xst_scheme \<Rightarrow> ('z xst_scheme, int) outcome" where
  "loaduvm_loop 0 pgdir addr ip off sz i s = Diverge"
| "loaduvm_loop (Suc fuel) pgdir addr ip off sz i s =
     (if i < sz then
        bindK (walkpgdir pgdir (addr + i) False s) (\<lambda>pte s.
        if pte = 0 then Panic ''loaduvm: address should exist''
        else
          let pa = PTE_ADDR (rd32 pte s);
              n = (if sz - i < PGSIZE then sz - i else PGSIZE)
          in bindK (readi ip (MKern (P2V pa)) (off + i) n s) (\<lambda>(r, _) s.
             if of_int r \<noteq> n then Ret (- 1) s
             else loaduvm_loop fuel pgdir addr ip off sz (i + PGSIZE) s))
      else Ret 0 s)"

definition loaduvm ::
  "u32 \<Rightarrow> u32 \<Rightarrow> nat \<Rightarrow> u32 \<Rightarrow> u32 \<Rightarrow> 'z xst_scheme \<Rightarrow> ('z xst_scheme, int) outcome" where
  "loaduvm pgdir addr ip off sz s =
     (if addr mod PGSIZE \<noteq> 0 then Panic ''loaduvm: addr must be page aligned''
      else loaduvm_loop (Suc NPAGES) pgdir addr ip off sz 0 s)"

definition MAXARG :: nat where "MAXARG = 32"
definition ELF_MAGIC :: u32 where "ELF_MAGIC = 0x464C457F"
definition ELF_PROG_LOAD :: u32 where "ELF_PROG_LOAD = 1"

record elfhdr =
  elf_magic :: u32
  elf_entry :: u32
  elf_phoff :: u32
  elf_phnum :: u16

record proghdr =
  ph_type :: u32
  ph_off :: u32
  ph_vaddr :: u32
  ph_filesz :: u32
  ph_memsz :: u32

definition get_elfhdr :: "u8 list \<Rightarrow> elfhdr" where
  "get_elfhdr cs = (let d = str_bytes cs
     in \<lparr>elf_magic = get32 d 0, elf_entry = get32 d 24, elf_phoff = get32 d 28, elf_phnum = get16 d 44\<rparr>)"

definition get_proghdr :: "u8 list \<Rightarrow> proghdr" where
  "get_proghdr cs = (let d = str_bytes cs
     in \<lparr>ph_type = get32 d 0, ph_off = get32 d 4, ph_vaddr = get32 d 8, ph_filesz = get32 d 16,
         ph_memsz = get32 d 20\<rparr>)"

text \<open>The loop over the program headers, with \<open>k\<close> of them left. \<open>None\<close> is \<open>goto bad\<close>.\<close>

fun exec_segments ::
  "nat \<Rightarrow> nat \<Rightarrow> u32 \<Rightarrow> u32 \<Rightarrow> u32 \<Rightarrow> 'z xst_scheme \<Rightarrow> ('z xst_scheme, u32 option) outcome" where
  "exec_segments 0 ip pgdir off sz s = Ret (Some sz) s"
| "exec_segments (Suc k) ip pgdir off sz s =
     bindK (readi ip (MLocal (\<lambda>_. 0)) off 32 s) (\<lambda>(r, cs) s.
     if r \<noteq> 32 then Ret None s
     else
       let ph = get_proghdr cs
       in if ph_type ph \<noteq> ELF_PROG_LOAD then exec_segments k ip pgdir (off + 32) sz s
          else if ph_memsz ph < ph_filesz ph then Ret None s
          else if ph_vaddr ph + ph_memsz ph < ph_vaddr ph then Ret None s
          else
            bindK (allocuvm pgdir sz (ph_vaddr ph + ph_memsz ph) s) (\<lambda>sz s.
            if sz = 0 then Ret None s
            else if ph_vaddr ph mod PGSIZE \<noteq> 0 then Ret None s
            else
              bindK (loaduvm pgdir (ph_vaddr ph) ip (ph_off ph) (ph_filesz ph) s) (\<lambda>r s.
              if r < 0 then Ret None s else exec_segments k ip pgdir (off + 32) sz s)))"

text \<open>The loop over the arguments: the user addresses of their copies, and the stack pointer.\<close>

fun exec_args ::
  "u8 list list \<Rightarrow> nat \<Rightarrow> u32 \<Rightarrow> u32 \<Rightarrow> 'z kst_scheme \<Rightarrow> ('z kst_scheme, (u32 list \<times> u32) option) outcome" where
  "exec_args [] argc pgdir sp s = Ret (Some ([], sp)) s"
| "exec_args (a # as) argc pgdir sp s =
     (if argc \<ge> MAXARG then Ret None s
      else
        let len = of_nat (length a + 1); sp = (sp - len) AND NOT 3
        in bindK (copyout pgdir sp (str_bytes a) 0 len s) (\<lambda>r s.
           if r < 0 then Ret None s
           else
             bindK (exec_args as (argc + 1) pgdir sp s) (\<lambda>r s.
             Ret (map_option (\<lambda>(us, sp'). (sp # us, sp')) r) s)))"

definition words_bytes :: "u32 list \<Rightarrow> bytes" where
  "words_bytes ws = (\<lambda>i. ucast (drop_bit (8 * (i mod 4)) (ws ! (i div 4))))"

definition exec_bad :: "u32 \<Rightarrow> nat option \<Rightarrow> 'z mst_scheme \<Rightarrow> ('z mst_scheme, int) outcome" where
  "exec_bad pgdir ip s =
     bindK (if pgdir \<noteq> 0 then freevm pgdir s else Ret () s) (\<lambda>_ s.
     case ip of
       None \<Rightarrow> Ret (- 1) s
     | Some ip \<Rightarrow> bindK (iunlockput ip s) (\<lambda>_ s. bindK (end_op s) (\<lambda>_ s. Ret (- 1) s)))"

definition last_elem :: "u8 list \<Rightarrow> u8 list" where
  "last_elem path = rev (takeWhile (\<lambda>c. c \<noteq> slash) (rev path))"

text \<open>From the allocation of the stack on.\<close>

definition exec_stack ::
  "nat \<Rightarrow> u8 list \<Rightarrow> u8 list list \<Rightarrow> u32 \<Rightarrow> u32 \<Rightarrow> u32 \<Rightarrow> 'z mst_scheme \<Rightarrow> ('z mst_scheme, int) outcome" where
  "exec_stack p path argv entry pgdir sz s =
     (let sz = PGROUNDUP sz
      in bindK (allocuvm pgdir sz (sz + 2 * PGSIZE) s) (\<lambda>sz s.
         if sz = 0 then exec_bad pgdir None s
         else
           bindK (clearpteu pgdir (sz - 2 * PGSIZE) s) (\<lambda>_ s.
           bindK (exec_args argv 0 pgdir sz s) (\<lambda>r s.
           case r of
             None \<Rightarrow> exec_bad pgdir None s
           | Some (us, sp) \<Rightarrow>
               let argc = of_nat (length us);
                   ustack = [0xFFFFFFFF, argc, sp - (argc + 1) * 4] @ us @ [0];
                   sp = sp - (3 + argc + 1) * 4
               in bindK (copyout pgdir sp (words_bytes ustack) 0 ((3 + argc + 1) * 4) s) (\<lambda>r s.
                  if r < 0 then exec_bad pgdir None s
                  else
                    let oldpgdir = p_pgdir (ptable s p);
                        s = upd_proc p (\<lambda>q. (set_name (str_bytes (last_elem path)) q)
                              \<lparr>p_pgdir := pgdir, p_sz := sz,
                               p_tf := (p_tf q)\<lparr>tf_eip := entry, tf_esp := sp\<rparr>, p_priority := PL2\<rparr>) s
                    in bindK (switchuvm p s) (\<lambda>_ s.
                       bindK (freevm oldpgdir s) (\<lambda>_ s. Ret 0 s)))))))"

definition exec :: "u8 list \<Rightarrow> u8 list list \<Rightarrow> 'z mst_scheme \<Rightarrow> ('z mst_scheme, int) outcome" where
  "exec path argv s =
     myprocK s (\<lambda>p.
     bindK (begin_op s) (\<lambda>_ s.
     bindK (namei path s) (\<lambda>ip s.
     case ip of
       None \<Rightarrow> bindK (end_op s) (\<lambda>_ s. bindK (cprintf (''exec: fail'' @ newline) [] s) (\<lambda>_ s. Ret (- 1) s))
     | Some ip \<Rightarrow>
         bindK (ilock ip s) (\<lambda>_ s.
         bindK (readi ip (MLocal (\<lambda>_. 0)) 0 52 s) (\<lambda>(r, cs) s.
         let elf = get_elfhdr cs
         in if r \<noteq> 52 \<or> elf_magic elf \<noteq> ELF_MAGIC then exec_bad 0 (Some ip) s
            else
              bindK (setupkvm s) (\<lambda>pgdir s.
              if pgdir = 0 then exec_bad 0 (Some ip) s
              else
                bindK (exec_segments (unat (elf_phnum elf)) ip pgdir (elf_phoff elf) 0 s) (\<lambda>r s.
                case r of
                  None \<Rightarrow> exec_bad pgdir (Some ip) s
                | Some sz \<Rightarrow>
                    bindK (iunlockput ip s) (\<lambda>_ s.
                    bindK (end_op s) (\<lambda>_ s.
                    exec_stack p path argv (elf_entry elf) pgdir sz s)))))))))"

end
