(* ===== verification/Xv6_Sysfile.thy ===== *)
theory Xv6_Sysfile
  imports Xv6_Life
begin

unbundle bit_operations_syntax

text \<open>
  The system calls on files (src/sysfile.c). A result is the word that the call returns in \<open>eax\<close>;
  \<open>- 1\<close> reports an error.
\<close>

section \<open>Descriptors\<close>

definition argfd :: "nat \<Rightarrow> 'z mst_scheme \<Rightarrow> ('z mst_scheme, (nat \<times> nat) option) outcome" where
  "argfd n s =
     bindK (argint n s) (\<lambda>r s.
     case r of
       None \<Rightarrow> Ret None s
     | Some fd \<Rightarrow>
         if sint fd < 0 \<or> sint fd \<ge> int NOFILE then Ret None s
         else myprocK s (\<lambda>p. Ret (map_option (\<lambda>f. (unat fd, f)) (p_ofile (ptable s p) (unat fd))) s))"

definition set_ofile :: "nat \<Rightarrow> nat \<Rightarrow> nat option \<Rightarrow> 'z mst_scheme \<Rightarrow> 'z mst_scheme" where
  "set_ofile p fd f s = upd_proc p (p_ofile_update (\<lambda>t. t(fd := f))) s"

definition fdalloc :: "nat \<Rightarrow> 'z mst_scheme \<Rightarrow> ('z mst_scheme, nat option) outcome" where
  "fdalloc f s =
     myprocK s (\<lambda>p.
     case find_from (\<lambda>fd. p_ofile (ptable s p) fd = None) 0 NOFILE of
       Some fd \<Rightarrow> Ret (Some fd) (set_ofile p fd (Some f) s)
     | None \<Rightarrow> Ret None s)"

definition sys_dup :: "'z mst_scheme \<Rightarrow> ('z mst_scheme, u32) outcome" where
  "sys_dup s =
     bindK (argfd 0 s) (\<lambda>r s.
     case r of
       None \<Rightarrow> Ret (- 1) s
     | Some (_, f) \<Rightarrow>
         bindK (fdalloc f s) (\<lambda>fd s.
         case fd of
           None \<Rightarrow> Ret (- 1) s
         | Some fd \<Rightarrow> bindK (filedup f s) (\<lambda>_ s. Ret (of_nat fd) s)))"

text \<open>The argument checks that \<open>sys_read\<close> and \<open>sys_write\<close> share: the file, the address, the count.\<close>

definition arg_fpn :: "'z mst_scheme \<Rightarrow> ('z mst_scheme, (nat \<times> u32 \<times> u32) option) outcome" where
  "arg_fpn s =
     bindK (argfd 0 s) (\<lambda>r s.
     case r of
       None \<Rightarrow> Ret None s
     | Some (_, f) \<Rightarrow>
         bindK (argint 2 s) (\<lambda>n s.
         case n of
           None \<Rightarrow> Ret None s
         | Some n \<Rightarrow> bindK (argptr 1 n s) (\<lambda>p s. Ret (map_option (\<lambda>p. (f, p, n)) p) s)))"

definition sys_read :: "'z mst_scheme \<Rightarrow> ('z mst_scheme, u32) outcome" where
  "sys_read s =
     bindK (arg_fpn s) (\<lambda>r s.
     case r of
       None \<Rightarrow> Ret (- 1) s
     | Some (f, p, n) \<Rightarrow> bindK (fileread f (MUser p) n s) (\<lambda>r s. Ret (of_int r) s))"

definition sys_write :: "'z mst_scheme \<Rightarrow> ('z mst_scheme, u32) outcome" where
  "sys_write s =
     bindK (arg_fpn s) (\<lambda>r s.
     case r of
       None \<Rightarrow> Ret (- 1) s
     | Some (f, p, n) \<Rightarrow> bindK (filewrite f (MUser p) n s) (\<lambda>r s. Ret (of_int r) s))"

definition sys_close :: "'z mst_scheme \<Rightarrow> ('z mst_scheme, u32) outcome" where
  "sys_close s =
     bindK (argfd 0 s) (\<lambda>r s.
     case r of
       None \<Rightarrow> Ret (- 1) s
     | Some (fd, f) \<Rightarrow>
         myprocK s (\<lambda>p. bindK (fileclose f (set_ofile p fd None s)) (\<lambda>_ s. Ret 0 s)))"

definition le16 :: "u16 \<Rightarrow> u8 list" where "le16 v = [ucast v, ucast (drop_bit 8 v)]"
definition le32 :: "u32 \<Rightarrow> u8 list" where
  "le32 v = [ucast v, ucast (drop_bit 8 v), ucast (drop_bit 16 v), ucast (drop_bit 24 v)]"

text \<open>The stores of \<open>stati\<close> through a user pointer; \<open>struct stat\<close> has two bytes of padding behind each short.\<close>

definition store_stat :: "u32 \<Rightarrow> stat \<Rightarrow> 'z mst_scheme \<Rightarrow> ('z mst_scheme, unit) outcome" where
  "store_stat a st s =
     bindK (store_bytes (MUser a) 4 (le32 (st_dev st)) s) (\<lambda>_ s.
     bindK (store_bytes (MUser a) 8 (le32 (st_ino st)) s) (\<lambda>_ s.
     bindK (store_bytes (MUser a) 0 (le16 (st_type st)) s) (\<lambda>_ s.
     bindK (store_bytes (MUser a) 12 (le16 (st_nlink st)) s) (\<lambda>_ s.
     store_bytes (MUser a) 16 (le32 (st_size st)) s))))"

definition sys_fstat :: "'z mst_scheme \<Rightarrow> ('z mst_scheme, u32) outcome" where
  "sys_fstat s =
     bindK (argfd 0 s) (\<lambda>r s.
     case r of
       None \<Rightarrow> Ret (- 1) s
     | Some (_, f) \<Rightarrow>
         bindK (argptr 1 20 s) (\<lambda>a s.
         case a of
           None \<Rightarrow> Ret (- 1) s
         | Some a \<Rightarrow>
             bindK (filestat f s) (\<lambda>st s.
             case st of
               None \<Rightarrow> Ret (- 1) s
             | Some st \<Rightarrow> bindK (store_stat a st s) (\<lambda>_ s. Ret 0 s))))"

section \<open>Names\<close>

text \<open>\<open>end_op(); return r\<close>, and the same after \<open>iunlockput(ip)\<close>.\<close>

definition end_with :: "u32 \<Rightarrow> 'z mst_scheme \<Rightarrow> ('z mst_scheme, u32) outcome" where
  "end_with r s = bindK (end_op s) (\<lambda>_ s. Ret r s)"

definition put_end :: "nat \<Rightarrow> u32 \<Rightarrow> 'z mst_scheme \<Rightarrow> ('z mst_scheme, u32) outcome" where
  "put_end ip r s = bindK (iunlockput ip s) (\<lambda>_ s. end_with r s)"

definition add_nlink :: "nat \<Rightarrow> u16 \<Rightarrow> 'z mst_scheme \<Rightarrow> ('z mst_scheme, unit) outcome" where
  "add_nlink ip d s = iupdate ip (upd_inode ip (i_nlink_update (\<lambda>n. n + d)) s)"

definition link_bad :: "nat \<Rightarrow> 'z mst_scheme \<Rightarrow> ('z mst_scheme, u32) outcome" where
  "link_bad ip s =
     bindK (ilock ip s) (\<lambda>_ s.
     bindK (add_nlink ip (- 1) s) (\<lambda>_ s. put_end ip (- 1) s))"

definition link_paths :: "u8 list \<Rightarrow> u8 list \<Rightarrow> 'z mst_scheme \<Rightarrow> ('z mst_scheme, u32) outcome" where
  "link_paths old new s =
     bindK (begin_op s) (\<lambda>_ s.
     bindK (namei old s) (\<lambda>ip s.
     case ip of
       None \<Rightarrow> end_with (- 1) s
     | Some ip \<Rightarrow>
         bindK (ilock ip s) (\<lambda>_ s.
         if i_type (icache s ip) = T_DIR then put_end ip (- 1) s
         else
           bindK (add_nlink ip 1 s) (\<lambda>_ s.
           bindK (iunlock ip s) (\<lambda>_ s.
           bindK (nameiparent new (\<lambda>_. 0) s) (\<lambda>(dp, name) s.
           case dp of
             None \<Rightarrow> link_bad ip s
           | Some dp \<Rightarrow>
               bindK (ilock dp s) (\<lambda>_ s.
               bindK (if i_dev (icache s dp) \<noteq> i_dev (icache s ip) then Ret (- 1) s
                      else dirlink dp name (i_inum (icache s ip)) s) (\<lambda>r s.
               bindK (iunlockput dp s) (\<lambda>_ s.
               if r < 0 then link_bad ip s
               else bindK (iput ip s) (\<lambda>_ s. end_with 0 s))))))))))"

definition sys_link :: "'z mst_scheme \<Rightarrow> ('z mst_scheme, u32) outcome" where
  "sys_link s =
     bindK (argstr 0 s) (\<lambda>old s.
     case old of
       None \<Rightarrow> Ret (- 1) s
     | Some old \<Rightarrow>
         bindK (argstr 1 s) (\<lambda>new s.
         case new of None \<Rightarrow> Ret (- 1) s | Some new \<Rightarrow> link_paths old new s))"

fun isdirempty_loop :: "nat \<Rightarrow> nat \<Rightarrow> u32 \<Rightarrow> 'z xst_scheme \<Rightarrow> ('z xst_scheme, bool) outcome" where
  "isdirempty_loop 0 dp off s = Diverge"
| "isdirempty_loop (Suc fuel) dp off s =
     (if off < i_size (icache s dp) then
        bindK (readi dp (MLocal (\<lambda>_. 0)) off (of_nat DIRENT_SIZE) s) (\<lambda>(r, de) s.
        if r \<noteq> int DIRENT_SIZE then Panic ''isdirempty: readi''
        else if de_inum de \<noteq> 0 then Ret False s
        else isdirempty_loop fuel dp (off + of_nat DIRENT_SIZE) s)
      else Ret True s)"

definition isdirempty :: "nat \<Rightarrow> 'z xst_scheme \<Rightarrow> ('z xst_scheme, bool) outcome" where
  "isdirempty dp s =
     isdirempty_loop (dir_fuel (i_size (icache s dp))) dp (of_nat (2 * DIRENT_SIZE)) s"

definition dot :: bytes where "dot = str_bytes (ascii ''.'')"
definition dotdot :: bytes where "dotdot = str_bytes (ascii ''..'')"

text \<open>\<open>sys_unlink\<close> from the point where both inodes are locked and the checks have passed.\<close>

definition unlink_entry ::
  "nat \<Rightarrow> nat \<Rightarrow> u32 \<Rightarrow> 'z mst_scheme \<Rightarrow> ('z mst_scheme, u32) outcome" where
  "unlink_entry dp ip off s =
     bindK (writei dp (MLocal (\<lambda>_. 0)) off (of_nat DIRENT_SIZE) s) (\<lambda>r s.
     if r \<noteq> int DIRENT_SIZE then Panic ''unlink: writei''
     else
       bindK (if i_type (icache s ip) = T_DIR then add_nlink dp (- 1) s else Ret () s) (\<lambda>_ s.
       bindK (iunlockput dp s) (\<lambda>_ s.
       bindK (add_nlink ip (- 1) s) (\<lambda>_ s.
       put_end ip 0 s))))"

definition unlink_path :: "u8 list \<Rightarrow> 'z mst_scheme \<Rightarrow> ('z mst_scheme, u32) outcome" where
  "unlink_path path s =
     bindK (begin_op s) (\<lambda>_ s.
     bindK (nameiparent path (\<lambda>_. 0) s) (\<lambda>(dp, name) s.
     case dp of
       None \<Rightarrow> end_with (- 1) s
     | Some dp \<Rightarrow>
         bindK (ilock dp s) (\<lambda>_ s.
         if namecmp name dot = 0 \<or> namecmp name dotdot = 0 then put_end dp (- 1) s
         else
           bindK (dirlookup dp name s) (\<lambda>r s.
           case r of
             None \<Rightarrow> put_end dp (- 1) s
           | Some (ip, off) \<Rightarrow>
               bindK (ilock ip s) (\<lambda>_ s.
               if sint (i_nlink (icache s ip)) < 1 then Panic ''unlink: nlink < 1''
               else
                 bindK (if i_type (icache s ip) = T_DIR then isdirempty ip s else Ret True s) (\<lambda>ok s.
                 if \<not> ok then bindK (iunlockput ip s) (\<lambda>_ s. put_end dp (- 1) s)
                 else unlink_entry dp ip off s))))))"

definition sys_unlink :: "'z mst_scheme \<Rightarrow> ('z mst_scheme, u32) outcome" where
  "sys_unlink s =
     bindK (argstr 0 s) (\<lambda>path s.
     case path of None \<Rightarrow> Ret (- 1) s | Some path \<Rightarrow> unlink_path path s)"

text \<open>\<open>create\<close> from the point where the new inode is allocated.\<close>

definition create_new ::
  "nat \<Rightarrow> bytes \<Rightarrow> u16 \<Rightarrow> u16 \<Rightarrow> u16 \<Rightarrow> nat \<Rightarrow> 'z mst_scheme \<Rightarrow> ('z mst_scheme, nat option) outcome" where
  "create_new dp name type major minor ip s =
     bindK (ilock ip s) (\<lambda>_ s.
     bindK (iupdate ip (upd_inode ip (\<lambda>q. q\<lparr>i_major := major, i_minor := minor, i_nlink := 1\<rparr>) s)) (\<lambda>_ s.
     bindK (if type = T_DIR then
              bindK (add_nlink dp 1 s) (\<lambda>_ s.
              bindK (dirlink ip dot (i_inum (icache s ip)) s) (\<lambda>r s.
              if r < 0 then Panic ''create dots''
              else
                bindK (dirlink ip dotdot (i_inum (icache s dp)) s) (\<lambda>r s.
                if r < 0 then Panic ''create dots'' else Ret () s)))
            else Ret () s) (\<lambda>_ s.
     bindK (dirlink dp name (i_inum (icache s ip)) s) (\<lambda>r s.
     if r < 0 then Panic ''create: dirlink''
     else bindK (iunlockput dp s) (\<lambda>_ s. Ret (Some ip) s)))))"

definition create ::
  "u8 list \<Rightarrow> u16 \<Rightarrow> u16 \<Rightarrow> u16 \<Rightarrow> 'z mst_scheme \<Rightarrow> ('z mst_scheme, nat option) outcome" where
  "create path type major minor s =
     bindK (nameiparent path (\<lambda>_. 0) s) (\<lambda>(dp, name) s.
     case dp of
       None \<Rightarrow> Ret None s
     | Some dp \<Rightarrow>
         bindK (ilock dp s) (\<lambda>_ s.
         bindK (dirlookup dp name s) (\<lambda>r s.
         case r of
           Some (ip, _) \<Rightarrow>
             bindK (iunlockput dp s) (\<lambda>_ s.
             bindK (ilock ip s) (\<lambda>_ s.
             if type = T_FILE \<and> i_type (icache s ip) = T_FILE then Ret (Some ip) s
             else bindK (iunlockput ip s) (\<lambda>_ s. Ret None s)))
         | None \<Rightarrow>
             bindK (ialloc (i_dev (icache s dp)) type s) (\<lambda>ip s.
             create_new dp name type major minor ip s))))"


text \<open>\<open>sys_open\<close> once the inode is found and locked.\<close>

definition open_inode :: "nat \<Rightarrow> u32 \<Rightarrow> 'z mst_scheme \<Rightarrow> ('z mst_scheme, u32) outcome" where
  "open_inode ip omode s =
     bindK (filealloc s) (\<lambda>f s.
     case f of
       None \<Rightarrow> put_end ip (- 1) s
     | Some f \<Rightarrow>
         bindK (fdalloc f s) (\<lambda>fd s.
         case fd of
           None \<Rightarrow> bindK (fileclose f s) (\<lambda>_ s. put_end ip (- 1) s)
         | Some fd \<Rightarrow>
             bindK (iunlock ip s) (\<lambda>_ s.
             bindK (end_op s) (\<lambda>_ s.
             Ret (of_nat fd) (upd_file f (\<lambda>g. g\<lparr>f_type := FD_INODE, f_ip := Some ip, f_off := 0,
               f_readable := (omode AND O_WRONLY = 0),
               f_writable := (omode AND O_WRONLY \<noteq> 0 \<or> omode AND O_RDWR \<noteq> 0)\<rparr>) s)))))"

definition open_path :: "u8 list \<Rightarrow> u32 \<Rightarrow> 'z mst_scheme \<Rightarrow> ('z mst_scheme, u32) outcome" where
  "open_path path omode s =
     bindK (begin_op s) (\<lambda>_ s.
     if omode AND O_CREATE \<noteq> 0 then
       bindK (create path T_FILE 0 0 s) (\<lambda>ip s.
       case ip of None \<Rightarrow> end_with (- 1) s | Some ip \<Rightarrow> open_inode ip omode s)
     else
       bindK (namei path s) (\<lambda>ip s.
       case ip of
         None \<Rightarrow> end_with (- 1) s
       | Some ip \<Rightarrow>
           bindK (ilock ip s) (\<lambda>_ s.
           if i_type (icache s ip) = T_DIR \<and> omode \<noteq> O_RDONLY then put_end ip (- 1) s
           else open_inode ip omode s)))"

definition sys_open :: "'z mst_scheme \<Rightarrow> ('z mst_scheme, u32) outcome" where
  "sys_open s =
     bindK (argstr 0 s) (\<lambda>path s.
     case path of
       None \<Rightarrow> Ret (- 1) s
     | Some path \<Rightarrow>
         bindK (argint 1 s) (\<lambda>omode s.
         case omode of None \<Rightarrow> Ret (- 1) s | Some omode \<Rightarrow> open_path path omode s))"

definition make_node ::
  "u8 list option \<Rightarrow> u16 \<Rightarrow> u16 \<Rightarrow> u16 \<Rightarrow> 'z mst_scheme \<Rightarrow> ('z mst_scheme, u32) outcome" where
  "make_node path type major minor s =
     (case path of
        None \<Rightarrow> end_with (- 1) s
      | Some path \<Rightarrow>
          bindK (create path type major minor s) (\<lambda>ip s.
          case ip of None \<Rightarrow> end_with (- 1) s | Some ip \<Rightarrow> put_end ip 0 s))"

definition sys_mkdir :: "'z mst_scheme \<Rightarrow> ('z mst_scheme, u32) outcome" where
  "sys_mkdir s =
     bindK (begin_op s) (\<lambda>_ s.
     bindK (argstr 0 s) (\<lambda>path s.
     make_node path T_DIR 0 0 s))"

definition sys_mknod :: "'z mst_scheme \<Rightarrow> ('z mst_scheme, u32) outcome" where
  "sys_mknod s =
     bindK (begin_op s) (\<lambda>_ s.
     bindK (argstr 0 s) (\<lambda>path s.
     if path = None then end_with (- 1) s
     else
       bindK (argint 1 s) (\<lambda>major s.
       case major of
         None \<Rightarrow> end_with (- 1) s
       | Some major \<Rightarrow>
           bindK (argint 2 s) (\<lambda>minor s.
           case minor of
             None \<Rightarrow> end_with (- 1) s
           | Some minor \<Rightarrow> make_node path T_DEV (ucast major) (ucast minor) s))))"

definition chdir_path :: "u8 list \<Rightarrow> 'z mst_scheme \<Rightarrow> ('z mst_scheme, u32) outcome" where
  "chdir_path path s =
     bindK (namei path s) (\<lambda>ip s.
     case ip of
       None \<Rightarrow> end_with (- 1) s
     | Some ip \<Rightarrow>
         bindK (ilock ip s) (\<lambda>_ s.
         if i_type (icache s ip) \<noteq> T_DIR then put_end ip (- 1) s
         else
           bindK (iunlock ip s) (\<lambda>_ s.
           myprocK s (\<lambda>p.
           case p_cwd (ptable s p) of
             None \<Rightarrow> Undef ''null cwd''
           | Some old \<Rightarrow>
               bindK (iput old s) (\<lambda>_ s.
               bindK (end_op s) (\<lambda>_ s.
               Ret 0 (upd_proc p (p_cwd_update (\<lambda>_. Some ip)) s)))))))"

definition sys_chdir :: "'z mst_scheme \<Rightarrow> ('z mst_scheme, u32) outcome" where
  "sys_chdir s =
     bindK (begin_op s) (\<lambda>_ s.
     bindK (argstr 0 s) (\<lambda>path s.
     case path of None \<Rightarrow> end_with (- 1) s | Some path \<Rightarrow> chdir_path path s))"

text \<open>The loop of \<open>sys_exec\<close> over the argument pointers, with \<open>k\<close> entries of \<open>argv\<close> left.\<close>

fun exec_fetch :: "nat \<Rightarrow> u32 \<Rightarrow> 'z mst_scheme \<Rightarrow> ('z mst_scheme, u8 list list option) outcome" where
  "exec_fetch 0 ua s = Ret None s"
| "exec_fetch (Suc k) ua s =
     bindK (fetchint ua s) (\<lambda>uarg s.
     case uarg of
       None \<Rightarrow> Ret None s
     | Some uarg \<Rightarrow>
         if uarg = 0 then Ret (Some []) s
         else
           bindK (fetchstr uarg s) (\<lambda>a s.
           case a of
             None \<Rightarrow> Ret None s
           | Some a \<Rightarrow> bindK (exec_fetch k (ua + 4) s) (\<lambda>r s. Ret (map_option ((#) a) r) s)))"

definition sys_exec :: "'z mst_scheme \<Rightarrow> ('z mst_scheme, u32) outcome" where
  "sys_exec s =
     bindK (argstr 0 s) (\<lambda>path s.
     case path of
       None \<Rightarrow> Ret (- 1) s
     | Some path \<Rightarrow>
         bindK (argint 1 s) (\<lambda>ua s.
         case ua of
           None \<Rightarrow> Ret (- 1) s
         | Some ua \<Rightarrow>
             bindK (exec_fetch MAXARG ua s) (\<lambda>argv s.
             case argv of
               None \<Rightarrow> Ret (- 1) s
             | Some argv \<Rightarrow> bindK (exec path argv s) (\<lambda>r s. Ret (of_int r) s))))"

definition pipe_close2 :: "nat \<Rightarrow> nat \<Rightarrow> 'z mst_scheme \<Rightarrow> ('z mst_scheme, u32) outcome" where
  "pipe_close2 fr fw s =
     bindK (fileclose fr s) (\<lambda>_ s. bindK (fileclose fw s) (\<lambda>_ s. Ret (- 1) s))"

definition sys_pipe :: "'z mst_scheme \<Rightarrow> ('z mst_scheme, u32) outcome" where
  "sys_pipe s =
     bindK (argptr 0 8 s) (\<lambda>fd s.
     case fd of
       None \<Rightarrow> Ret (- 1) s
     | Some fd \<Rightarrow>
         bindK (pipealloc s) (\<lambda>r s.
         case r of
           None \<Rightarrow> Ret (- 1) s
         | Some (fr, fw) \<Rightarrow>
             bindK (fdalloc fr s) (\<lambda>fd0 s.
             case fd0 of
               None \<Rightarrow> pipe_close2 fr fw s
             | Some fd0 \<Rightarrow>
                 bindK (fdalloc fw s) (\<lambda>fd1 s.
                 case fd1 of
                   None \<Rightarrow> myprocK s (\<lambda>p. pipe_close2 fr fw (set_ofile p fd0 None s))
                 | Some fd1 \<Rightarrow>
                     bindK (store_bytes (MUser fd) 0 (le32 (of_nat fd0)) s) (\<lambda>_ s.
                     bindK (store_bytes (MUser fd) 4 (le32 (of_nat fd1)) s) (\<lambda>_ s.
                     Ret 0 s))))))"

end
