(* ===== verification/Xv6_Kbd.thy ===== *)
theory Xv6_Kbd
  imports Xv6_Prelude
begin

unbundle bit_operations_syntax

text \<open>
  The keyboard driver (src/kbd.c, src/kbd.h): scan codes to characters. The scan codes waiting in the
  controller are a list; \<open>kbdgetc\<close> takes the first one, and \<open>shift\<close> is its static variable.
\<close>

section \<open>Key codes\<close>

definition SHIFT :: u32 where "SHIFT = 1"
definition CTL :: u32 where "CTL = 2"
definition ALT :: u32 where "ALT = 4"
definition CAPSLOCK :: u32 where "CAPSLOCK = 8"
definition NUMLOCK :: u32 where "NUMLOCK = 16"
definition SCROLLLOCK :: u32 where "SCROLLLOCK = 32"
definition E0ESC :: u32 where "E0ESC = 64"

definition shiftcode :: "u8 \<Rightarrow> u32" where
  "shiftcode d =
     (if d = 0x1D \<or> d = 0x9D then CTL else if d = 0x2A \<or> d = 0x36 then SHIFT
      else if d = 0x38 \<or> d = 0xB8 then ALT else 0)"

definition togglecode :: "u8 \<Rightarrow> u32" where
  "togglecode d =
     (if d = 0x3A then CAPSLOCK else if d = 0x45 then NUMLOCK else if d = 0x46 then SCROLLLOCK else 0)"

text \<open>The keys that the three maps share: arrows, home, end, page and edit keys.\<close>

definition special_keys :: "(u8 \<times> u8) list" where
  "special_keys = [(0xC8, 0xE2), (0xD0, 0xE3), (0xC9, 0xE6), (0xD1, 0xE7), (0xCB, 0xE4), (0xCD, 0xE5),
     (0x97, 0xE0), (0xCF, 0xE1), (0xD2, 0xE8), (0xD3, 0xE9)]"

definition keymap :: "u8 list \<Rightarrow> u8 \<Rightarrow> u8 \<Rightarrow> u8 \<Rightarrow> u8" where
  "keymap tbl enter slsh d =
     (if unat d < length tbl then tbl ! unat d
      else if d = 0x9C then enter
      else if d = 0xB5 then slsh
      else case map_of special_keys d of None \<Rightarrow> 0 | Some c \<Rightarrow> c)"

definition keys :: "string \<Rightarrow> u8 list" where "keys cs = map of_char cs"

definition ctl_keys :: "string \<Rightarrow> u8 list" where "ctl_keys cs = map (\<lambda>c. of_char c - 64) cs"

definition normalmap :: "u8 \<Rightarrow> u8" where
  "normalmap = keymap
     ([0, 0x1B] @ keys ''1234567890-='' @ [8, 9] @ keys ''qwertyuiop[]'' @ [10, 0] @ keys ''asdfghjkl;''
        @ [0x27, 0x60, 0, 0x5C] @ keys ''zxcvbnm,./'' @ [0] @ keys ''*'' @ [0, 0x20] @ replicate 13 0
        @ keys ''789-456+1230.'')
     10 0x2F"

definition shiftmap :: "u8 \<Rightarrow> u8" where
  "shiftmap = keymap
     ([0, 0x1B] @ keys ''!@#$%^&*()_+'' @ [8, 9] @ keys ''QWERTYUIOP{}'' @ [10, 0] @ keys ''ASDFGHJKL:''
        @ [0x22, 0x7E, 0, 0x7C] @ keys ''ZXCVBNM<>?'' @ [0] @ keys ''*'' @ [0, 0x20] @ replicate 13 0
        @ keys ''789-456+1230.'')
     10 0x2F"

definition ctlmap :: "u8 \<Rightarrow> u8" where
  "ctlmap = keymap
     (replicate 16 0 @ ctl_keys ''QWERTYUIOP'' @ [0, 0, 13, 0] @ ctl_keys ''ASDFGHJKL'' @ replicate 4 0
        @ [0x5C - 64] @ ctl_keys ''ZXCVBNM'' @ [0, 0, 0x2F - 64, 0, 0])
     13 (0x2F - 64)"

definition charcode :: "u32 \<Rightarrow> u8 \<Rightarrow> u8" where
  "charcode i = (if i = 0 then normalmap else if i = SHIFT then shiftmap else ctlmap)"

section \<open>kbdgetc\<close>

definition caps :: "u8 \<Rightarrow> u8" where
  "caps c = (if 97 \<le> c \<and> c \<le> 122 then c - 32 else if 65 \<le> c \<and> c \<le> 90 then c + 32 else c)"

text \<open>What \<open>kbdgetc\<close> does with one scan code: the character it returns (0 for none) and the new \<open>shift\<close>.\<close>

definition kbd_scan :: "u32 \<Rightarrow> u8 \<Rightarrow> u8 \<times> u32" where
  "kbd_scan shift data =
     (if data = 0xE0 then (0, shift OR E0ESC)
      else if data AND 0x80 \<noteq> 0 then
        (let data = (if shift AND E0ESC \<noteq> 0 then data else data AND 0x7F)
         in (0, shift AND NOT (shiftcode data OR E0ESC)))
      else
        let (data, shift) = (if shift AND E0ESC \<noteq> 0 then (data OR 0x80, shift AND NOT E0ESC)
                             else (data, shift));
            shift = shift OR shiftcode data;
            shift = shift XOR togglecode data;
            c = charcode (shift AND (CTL OR SHIFT)) data
        in (if shift AND CAPSLOCK \<noteq> 0 then caps c else c, shift))"

definition kbdgetc :: "u32 \<Rightarrow> u8 list \<Rightarrow> int \<times> u32 \<times> u8 list" where
  "kbdgetc shift q =
     (case q of [] \<Rightarrow> (- 1, shift, []) | d # q \<Rightarrow> (case kbd_scan shift d of (c, sh) \<Rightarrow> (uint c, sh, q)))"

text \<open>What the loop \<open>while((c = getc()) >= 0)\<close> of the console sees.\<close>

fun kbd_chars :: "u32 \<Rightarrow> u8 list \<Rightarrow> nat list \<times> u32" where
  "kbd_chars shift [] = ([], shift)"
| "kbd_chars shift (d # q) =
     (case kbd_scan shift d of (c, sh) \<Rightarrow> (case kbd_chars sh q of (cs, sh) \<Rightarrow> (unat c # cs, sh)))"

end
