(* ===== verification/Xv6_Trap.thy ===== *)
theory Xv6_Trap
  imports Xv6_Sysfile Xv6_Kbd
begin

unbundle bit_operations_syntax

text \<open>
  Entry into the kernel: the system calls on processes (src/sysproc.c), the dispatcher with the log
  of system calls (src/syscall.c) and the trap handler (src/trap.c). A system call that sleeps leaves
  the CPU inside \<open>syscall\<close>; what follows is the \<open>_resume\<close> definition of the operation that slept.
\<close>

section \<open>System calls on processes\<close>

definition sys_kill :: "'z mst_scheme \<Rightarrow> ('z mst_scheme, u32) outcome" where
  "sys_kill s =
     bindK (argint 0 s) (\<lambda>pid s.
     case pid of None \<Rightarrow> Ret (- 1) s | Some pid \<Rightarrow> bindK (kill pid s) (\<lambda>r s. Ret (of_int r) s))"

definition sys_fork :: "'z mst_scheme \<Rightarrow> ('z mst_scheme, u32) outcome" where "sys_fork s = fork s"

definition sys_exit :: "'z mst_scheme \<Rightarrow> ('z mst_scheme, u32) outcome" where
  "sys_exit s = bindK (exit s) (\<lambda>_ :: unit. \<lambda>s. Ret 0 s)"

definition sys_wait :: "'z mst_scheme \<Rightarrow> ('z mst_scheme, u32) outcome" where "sys_wait s = wait s"

definition sys_getpid :: "'z mst_scheme \<Rightarrow> ('z mst_scheme, u32) outcome" where
  "sys_getpid s = myprocK s (\<lambda>p. Ret (p_pid (ptable s p)) s)"

definition sys_sbrk :: "'z mst_scheme \<Rightarrow> ('z mst_scheme, u32) outcome" where
  "sys_sbrk s =
     bindK (argint 0 s) (\<lambda>n s.
     case n of
       None \<Rightarrow> Ret (- 1) s
     | Some n \<Rightarrow>
         myprocK s (\<lambda>p.
         let addr = p_sz (ptable s p)
         in bindK (growproc n s) (\<lambda>r s. if r < 0 then Ret (- 1) s else Ret addr s)))"

text \<open>The loop of \<open>sys_sleep\<close>, entered with \<open>tickslock\<close> held; \<open>ticks0\<close> stays in the frame.\<close>

definition sys_sleep_loop :: "u32 \<Rightarrow> u32 \<Rightarrow> 'z mst_scheme \<Rightarrow> ('z mst_scheme, u32) outcome" where
  "sys_sleep_loop n ticks0 s =
     (if ticks s - ticks0 < n then
        myprocK s (\<lambda>p.
        if p_killed (ptable s p) then bindK (release LTicks s) (\<lambda>_ s. Ret (- 1) s)
        else sleep (unat ticks0) ChTicks LTicks s)
      else bindK (release LTicks s) (\<lambda>_ s. Ret 0 s))"

definition sys_sleep :: "'z mst_scheme \<Rightarrow> ('z mst_scheme, u32) outcome" where
  "sys_sleep s =
     bindK (argint 0 s) (\<lambda>n s.
     case n of
       None \<Rightarrow> Ret (- 1) s
     | Some n \<Rightarrow> bindK (acquire LTicks s) (\<lambda>_ s. sys_sleep_loop n (ticks s) s))"

definition sys_sleep_resume :: "u32 \<Rightarrow> nat \<Rightarrow> 'z mst_scheme \<Rightarrow> ('z mst_scheme, u32) outcome" where
  "sys_sleep_resume n k s =
     bindK (sleep_resume LTicks s) (\<lambda>_ s. sys_sleep_loop n (of_nat k) s)"

definition sys_uptime :: "'z mst_scheme \<Rightarrow> ('z mst_scheme, u32) outcome" where
  "sys_uptime s =
     bindK (acquire LTicks s) (\<lambda>_ s.
     let xticks = ticks s in bindK (release LTicks s) (\<lambda>_ s. Ret xticks s))"

definition sys_set_alarm :: "'z mst_scheme \<Rightarrow> ('z mst_scheme, u32) outcome" where
  "sys_set_alarm s =
     bindK (argint 0 s) (\<lambda>n s.
     case n of None \<Rightarrow> Ret (- 1) s | Some n \<Rightarrow> bindK (set_alarm n s) (\<lambda>_ s. Ret 0 s))"

text \<open>\<open>sys_set_edx\<close>, \<open>sys_set_tickets\<close> and \<open>sys_set_queue\<close> pass their argument on.\<close>

definition with_arg0 ::
  "(u32 \<Rightarrow> 'z mst_scheme \<Rightarrow> ('z mst_scheme, int) outcome) \<Rightarrow> 'z mst_scheme \<Rightarrow> ('z mst_scheme, u32) outcome" where
  "with_arg0 f s =
     bindK (argint 0 s) (\<lambda>v s.
     case v of None \<Rightarrow> Ret (- 1) s | Some v \<Rightarrow> bindK (f v s) (\<lambda>r s. Ret (of_int r) s))"

definition sys_set_edx :: "'z mst_scheme \<Rightarrow> ('z mst_scheme, u32) outcome" where
  "sys_set_edx s = with_arg0 set_edx s"

definition sys_set_tickets :: "'z mst_scheme \<Rightarrow> ('z mst_scheme, u32) outcome" where
  "sys_set_tickets s = with_arg0 set_tickets s"

definition sys_set_queue :: "'z mst_scheme \<Rightarrow> ('z mst_scheme, u32) outcome" where
  "sys_set_queue s = with_arg0 set_queue s"

definition sys_count_num_of_digits :: "'z mst_scheme \<Rightarrow> ('z mst_scheme, u32) outcome" where
  "sys_count_num_of_digits s = count_num_of_digits s"

definition sys_print_syscalls :: "'z mst_scheme \<Rightarrow> ('z mst_scheme, u32) outcome" where
  "sys_print_syscalls s = print_syscalls s"

definition sys_read_registers :: "'z mst_scheme \<Rightarrow> ('z mst_scheme, u32) outcome" where
  "sys_read_registers s = read_registers s"

definition sys_ps :: "'z mst_scheme \<Rightarrow> ('z mst_scheme, u32) outcome" where
  "sys_ps s = ps s"

section \<open>The dispatcher\<close>

text \<open>The table \<open>syscalls\<close>; the calls of index 1 to 29 are all set.\<close>

definition syscalls :: "('z mst_scheme \<Rightarrow> ('z mst_scheme, u32) outcome) list" where
  "syscalls =
     [sys_fork, sys_exit, sys_wait, sys_pipe, sys_read, sys_kill, sys_exec, sys_fstat, sys_chdir,
      sys_dup, sys_getpid, sys_sbrk, sys_sleep, sys_uptime, sys_open, sys_write, sys_mknod, sys_unlink,
      sys_link, sys_mkdir, sys_close, sys_count_num_of_digits, sys_set_alarm, sys_print_syscalls,
      sys_set_edx, sys_read_registers, sys_ps, sys_set_tickets, sys_set_queue]"

definition set_eax :: "nat \<Rightarrow> u32 \<Rightarrow> 'z pst_scheme \<Rightarrow> 'z pst_scheme" where
  "set_eax p v s = upd_proc p (\<lambda>q. q\<lparr>p_tf := (p_tf q)\<lparr>tf_eax := v\<rparr>\<rparr>) s"

text \<open>The entry that \<open>syscall\<close> adds to the log of the process, when there was room before the call.\<close>

definition log_slot_of :: "proc \<Rightarrow> nat option" where
  "log_slot_of q = find_from (\<lambda>i. callno (p_sysclog q i) = 0) 0 NLOGPAIR"

definition log_call :: "nat \<Rightarrow> nat option \<Rightarrow> u32 \<Rightarrow> 'z pst_scheme \<Rightarrow> 'z pst_scheme" where
  "log_call p slot num s =
     (case slot of
        None \<Rightarrow> s
      | Some i \<Rightarrow>
          upd_proc p (\<lambda>q. q\<lparr>p_sysclog := (p_sysclog q)(i := \<lparr>callno = num, retval = tf_eax (p_tf q)\<rparr>)\<rparr>) s)"

definition syscall :: "'z mst_scheme \<Rightarrow> ('z mst_scheme, unit) outcome" where
  "syscall s =
     myprocK s (\<lambda>p.
     let slot = log_slot_of (ptable s p); num = tf_eax (p_tf (ptable s p))
     in if sint num > 0 \<and> unat num \<le> length (syscalls :: ('z mst_scheme \<Rightarrow> ('z mst_scheme, u32) outcome) list) then
          bindK ((syscalls ! (unat num - 1)) s) (\<lambda>r s.
          Ret () (log_call p slot num (set_eax p r s)))
        else
          nameK (p_name (ptable s p)) (\<lambda>nm.
          bindK (cprintf (''%d %s: unknown sys call %d'' @ newline) [AInt (p_pid (ptable s p)), nm, AInt num] s)
            (\<lambda>_ s. Ret () (set_eax p (- 1) s))))"

section \<open>Traps\<close>

definition T_SYSCALL :: u32 where "T_SYSCALL = 64"
definition T_IRQ0 :: u32 where "T_IRQ0 = 32"
definition IRQ_TIMER :: u32 where "IRQ_TIMER = 0"
definition IRQ_KBD :: u32 where "IRQ_KBD = 1"
definition IRQ_COM1 :: u32 where "IRQ_COM1 = 4"
definition IRQ_IDE :: u32 where "IRQ_IDE = 14"
definition IRQ_SPURIOUS :: u32 where "IRQ_SPURIOUS = 31"

text \<open>
  What the hardware supplies to a trap: the number of the CPU, the faulting address register, and the
  characters that the keyboard or the serial port has ready.
\<close>

record trap_env =
  te_cpu :: u32
  te_cr2 :: u32
  te_kbd :: "nat list"
  te_uart :: "nat list"

definition kbdintr :: "nat list \<Rightarrow> 'z mst_scheme \<Rightarrow> ('z mst_scheme, unit) outcome" where
  "kbdintr cs s = consoleintr cs s"

definition uartintr :: "nat list \<Rightarrow> 'z mst_scheme \<Rightarrow> ('z mst_scheme, unit) outcome" where
  "uartintr cs s = consoleintr cs s"

definition ideintr :: "'z mst_scheme \<Rightarrow> ('z mst_scheme, unit) outcome" where
  "ideintr s = Ret () s"

definition clock_tick :: "'z mst_scheme \<Rightarrow> ('z mst_scheme, unit) outcome" where
  "clock_tick s =
     bindK (acquire LTicks s) (\<lambda>_ s.
     bindK (wakeup ChTicks (s\<lparr>ticks := ticks s + 1\<rparr>)) (\<lambda>_ s.
     release LTicks s))"

definition user_mode :: "trapframe \<Rightarrow> bool" where "user_mode tf \<longleftrightarrow> tf_cs tf AND 3 = DPL_USER"

definition bad_trap :: "trap_env \<Rightarrow> trapframe \<Rightarrow> 'z mst_scheme \<Rightarrow> ('z mst_scheme, unit) outcome" where
  "bad_trap env tf s =
     (if cur s = None \<or> tf_cs tf AND 3 = 0 then
        bindK (cprintf (''unexpected trap %d from cpu %d eip %x (cr2=0x%x)'' @ newline)
          [AInt (tf_trapno tf), AInt (te_cpu env), AInt (tf_eip tf), AInt (te_cr2 env)] s) (\<lambda>_ s.
        Panic ''trap'')
      else
        myprocK s (\<lambda>p.
        nameK (p_name (ptable s p)) (\<lambda>nm.
        bindK (cprintf (''pid %d %s: trap %d err %d on cpu %d eip 0x%x addr 0x%x--kill proc'' @ newline)
          [AInt (p_pid (ptable s p)), nm, AInt (tf_trapno tf), AInt (tf_err tf), AInt (te_cpu env),
           AInt (tf_eip tf), AInt (te_cr2 env)] s) (\<lambda>_ s.
        Ret () (upd_proc p (p_killed_update (\<lambda>_. True)) s)))))"

definition trap_switch :: "trap_env \<Rightarrow> trapframe \<Rightarrow> 'z mst_scheme \<Rightarrow> ('z mst_scheme, unit) outcome" where
  "trap_switch env tf s =
     (let n = tf_trapno tf
      in if n = T_IRQ0 + IRQ_TIMER then (if te_cpu env = 0 then clock_tick s else Ret () s)
         else if n = T_IRQ0 + IRQ_IDE then ideintr s
         else if n = T_IRQ0 + IRQ_IDE + 1 then Ret () s
         else if n = T_IRQ0 + IRQ_KBD then kbdintr (te_kbd env) s
         else if n = T_IRQ0 + IRQ_COM1 then uartintr (te_uart env) s
         else if n = T_IRQ0 + 7 \<or> n = T_IRQ0 + IRQ_SPURIOUS then
           cprintf (''cpu%d: spurious interrupt at %x:%x'' @ newline)
             [AInt (te_cpu env), AInt (ucast (tf_cs tf)), AInt (tf_eip tf)] s
         else bad_trap env tf s)"

definition exit_if_killed :: "trapframe \<Rightarrow> 'z mst_scheme \<Rightarrow> ('z mst_scheme, unit) outcome" where
  "exit_if_killed tf s =
     (case cur s of
        None \<Rightarrow> Ret () s
      | Some p \<Rightarrow> if p_killed (ptable s p) \<and> user_mode tf then exit s else Ret () s)"

definition trap :: "trap_env \<Rightarrow> trapframe \<Rightarrow> 'z mst_scheme \<Rightarrow> ('z mst_scheme, unit) outcome" where
  "trap env tf s =
     (if tf_trapno tf = T_SYSCALL then
        myprocK s (\<lambda>p.
        bindK (if p_killed (ptable s p) then exit s else Ret () s) (\<lambda>_ s.
        bindK (syscall (upd_proc p (p_tf_update (\<lambda>_. tf)) s)) (\<lambda>_ s.
        myprocK s (\<lambda>p. if p_killed (ptable s p) then exit s else Ret () s))))
      else
        bindK (trap_switch env tf s) (\<lambda>_ s.
        bindK (exit_if_killed tf s) (\<lambda>_ s.
        bindK (case cur s of
                 None \<Rightarrow> Ret () s
               | Some p \<Rightarrow>
                   if p_state (ptable s p) = RUNNING \<and> tf_trapno tf = T_IRQ0 + IRQ_TIMER
                   then yield s else Ret () s) (\<lambda>_ s.
        exit_if_killed tf s))))"

text \<open>The rest of \<open>trap\<close> after a process that yielded runs again.\<close>

definition trap_resume :: "trapframe \<Rightarrow> 'z mst_scheme \<Rightarrow> ('z mst_scheme, unit) outcome" where
  "trap_resume tf s = bindK (yield_resume s) (\<lambda>_ s. exit_if_killed tf s)"

end
