(* ===== verification/Xv6_Bio_Inv.thy ===== *)
theory Xv6_Bio_Inv
  imports Xv6_Bio
begin

unbundle bit_operations_syntax

text \<open>
  What the buffer cache promises. The first part is about the ring: the code's updates of \<open>prev\<close> and
  \<open>next\<close> implement a list of buffers, most recently used first. The second part is the invariant
  \<open>bio_ok\<close> and the contract of \<open>bread\<close>, \<open>bwrite\<close> and \<open>brelse\<close>: the cache is a transparent layer over
  the disk (\<open>blk\<close> is the content of a block as the kernel sees it), it never evicts a modified buffer,
  and it writes exactly the blocks that \<open>bwrite\<close> names.
\<close>

section \<open>The ring is a list\<close>

definition ring :: "(nat \<Rightarrow> buf) \<Rightarrow> nat list \<Rightarrow> bool" where
  "ring bf xs \<longleftrightarrow> distinct (NBUF # xs)
     \<and> map (\<lambda>i. b_next (bf i)) (NBUF # xs) = xs @ [NBUF]
     \<and> map (\<lambda>i. b_prev (bf i)) (xs @ [NBUF]) = NBUF # xs"

lemma bget_cached_find:
  assumes "map (\<lambda>i. b_next (bufs s i)) ys = tl (ys @ [NBUF])" "NBUF \<notin> set ys" "length ys < fuel"
  shows "bget_cached fuel dev bn (hd (ys @ [NBUF])) s
    = Ret (find (\<lambda>b. b_dev (bufs s b) = dev \<and> b_blockno (bufs s b) = bn) ys) s"
  using assms
proof (induction ys arbitrary: fuel)
  case Nil
  then show ?case by (cases fuel) auto
next
  case (Cons y ys)
  then obtain f where f: "fuel = Suc f" by (cases fuel) auto
  have "b_next (bufs s y) = hd (ys @ [NBUF])"
    using Cons.prems(1) by (cases ys) auto
  moreover have "map (\<lambda>i. b_next (bufs s i)) ys = tl (ys @ [NBUF])"
    using Cons.prems(1) by (cases ys) auto
  ultimately show ?case using Cons f by auto
qed

lemma bget_unused_find:
  assumes "map (\<lambda>i. b_prev (bufs s i)) ys = butlast (NBUF # ys)" "NBUF \<notin> set ys" "length ys < fuel"
  shows "bget_unused fuel (last (NBUF # ys)) s
    = Ret (find (\<lambda>b. b_refcnt (bufs s b) = 0 \<and> b_flags (bufs s b) AND B_DIRTY = 0) (rev ys)) s"
  using assms
proof (induction ys arbitrary: fuel rule: rev_induct)
  case Nil
  then show ?case by (cases fuel) auto
next
  case (snoc y ys)
  then obtain f where f: "fuel = Suc f" by (cases fuel) auto
  have eq: "map (\<lambda>i. b_prev (bufs s i)) ys @ [b_prev (bufs s y)] = NBUF # ys"
    using snoc.prems(1) by (simp add: butlast_append)
  then have "b_prev (bufs s y) = last (NBUF # ys)" "map (\<lambda>i. b_prev (bufs s i)) ys = butlast (NBUF # ys)"
    by (metis last_snoc) (metis eq butlast_snoc)
  moreover from this snoc have "bget_unused f (last (NBUF # ys)) s
      = Ret (find (\<lambda>b. b_refcnt (bufs s b) = 0 \<and> b_flags (bufs s b) AND B_DIRTY = 0) (rev ys)) s"
    using f by (simp del: last.simps butlast.simps)
  moreover have "last (NBUF # ys @ [y]) = y" by simp
  ultimately show ?case using snoc.prems(2) f by (simp del: last.simps butlast.simps)
qed

declare bget_cached.simps [simp del] bget_unused.simps [simp del]

lemma ring_search:
  assumes "ring (bufs s) xs" "length xs = NBUF"
  shows "bget_cached (Suc NBUF) dev bn (b_next (bufs s NBUF)) s
      = Ret (find (\<lambda>b. b_dev (bufs s b) = dev \<and> b_blockno (bufs s b) = bn) xs) s"
    and "bget_unused (Suc NBUF) (b_prev (bufs s NBUF)) s
      = Ret (find (\<lambda>b. b_refcnt (bufs s b) = 0 \<and> b_flags (bufs s b) AND B_DIRTY = 0) (rev xs)) s"
proof -
  have n: "b_next (bufs s NBUF) # map (\<lambda>i. b_next (bufs s i)) xs = xs @ [NBUF]"
    and p: "map (\<lambda>i. b_prev (bufs s i)) xs @ [b_prev (bufs s NBUF)] = NBUF # xs"
    and d: "NBUF \<notin> set xs"
    using assms(1) by (auto simp: ring_def)
  have "b_next (bufs s NBUF) = hd (xs @ [NBUF])" "map (\<lambda>i. b_next (bufs s i)) xs = tl (xs @ [NBUF])"
    using n by (metis list.sel(1)) (metis n list.sel(3))
  then show "bget_cached (Suc NBUF) dev bn (b_next (bufs s NBUF)) s
      = Ret (find (\<lambda>b. b_dev (bufs s b) = dev \<and> b_blockno (bufs s b) = bn) xs) s"
    using bget_cached_find [of s xs "Suc NBUF" dev bn] d assms(2) by simp
  have "b_prev (bufs s NBUF) = last (NBUF # xs)" "map (\<lambda>i. b_prev (bufs s i)) xs = butlast (NBUF # xs)"
    using p by (metis last_snoc) (metis p butlast_snoc)
  then show "bget_unused (Suc NBUF) (b_prev (bufs s NBUF)) s
      = Ret (find (\<lambda>b. b_refcnt (bufs s b) = 0 \<and> b_flags (bufs s b) AND B_DIRTY = 0) (rev xs)) s"
    using bget_unused_find [of s xs "Suc NBUF"] d assms(2) by (simp del: last.simps)
qed

subsection \<open>Linking and unlinking\<close>

lemma map_upd_last:
  assumes "distinct zs" "zs \<noteq> []" "map f zs = ys @ [b]"
  shows "map (f(last zs := n)) zs = ys @ [n]"
  using assms by (cases zs rule: rev_cases) auto

lemma map_upd_hd:
  assumes "distinct zs" "zs \<noteq> []" "map f zs = b # ys"
  shows "map (f(hd zs := n)) zs = n # ys"
  using assms by (cases zs) (auto simp: map_fun_upd)

lemma unlink_lists:
  fixes N P :: "nat \<Rightarrow> nat"
  assumes d: "distinct (h # us @ b # vs)"
    and N: "map N (h # us @ b # vs) = us @ b # vs @ [h]"
    and P: "map P (us @ b # vs @ [h]) = h # us @ b # vs"
  shows "map (N(P b := N b)) (h # us @ vs) = us @ vs @ [h]"
    and "map (P(N b := P b)) (us @ vs @ [h]) = h # us @ vs"
    and "P b \<noteq> b" "N b \<noteq> b"
proof -
  have N1: "map N (h # us) = us @ [b]" and N2: "map N (b # vs) = vs @ [h]"
    using append_eq_append_conv [of "map N (h # us)" "us @ [b]" "map N (b # vs)" "vs @ [h]"] N by auto
  have P1: "map P (us @ [b]) = h # us" and P2: "map P (vs @ [h]) = b # vs"
    using append_eq_append_conv [of "map P (us @ [b])" "h # us" "map P (vs @ [h])" "b # vs"] P by auto
  have Pb: "P b = last (h # us)" using P1 by (metis last_snoc map_append list.map)
  have Nb: "N b = hd (vs @ [h])" using N2 by (metis list.sel(1) list.simps(9))
  have d1: "distinct (h # us)" "distinct (vs @ [h])" using d by auto
  show "P b \<noteq> b" "N b \<noteq> b" using d Pb Nb by (auto simp: last_in_set hd_append split: if_splits)
  have a: "map (N(P b := N b)) (h # us) = us @ [N b]"
    unfolding Pb by (rule map_upd_last [OF d1(1) _ N1]) simp
  have "P b \<in> set (h # us)" unfolding Pb by (rule last_in_set) simp
  then have "P b \<notin> set vs" using d by auto
  then have "map (N(P b := N b)) vs = map N vs" by (simp add: map_fun_upd)
  also have "\<dots> = tl (vs @ [h])" using N2 by (metis list.sel(3) list.simps(9))
  finally have b: "N b # map (N(P b := N b)) vs = vs @ [h]" using Nb by (cases vs) auto
  have "map (N(P b := N b)) (h # us @ vs) = map (N(P b := N b)) (h # us) @ map (N(P b := N b)) vs" by simp
  also have "\<dots> = us @ N b # map (N(P b := N b)) vs" unfolding a by simp
  finally show "map (N(P b := N b)) (h # us @ vs) = us @ vs @ [h]" unfolding b .
  have a: "map (P(N b := P b)) (vs @ [h]) = P b # vs"
    unfolding Nb by (rule map_upd_hd [OF d1(2) _ P2]) simp
  have "N b \<notin> set us" using d Nb by (cases vs) auto
  then have "map (P(N b := P b)) us = map P us" by (simp add: map_fun_upd)
  also have "\<dots> = butlast (h # us)" using P1 by (metis butlast_snoc map_append list.map)
  finally have c: "map (P(N b := P b)) us = butlast (h # us)" .
  have "map (P(N b := P b)) (us @ vs @ [h]) = map (P(N b := P b)) us @ map (P(N b := P b)) (vs @ [h])"
    by simp
  also have "\<dots> = (butlast (h # us) @ [P b]) @ vs" by (simp only: a c append_assoc append_Cons append_Nil)
  also have "butlast (h # us) @ [P b] = h # us"
    unfolding Pb by (rule append_butlast_last_id) simp
  also have "(h # us) @ vs = h # us @ vs" by simp
  finally show "map (P(N b := P b)) (us @ vs @ [h]) = h # us @ vs" .
qed

lemma link_lists:
  fixes N P :: "nat \<Rightarrow> nat"
  assumes d: "distinct (b # h # zs)"
    and N: "map N (h # zs) = zs @ [h]"
    and P: "map P (zs @ [h]) = h # zs"
  shows "map (N(b := N h, h := b)) (h # b # zs) = b # zs @ [h]"
    and "map (P(b := h, N h := b)) (b # zs @ [h]) = h # b # zs"
proof -
  have Nh: "N h = hd (zs @ [h])" "map N zs = tl (zs @ [h])" using N by (metis list.sel(1) list.simps(9)) (metis N list.sel(3) list.simps(9))
  have "map (N(b := N h, h := b)) zs = map N zs" using d by (simp add: map_fun_upd)
  then show "map (N(b := N h, h := b)) (h # b # zs) = b # zs @ [h]" using d Nh by (cases zs) auto
  have hd: "N h \<noteq> b" using Nh d by (cases zs) auto
  have "map (P(N h := b)) (zs @ [h]) = b # zs"
    unfolding Nh by (rule map_upd_hd [OF _ _ P]) (use d in auto)
  moreover have "map (P(b := h, N h := b)) (zs @ [h]) = map (P(N h := b)) (zs @ [h])"
    using d by (intro map_cong) auto
  ultimately show "map (P(b := h, N h := b)) (b # zs @ [h]) = h # b # zs" using hd by simp
qed

text \<open>The fields of a buffer that are not links.\<close>

definition same_bufs :: "(nat \<Rightarrow> buf) \<Rightarrow> (nat \<Rightarrow> buf) \<Rightarrow> bool" where
  "same_bufs f g \<longleftrightarrow> (\<forall>i. b_flags (g i) = b_flags (f i) \<and> b_dev (g i) = b_dev (f i)
     \<and> b_blockno (g i) = b_blockno (f i) \<and> b_refcnt (g i) = b_refcnt (f i) \<and> b_data (g i) = b_data (f i))"

lemma upd_buf_sel [simp]:
  "bufs (upd_buf b f s) = (bufs s)(b := f (bufs s b))" "held (upd_buf b f s) = held s"
  "sleeplocks (upd_buf b f s) = sleeplocks s" "cur (upd_buf b f s) = cur s" "ptable (upd_buf b f s) = ptable s"
  "disk (upd_buf b f s) = disk s" "disksize (upd_buf b f s) = disksize s" "dhist (upd_buf b f s) = dhist s"
  by (simp_all add: upd_buf_def)

lemma upd_buf_bufs: "\<exists>g. upd_buf b f s = s\<lparr>bufs := g\<rparr>"
  by (auto simp: upd_buf_def)

lemma bufs_refl: "\<exists>g. s = s\<lparr>bufs := g\<rparr>"
  by (rule exI [of _ "bufs s"]) simp

lemma bufs_trans:
  "\<exists>g. t = s\<lparr>bufs := g\<rparr> \<Longrightarrow> \<exists>g. u = t\<lparr>bufs := g\<rparr> \<Longrightarrow> \<exists>g. u = s\<lparr>bufs := g\<rparr>"
  by auto

lemma link_front_bufs: "\<exists>g. link_front b s = s\<lparr>bufs := g\<rparr>"
  unfolding link_front_def Let_def by (intro bufs_trans [OF _ upd_buf_bufs]) (rule bufs_refl)

lemma brelse_unlink_bufs: "\<exists>g. brelse_unlink b s = s\<lparr>bufs := g\<rparr>"
  unfolding brelse_unlink_def Let_def by (intro bufs_trans [OF _ upd_buf_bufs]) (rule bufs_refl)

lemma link_front_same: "same_bufs (bufs s) (bufs (link_front b s))"
  by (auto simp: same_bufs_def link_front_def Let_def)

lemma brelse_unlink_same: "same_bufs (bufs s) (bufs (brelse_unlink b s))"
  by (auto simp: same_bufs_def brelse_unlink_def Let_def)

lemma same_bufs_trans: "same_bufs f g \<Longrightarrow> same_bufs g h \<Longrightarrow> same_bufs f h"
  by (simp add: same_bufs_def)

lemma link_front_ring:
  assumes "ring (bufs s) xs" "b \<notin> set (NBUF # xs)"
  shows "ring (bufs (link_front b s)) (b # xs)"
proof -
  let ?N = "\<lambda>i. b_next (bufs s i)" and ?P = "\<lambda>i. b_prev (bufs s i)"
  have d: "distinct (b # NBUF # xs)" and N: "map ?N (NBUF # xs) = xs @ [NBUF]"
    and P: "map ?P (xs @ [NBUF]) = NBUF # xs"
    using assms by (auto simp: ring_def)
  have n: "?N NBUF \<noteq> b" using N d by (cases xs) auto
  have "(\<lambda>i. b_next (bufs (link_front b s) i)) = ?N(b := ?N NBUF, NBUF := b)"
    using d n by (auto simp: link_front_def Let_def fun_eq_iff)
  moreover have "(\<lambda>i. b_prev (bufs (link_front b s) i)) = ?P(b := NBUF, ?N NBUF := b)"
    using d n by (auto simp: link_front_def Let_def fun_eq_iff)
  ultimately show ?thesis
    unfolding ring_def using link_lists [OF d N P] d by (simp del: list.map fun_upd_apply)
qed

lemma brelse_unlink_ring:
  assumes r: "ring (bufs s) (us @ b # vs)"
  shows "ring (bufs (brelse_unlink b s)) (us @ vs)"
proof -
  let ?N = "\<lambda>i. b_next (bufs s i)" and ?P = "\<lambda>i. b_prev (bufs s i)"
  have d: "distinct (NBUF # us @ b # vs)" and N: "map ?N (NBUF # us @ b # vs) = us @ b # vs @ [NBUF]"
    and P: "map ?P (us @ b # vs @ [NBUF]) = NBUF # us @ b # vs"
    using r by (auto simp: ring_def)
  note L = unlink_lists [OF d N P]
  have "(\<lambda>i. b_next (bufs (brelse_unlink b s) i)) = ?N(?P b := ?N b)"
    using L(3,4) by (auto simp: brelse_unlink_def Let_def fun_eq_iff)
  moreover have "(\<lambda>i. b_prev (bufs (brelse_unlink b s) i)) = ?P(?N b := ?P b)"
    using L(3,4) by (auto simp: brelse_unlink_def Let_def fun_eq_iff)
  ultimately show ?thesis
    unfolding ring_def using L(1,2) d by (simp del: list.map fun_upd_apply)
qed

lemma move_front_ring:
  assumes "ring (bufs s) (us @ b # vs)"
  shows "ring (bufs (link_front b (brelse_unlink b s))) (b # us @ vs)"
  using assms by (intro link_front_ring brelse_unlink_ring) (auto simp: ring_def)

lemma initsleeplock_bufs [simp]: "bufs (initsleeplock lk s) = bufs s"
  by (simp add: initsleeplock_def set_sleeplock_def)

lemma binit_ring: "ring (bufs (binit s)) (rev [0..<NBUF])"
proof -
  let ?s = "upd_buf NBUF (\<lambda>q. q\<lparr>b_prev := NBUF, b_next := NBUF\<rparr>) s"
  let ?P = "\<lambda>n t. n \<le> NBUF \<longrightarrow> ring (bufs t) (rev [0..<n])"
  have "?P (0 + NBUF) (for_range 0 NBUF (\<lambda>b s. link_front b (initsleeplock (SBuf b) s)) ?s)"
  proof (rule for_range_inv [of ?P])
    show "?P 0 ?s" by (simp add: ring_def)
  next
    fix i t
    assume "0 \<le> i" "i < 0 + NBUF" "?P i t"
    then show "?P (Suc i) (link_front i (initsleeplock (SBuf i) t))"
      by (auto intro!: link_front_ring)
  qed
  then show ?thesis by (simp add: binit_def)
qed

section \<open>The invariant\<close>

text \<open>
  The invariant speaks about one thread of the kernel that uses the cache: a buffer whose reference
  count is not 0 is held by the current process. A buffer that is valid, not modified and not held
  has the content of its block on the disk.
\<close>

definition buf_ok :: "'z bst_scheme \<Rightarrow> nat \<Rightarrow> bool" where
  "buf_ok s i \<longleftrightarrow>
     (b_refcnt (bufs s i) = 0 \<and> sl_locked (sleeplocks s (SBuf i)) = 0
        \<or> b_refcnt (bufs s i) = 1 \<and> SBuf i \<in> owned_sleep s \<and> b_flags (bufs s i) \<noteq> 0)
     \<and> b_flags (bufs s i) \<in> {0, 2, 6}
     \<and> (b_dev (bufs s i) = 1 \<longleftrightarrow> b_flags (bufs s i) \<noteq> 0)
     \<and> (b_flags (bufs s i) \<noteq> 0 \<longrightarrow> b_blockno (bufs s i) < disksize s)
     \<and> (b_flags (bufs s i) = 2 \<and> b_refcnt (bufs s i) = 0 \<longrightarrow>
          b_data (bufs s i) = disk s (unat (b_blockno (bufs s i))))"

definition caches :: "'z bst_scheme \<Rightarrow> nat \<Rightarrow> u32 \<Rightarrow> bool" where
  "caches s i n \<longleftrightarrow> i < NBUF \<and> b_flags (bufs s i) \<noteq> 0 \<and> b_blockno (bufs s i) = n"

definition bio_ok :: "'z bst_scheme \<Rightarrow> bool" where
  "bio_ok s \<longleftrightarrow> (\<exists>xs. ring (bufs s) xs \<and> set xs = {..<NBUF}) \<and> (\<forall>i < NBUF. buf_ok s i)
     \<and> (\<forall>i j n. caches s i n \<longrightarrow> caches s j n \<longrightarrow> i = j) \<and> held s = {} \<and> cur s \<noteq> None"

definition in_use :: "'z bst_scheme \<Rightarrow> nat set" where
  "in_use s = {i. i < NBUF \<and> b_refcnt (bufs s i) \<noteq> 0}"

definition pinned :: "'z bst_scheme \<Rightarrow> nat set" where
  "pinned s = {i. i < NBUF \<and> b_flags (bufs s i) = 6}"

text \<open>The content of a block as the kernel sees it: from the cache if it is there, or from the disk.\<close>

definition blk :: "'z bst_scheme \<Rightarrow> u32 \<Rightarrow> bytes" where
  "blk s n =
     (case find_from (\<lambda>i. b_flags (bufs s i) \<noteq> 0 \<and> b_blockno (bufs s i) = n) 0 NBUF of
        Some i \<Rightarrow> b_data (bufs s i) | None \<Rightarrow> disk s (unat n))"

lemma blk_cached: "bio_ok s \<Longrightarrow> caches s i n \<Longrightarrow> blk s n = b_data (bufs s i)"
proof -
  assume a: "bio_ok s" "caches s i n"
  let ?P = "\<lambda>i. b_flags (bufs s i) \<noteq> 0 \<and> b_blockno (bufs s i) = n"
  obtain j where j: "find_from ?P 0 NBUF = Some j"
    using a(2) find_from_None [of ?P 0 NBUF] by (cases "find_from ?P 0 NBUF") (auto simp: caches_def)
  then have "caches s j n" by (auto simp: find_from_Some caches_def)
  then have "j = i" using a by (auto simp: bio_ok_def)
  then show ?thesis using j by (simp add: blk_def)
qed

lemma blk_uncached: "(\<And>i. \<not> caches s i n) \<Longrightarrow> blk s n = disk s (unat n)"
proof -
  assume "\<And>i. \<not> caches s i n"
  then have "find_from (\<lambda>i. b_flags (bufs s i) \<noteq> 0 \<and> b_blockno (bufs s i) = n) 0 NBUF = None"
    by (auto simp: find_from_None caches_def)
  then show ?thesis by (simp add: blk_def)
qed

text \<open>What the operations of the cache leave alone: everything but the cache, the disk and sleepers.\<close>

definition woken :: "(nat \<Rightarrow> proc) \<Rightarrow> (nat \<Rightarrow> proc) \<Rightarrow> bool" where
  "woken f g \<longleftrightarrow> (\<forall>i. g i = f i \<or> p_state (f i) = SLEEPING \<and> g i = (f i)\<lparr>p_state := RUNNABLE\<rparr>)"

definition bio_frame :: "'z bst_scheme \<Rightarrow> 'z bst_scheme \<Rightarrow> bool" where
  "bio_frame s t \<longleftrightarrow>
     t\<lparr>bufs := bufs s, disk := disk s, dhist := dhist s, sleeplocks := sleeplocks s, ptable := ptable s\<rparr> = s
     \<and> woken (ptable s) (ptable t) \<and> (\<forall>i. sleeplocks t (SInode i) = sleeplocks s (SInode i))"

lemma woken_refl [simp]: "woken f f"
  by (simp add: woken_def)

lemma woken_trans: "woken f g \<Longrightarrow> woken g h \<Longrightarrow> woken f h"
  unfolding woken_def
proof
  fix i
  assume a: "\<forall>i. g i = f i \<or> p_state (f i) = SLEEPING \<and> g i = (f i)\<lparr>p_state := RUNNABLE\<rparr>"
    and b: "\<forall>i. h i = g i \<or> p_state (g i) = SLEEPING \<and> h i = (g i)\<lparr>p_state := RUNNABLE\<rparr>"
  from a [rule_format, of i] b [rule_format, of i]
  show "h i = f i \<or> p_state (f i) = SLEEPING \<and> h i = (f i)\<lparr>p_state := RUNNABLE\<rparr>" by auto
qed

lemma woken_wake_all: "woken f (wake_all ch f)"
  by (auto simp: woken_def wake_all_def wake_def)

lemma woken_pid [simp]: "woken f g \<Longrightarrow> p_pid (g i) = p_pid (f i)"
  unfolding woken_def by (metis proc.select_convs(5) proc.simps(5) proc.surjective proc.update_convs(4))

lemma bio_frame_refl [simp]: "bio_frame s s"
  by (simp add: bio_frame_def)

lemma bio_frame_trans:
  assumes "bio_frame s t" "bio_frame t u"
  shows "bio_frame s u"
proof -
  have a: "t\<lparr>bufs := bufs s, disk := disk s, dhist := dhist s, sleeplocks := sleeplocks s, ptable := ptable s\<rparr> = s"
    and b: "u\<lparr>bufs := bufs t, disk := disk t, dhist := dhist t, sleeplocks := sleeplocks t, ptable := ptable t\<rparr> = t"
    using assms by (simp_all add: bio_frame_def)
  have "u\<lparr>bufs := bufs s, disk := disk s, dhist := dhist s, sleeplocks := sleeplocks s, ptable := ptable s\<rparr>
    = u\<lparr>bufs := bufs t, disk := disk t, dhist := dhist t, sleeplocks := sleeplocks t, ptable := ptable t\<rparr>
      \<lparr>bufs := bufs s, disk := disk s, dhist := dhist s, sleeplocks := sleeplocks s, ptable := ptable s\<rparr>"
    by simp
  also have "\<dots> = s" unfolding b a ..
  finally show ?thesis using assms woken_trans by (auto simp: bio_frame_def)
qed

lemma bio_frame_sel:
  assumes "bio_frame s t"
  shows "held t = held s" "cur t = cur s" "disksize t = disksize s" "bst.more t = bst.more s" "ticks t = ticks s"
    "pages t = pages s" "initproc t = initproc s"
proof -
  let ?t = "t\<lparr>bufs := bufs s, disk := disk s, dhist := dhist s, sleeplocks := sleeplocks s, ptable := ptable s\<rparr>"
  have e: "?t = s" using assms by (simp add: bio_frame_def)
  show "held t = held s" "cur t = cur s" "disksize t = disksize s" "bst.more t = bst.more s" "ticks t = ticks s"
    "pages t = pages s" "initproc t = initproc s"
    by (subst e [symmetric], simp)+
qed

section \<open>Reading a block\<close>

definition my_pid :: "'z pst_scheme \<Rightarrow> u32" where
  "my_pid s = p_pid (ptable s (the (cur s)))"

text \<open>The state after \<open>bread\<close> has taken buffer \<open>b\<close> for block \<open>n\<close>.\<close>

definition taken :: "nat \<Rightarrow> u32 \<Rightarrow> 'z bst_scheme \<Rightarrow> 'z bst_scheme" where
  "taken b n s =
     set_sleeplock (SBuf b) 1 (my_pid s) (upd_buf b (\<lambda>q. q\<lparr>b_dev := 1, b_blockno := n, b_refcnt := 1,
       b_data := blk s n, b_flags := (if caches s b n then b_flags q else 2)\<rparr>) s)"

lemma find_Some_iff2: "find P xs = Some x \<Longrightarrow> x \<in> set xs \<and> P x"
  by (auto simp: find_Some_iff)

lemma bio_okD:
  assumes "bio_ok s" "i < NBUF"
  shows "b_flags (bufs s i) \<in> {0, 2, 6}" "b_dev (bufs s i) = 1 \<longleftrightarrow> b_flags (bufs s i) \<noteq> 0"
    "b_flags (bufs s i) \<noteq> 0 \<Longrightarrow> b_blockno (bufs s i) < disksize s"
    "b_refcnt (bufs s i) = 0 \<Longrightarrow> sl_locked (sleeplocks s (SBuf i)) = 0"
    "b_refcnt (bufs s i) \<noteq> 0 \<Longrightarrow> SBuf i \<in> owned_sleep s \<and> b_refcnt (bufs s i) = 1 \<and> b_flags (bufs s i) \<noteq> 0"
    "b_flags (bufs s i) = 2 \<Longrightarrow> b_refcnt (bufs s i) = 0 \<Longrightarrow> b_data (bufs s i) = disk s (unat (b_blockno (bufs s i)))"
  using assms by (auto simp: bio_ok_def buf_ok_def)

lemma bio_ok_ring:
  assumes "bio_ok s"
  obtains xs where "ring (bufs s) xs" "set xs = {..<NBUF}" "length xs = NBUF"
proof -
  from assms obtain xs where xs: "ring (bufs s) xs" "set xs = {..<NBUF}" by (auto simp: bio_ok_def)
  have "length xs = card (set xs)" using xs(1) by (simp add: ring_def distinct_card)
  with xs that show ?thesis by simp
qed

lemma bio_ok_idle: "bio_ok s \<Longrightarrow> held s = {}" "bio_ok s \<Longrightarrow> cur s = Some (the (cur s))"
  by (auto simp: bio_ok_def)

lemma dirty_flags: "f \<in> {0, 2, 6} \<Longrightarrow> f AND B_DIRTY = 0 \<longleftrightarrow> f \<noteq> 6" "f \<in> {0, 2, 6} \<Longrightarrow> f AND B_VALID = 0 \<longleftrightarrow> f = 0"
  by (auto simp: B_DIRTY_def B_VALID_def)

lemma upd_buf_upd [simp]: "upd_buf b f (upd_buf b g s) = upd_buf b (f \<circ> g) s"
  by (simp add: upd_buf_def)

lemma upd_buf_set_sleeplock [simp]:
  "upd_buf b f (set_sleeplock lk l pid s) = set_sleeplock lk l pid (upd_buf b f s)"
  "bufs (set_sleeplock lk l pid s) = bufs s" "disk (set_sleeplock lk l pid s) = disk s"
  "disksize (set_sleeplock lk l pid s) = disksize s" "dhist (set_sleeplock lk l pid s) = dhist s"
  by (simp_all add: upd_buf_def set_sleeplock_def)

lemma upd_buf_held [simp]: "(upd_buf b f (s\<lparr>held := h\<rparr>))\<lparr>held := k\<rparr> = upd_buf b f (s\<lparr>held := k\<rparr>)"
  by (simp add: upd_buf_def)

lemma held_empty [simp]: "held s = {} \<Longrightarrow> s\<lparr>held := {}\<rparr> = s"
  by simp

lemma bread_hit:
  assumes ok: "bio_ok s" and c: "caches s b n" and r: "b_refcnt (bufs s b) = 0"
  shows "bread 1 n s = Ret b (taken b n s)"
proof -
  obtain xs where xs: "ring (bufs s) xs" "set xs = {..<NBUF}" "length xs = NBUF"
    using bio_ok_ring [OF ok] .
  let ?P = "\<lambda>b. b_dev (bufs s b) = 1 \<and> b_blockno (bufs s b) = n"
  have b: "b < NBUF" "b_flags (bufs s b) \<noteq> 0" "b_blockno (bufs s b) = n" using c by (auto simp: caches_def)
  have dev: "b_dev (bufs s b) = 1" using bio_okD(2) [OF ok b(1)] b(2) by simp
  obtain j where j: "find ?P xs = Some j"
    using b dev xs(2) by (cases "find ?P xs") (auto simp: find_None_iff)
  then have "caches s j n" using find_Some_iff2 [OF j] xs(2) bio_okD(2) [OF ok] by (auto simp: caches_def)
  then have jb: "j = b" using ok c by (auto simp: bio_ok_def)
  note idle = bio_ok_idle [OF ok]
  have "bget_cached (Suc NBUF) 1 n (b_next (bufs s NBUF)) (s\<lparr>held := insert LBcache (held s)\<rparr>)
      = Ret (Some b) (s\<lparr>held := insert LBcache (held s)\<rparr>)"
    using ring_search(1) [of "s\<lparr>held := insert LBcache (held s)\<rparr>" xs 1 n] xs j jb by simp
  moreover have "acquiresleep (SBuf b) (upd_buf b (b_refcnt_update (\<lambda>r. r + 1)) s)
      = Ret () (set_sleeplock (SBuf b) 1 (my_pid s) (upd_buf b (b_refcnt_update (\<lambda>r. r + 1)) s))"
    using acquiresleep_free [of "SBuf b" "upd_buf b (b_refcnt_update (\<lambda>r. r + 1)) s" "the (cur s)"]
      idle bio_okD(4) [OF ok b(1) r] by (simp add: my_pid_def)
  ultimately have "bread 1 n s = Ret b (set_sleeplock (SBuf b) 1 (my_pid s) (upd_buf b (b_refcnt_update (\<lambda>r. r + 1)) s))"
    using idle dirty_flags(2) [OF bio_okD(1) [OF ok b(1)]] b(2)
    by (simp add: bread_def bget_def)
  also have "upd_buf b (b_refcnt_update (\<lambda>r. r + 1)) s
      = upd_buf b (\<lambda>q. q\<lparr>b_dev := 1, b_blockno := n, b_refcnt := 1,
       b_data := blk s n, b_flags := (if caches s b n then b_flags q else 2)\<rparr>) s"
  proof -
    have "b_refcnt_update (\<lambda>r. r + 1) (bufs s b) = (bufs s b)\<lparr>b_dev := 1, b_blockno := n, b_refcnt := 1,
       b_data := blk s n, b_flags := (if caches s b n then b_flags (bufs s b) else 2)\<rparr>"
      by (rule buf.equality) (use c dev b r blk_cached [OF ok c] in simp_all)
    then show ?thesis unfolding upd_buf_def by (simp only:)
  qed
  finally show ?thesis by (simp add: taken_def)
qed

lemma bread_miss:
  assumes ok: "bio_ok s" and c: "\<And>i. \<not> caches s i n" and n: "n < disksize s"
    and free: "i < NBUF" "b_refcnt (bufs s i) = 0" "b_flags (bufs s i) \<noteq> 6"
  obtains b where "bread 1 n s = Ret b (taken b n s)" "b < NBUF" "b_refcnt (bufs s b) = 0" "b_flags (bufs s b) \<noteq> 6"
proof -
  obtain xs where xs: "ring (bufs s) xs" "set xs = {..<NBUF}" "length xs = NBUF"
    using bio_ok_ring [OF ok] .
  let ?P = "\<lambda>b. b_dev (bufs s b) = 1 \<and> b_blockno (bufs s b) = n"
  let ?Q = "\<lambda>b. b_refcnt (bufs s b) = 0 \<and> b_flags (bufs s b) AND B_DIRTY = 0"
  have "find ?P xs = None"
    using c xs(2) bio_okD(2) [OF ok] by (auto simp: find_None_iff caches_def)
  moreover obtain b where b: "find ?Q (rev xs) = Some b"
    using free xs(2) dirty_flags(1) [OF bio_okD(1) [OF ok free(1)]]
    by (cases "find ?Q (rev xs)") (auto simp: find_None_iff)
  note idle = bio_ok_idle [OF ok]
  have bq: "b < NBUF" "b_refcnt (bufs s b) = 0" "b_flags (bufs s b) AND B_DIRTY = 0"
    using find_Some_iff2 [OF b] xs(2) by auto
  let ?s1 = "upd_buf b (\<lambda>q. q\<lparr>b_dev := 1, b_blockno := n, b_flags := 0, b_refcnt := 1\<rparr>) s"
  let ?s2 = "set_sleeplock (SBuf b) 1 (my_pid s) ?s1"
  have "acquiresleep (SBuf b) ?s1 = Ret () ?s2"
    using acquiresleep_free [of "SBuf b" ?s1 "the (cur s)"] idle bio_okD(4) [OF ok bq(1,2)]
    by (simp add: my_pid_def)
  ultimately have "bget 1 n s = Ret b ?s2"
    using ring_search [of "s\<lparr>held := insert LBcache (held s)\<rparr>" xs] xs b idle by (simp add: bget_def)
  moreover have "holdingsleep (SBuf b) ?s2 = Ret True ?s2"
    using holdingsleep_eq [of "SBuf b" ?s2 "the (cur s)"] idle ok
    by (auto simp: bio_ok_def owned_sleep_def my_pid_def)
  ultimately have "bread 1 n s = Ret b (upd_buf b (\<lambda>q. q\<lparr>b_data := disk s (unat n), b_flags := b_flags q OR B_VALID\<rparr>) ?s2)"
    using n by (simp add: bread_def iderw_def B_VALID_def B_DIRTY_def not_le [symmetric])
  also have "upd_buf b (\<lambda>q. q\<lparr>b_data := disk s (unat n), b_flags := b_flags q OR B_VALID\<rparr>) ?s2 = taken b n s"
    unfolding taken_def upd_buf_set_sleeplock upd_buf_upd
    using c blk_uncached [OF c] by (simp add: upd_buf_def B_VALID_def)
  finally show ?thesis using that bq dirty_flags(1) [OF bio_okD(1) [OF ok bq(1)]] by blast
qed

lemma taken_sel [simp]:
  "bufs (taken b n s) = (bufs s)(b := (bufs s b)\<lparr>b_dev := 1, b_blockno := n, b_refcnt := 1,
       b_data := blk s n, b_flags := (if caches s b n then b_flags (bufs s b) else 2)\<rparr>)"
  "disk (taken b n s) = disk s" "dhist (taken b n s) = dhist s" "disksize (taken b n s) = disksize s"
  "held (taken b n s) = held s" "cur (taken b n s) = cur s" "ptable (taken b n s) = ptable s"
  "sleeplocks (taken b n s) = (sleeplocks s)(SBuf b := \<lparr>sl_locked = 1, sl_pid = my_pid s\<rparr>)"
  by (simp_all add: taken_def)

lemma taken_frame: "bio_frame s (taken b n s)"
  by (simp add: bio_frame_def taken_def set_sleeplock_def upd_buf_def)

lemma taken_owned: "cur s \<noteq> None \<Longrightarrow> SBuf i \<in> owned_sleep (taken b n s) \<longleftrightarrow> i = b \<or> SBuf i \<in> owned_sleep s"
  by (auto simp: owned_sleep_def my_pid_def)

lemma ring_links:
  assumes "\<And>i. b_next (g i) = b_next (f i)" "\<And>i. b_prev (g i) = b_prev (f i)"
  shows "ring g xs \<longleftrightarrow> ring f xs"
  unfolding ring_def using assms by simp

lemma taken_caches:
  assumes "b < NBUF"
  shows "caches (taken b n s) i m \<longleftrightarrow> (if i = b then m = n else caches s i m)"
  using assms by (auto simp: caches_def)

lemma taken_ok:
  assumes ok: "bio_ok s" and b: "b < NBUF" "b_refcnt (bufs s b) = 0" and n: "n < disksize s"
    and c: "caches s b n \<or> (\<forall>i. \<not> caches s i n)"
  shows "bio_ok (taken b n s)"
proof -
  have idle: "held s = {}" "cur s \<noteq> None" using ok by (auto simp: bio_ok_def)
  obtain xs where xs: "ring (bufs s) xs" "set xs = {..<NBUF}" using bio_ok_ring [OF ok] .
  have "ring (bufs (taken b n s)) xs" using xs(1) by (subst ring_links [of _ "bufs s"]) auto
  moreover have "buf_ok (taken b n s) i" if "i < NBUF" for i
    using ok that bio_okD(1) [OF ok b(1)] n idle
    by (auto simp: bio_ok_def buf_ok_def taken_owned caches_def)
  moreover have "i = j" if "caches (taken b n s) i m" "caches (taken b n s) j m" for i j m
    using that ok c unfolding taken_caches [OF b(1)] by (auto simp: bio_ok_def split: if_splits)
  ultimately show ?thesis using xs(2) idle unfolding bio_ok_def by auto
qed

lemma taken_blk:
  assumes ok: "bio_ok s" and b: "b < NBUF" "b_refcnt (bufs s b) = 0" and n: "n < disksize s"
    and c: "caches s b n \<or> (\<forall>i. \<not> caches s i n) \<and> b_flags (bufs s b) \<noteq> 6"
  shows "blk (taken b n s) = blk s"
proof
  fix m
  have t: "bio_ok (taken b n s)" using taken_ok [OF ok b n] c by blast
  show "blk (taken b n s) m = blk s m"
  proof (cases "\<exists>i. caches (taken b n s) i m")
    case True
    then obtain i where i: "caches (taken b n s) i m" by blast
    show ?thesis
    proof (cases "i = b")
      case True
      then show ?thesis using blk_cached [OF t i] i b(1) by (simp add: taken_caches)
    next
      case False
      then have "caches s i m" using i b(1) by (simp add: taken_caches)
      then show ?thesis using blk_cached [OF t i] blk_cached [OF ok] False by simp
    qed
  next
    case False
    moreover have "caches (taken b n s) b n" using b(1) by (simp add: taken_caches)
    ultimately have m: "m \<noteq> n" by blast
    show ?thesis
    proof (cases "\<exists>i. caches s i m")
      case True
      then obtain i where i: "caches s i m" by blast
      have ib: "i = b" using False i b(1) by (auto simp: taken_caches split: if_splits)
      with i m have "\<not> caches s b n" by (auto simp: caches_def)
      then have "b_flags (bufs s b) = 2" using bio_okD(1) [OF ok b(1)] c i ib by (auto simp: caches_def)
      then have "b_data (bufs s b) = disk s (unat m)"
        using bio_okD(6) [OF ok b(1) _ b(2)] i ib by (auto simp: caches_def)
      then show ?thesis using blk_cached [OF ok i] ib blk_uncached [of "taken b n s" m] False by auto
    next
      case none: False
      then show ?thesis using blk_uncached [of s m] blk_uncached [of "taken b n s" m] False by auto
    qed
  qed
qed

text \<open>
  The contract of \<open>bread\<close>: when some buffer is neither held nor pinned, it returns a buffer that was
  not held, holding the current content of the block; no content changes and nothing is written.
\<close>

definition room :: "'z bst_scheme \<Rightarrow> bool" where
  "room s \<longleftrightarrow> in_use s \<union> pinned s \<noteq> {..<NBUF}"

lemma bread_ok:
  assumes ok: "bio_ok s" and n: "n < disksize s" and free: "\<forall>i \<in> in_use s. b_blockno (bufs s i) \<noteq> n"
    and room: "room s"
  obtains b where "bread 1 n s = Ret b (taken b n s)" "b < NBUF" "b \<notin> in_use s"
    "caches s b n \<or> (\<forall>i. \<not> caches s i n) \<and> b_flags (bufs s b) \<noteq> 6"
proof (cases "\<exists>b. caches s b n")
  case True
  then obtain b where b: "caches s b n" by blast
  have "b_refcnt (bufs s b) = 0" using b free by (auto simp: caches_def in_use_def)
  then show ?thesis using that bread_hit [OF ok b] b by (auto simp: caches_def in_use_def)
next
  case False
  obtain i where "i < NBUF" "i \<notin> in_use s" "i \<notin> pinned s" using room by (auto simp: room_def in_use_def pinned_def)
  then obtain b where "bread 1 n s = Ret b (taken b n s)" "b < NBUF" "b_refcnt (bufs s b) = 0" "b_flags (bufs s b) \<noteq> 6"
    using bread_miss [OF ok _ n, of i] False by (auto simp: in_use_def pinned_def)
  then show ?thesis using that False by (auto simp: in_use_def)
qed

lemma taken_sets:
  assumes "b < NBUF" "caches s b n \<or> (\<forall>i. \<not> caches s i n) \<and> b_flags (bufs s b) \<noteq> 6"
  shows "in_use (taken b n s) = insert b (in_use s)" "pinned (taken b n s) = pinned s"
  using assms by (auto simp: in_use_def pinned_def caches_def)

section \<open>Writing and releasing a block\<close>

text \<open>Blocks as seen through two states with the same buffers up to links.\<close>

lemma same_bufs_caches:
  "same_bufs (bufs s) (bufs t) \<Longrightarrow> caches t i n \<longleftrightarrow> caches s i n"
  by (simp add: caches_def same_bufs_def)

lemma same_bufs_blk:
  assumes "same_bufs (bufs s) (bufs t)" "disk t = disk s"
  shows "blk t = blk s"
proof
  fix n
  show "blk t n = blk s n" using assms by (simp add: blk_def same_bufs_def split: option.split)
qed

lemma same_bufs_sets:
  "same_bufs (bufs s) (bufs t) \<Longrightarrow> in_use t = in_use s" "same_bufs (bufs s) (bufs t) \<Longrightarrow> pinned t = pinned s"
  by (simp_all add: in_use_def pinned_def same_bufs_def)

lemma in_useD:
  assumes "bio_ok s" "b \<in> in_use s"
  shows "b < NBUF" "SBuf b \<in> owned_sleep s" "b_refcnt (bufs s b) = 1" "b_flags (bufs s b) \<in> {2, 6}"
    "b_dev (bufs s b) = 1" "caches s b (b_blockno (bufs s b))" "b_blockno (bufs s b) < disksize s"
proof -
  have b: "b < NBUF" "b_refcnt (bufs s b) \<noteq> 0" using assms(2) by (auto simp: in_use_def)
  note D = bio_okD [OF assms(1) b(1)]
  show "b < NBUF" "SBuf b \<in> owned_sleep s" "b_refcnt (bufs s b) = 1" using b D(5) by auto
  show "b_flags (bufs s b) \<in> {2, 6}" "b_dev (bufs s b) = 1" "caches s b (b_blockno (bufs s b))"
    "b_blockno (bufs s b) < disksize s"
    using b D(1,2,3,5) by (auto simp: caches_def)
qed

lemma in_use_holding: "bio_ok s \<Longrightarrow> b \<in> in_use s \<Longrightarrow> holdingsleep (SBuf b) s = Ret True s"
  using holdingsleep_eq [of "SBuf b" s "the (cur s)"] in_useD(2) [of s b] bio_ok_idle [of s] by simp

lemma blk_held: "bio_ok s \<Longrightarrow> b \<in> in_use s \<Longrightarrow> b_blockno (bufs s b) = n \<Longrightarrow> blk s n = b_data (bufs s b)"
  using in_useD(6) by (blast intro: blk_cached)

definition written :: "nat \<Rightarrow> 'z bst_scheme \<Rightarrow> 'z bst_scheme" where
  "written b s =
     (let n = unat (b_blockno (bufs s b)); d = b_data (bufs s b)
      in upd_buf b (b_flags_update (\<lambda>_. 2)) (s\<lparr>disk := (disk s)(n := d), dhist := dhist s @ [(n, d)]\<rparr>))"

lemma written_sel [simp]:
  "bufs (written b s) = (bufs s)(b := (bufs s b)\<lparr>b_flags := 2\<rparr>)"
  "disk (written b s) = (disk s)(unat (b_blockno (bufs s b)) := b_data (bufs s b))"
  "dhist (written b s) = dhist s @ [(unat (b_blockno (bufs s b)), b_data (bufs s b))]"
  "held (written b s) = held s" "cur (written b s) = cur s" "disksize (written b s) = disksize s"
  "sleeplocks (written b s) = sleeplocks s" "ptable (written b s) = ptable s"
  by (simp_all add: written_def Let_def)

lemma bwrite_eq:
  assumes ok: "bio_ok s" and b: "b \<in> in_use s"
  shows "bwrite b s = Ret () (written b s)"
proof -
  note D = in_useD [OF ok b]
  let ?s = "upd_buf b (b_flags_update (\<lambda>f. f OR B_DIRTY)) s"
  let ?n = "unat (b_blockno (bufs s b))" and ?d = "b_data (bufs s b)"
  have "holdingsleep (SBuf b) ?s = Ret True ?s"
    using holdingsleep_eq [of "SBuf b" ?s "the (cur s)"] D(2) bio_ok_idle [OF ok] by (simp add: owned_sleep_def)
  moreover have "(b_flags (bufs s b)) OR B_DIRTY = 6" using D(4) by (auto simp: B_DIRTY_def)
  ultimately have "bwrite b s = Ret () (upd_buf b (b_flags_update (\<lambda>f. (f AND NOT B_DIRTY) OR B_VALID))
      (?s\<lparr>disk := (disk s)(?n := ?d), dhist := dhist s @ [(?n, ?d)]\<rparr>))"
    using in_use_holding [OF ok b] D(5,7)
    by (simp add: bwrite_def iderw_def B_VALID_def B_DIRTY_def not_le [symmetric] Let_def)
  also have "\<dots> = Ret () (s\<lparr>disk := (disk s)(?n := ?d), dhist := dhist s @ [(?n, ?d)],
      bufs := (bufs s)(b := b_flags_update (\<lambda>f. (f AND NOT B_DIRTY) OR B_VALID)
        (b_flags_update (\<lambda>f. f OR B_DIRTY) (bufs s b)))\<rparr>)"
    by (simp add: upd_buf_def)
  also have "b_flags_update (\<lambda>f. (f AND NOT B_DIRTY) OR B_VALID)
        (b_flags_update (\<lambda>f. f OR B_DIRTY) (bufs s b)) = (bufs s b)\<lparr>b_flags := 2\<rparr>"
    by (rule buf.equality) (use D(4) in \<open>auto simp: B_DIRTY_def B_VALID_def\<close>)
  finally show ?thesis by (simp add: written_def Let_def upd_buf_def del: fun_upd_apply)
qed

lemma written_caches: "bio_ok s \<Longrightarrow> b \<in> in_use s \<Longrightarrow> caches (written b s) i n \<longleftrightarrow> caches s i n"
  using in_useD(4) [of s b] by (auto simp: caches_def)

lemma written_owned [simp]: "owned_sleep (written b s) = owned_sleep s"
  by (simp add: owned_sleep_def)

lemma written_ok:
  assumes ok: "bio_ok s" and b: "b \<in> in_use s"
  shows "bio_ok (written b s)"
proof -
  note D = in_useD [OF ok b]
  obtain xs where xs: "ring (bufs s) xs" "set xs = {..<NBUF}" using bio_ok_ring [OF ok] .
  have "ring (bufs (written b s)) xs" using xs(1) by (subst ring_links [of _ "bufs s"]) auto
  moreover have "buf_ok (written b s) i" if i: "i < NBUF" for i
  proof (cases "i = b")
    case True
    then show ?thesis using ok i D by (auto simp: bio_ok_def buf_ok_def)
  next
    case False
    have "b_data (bufs s i) = ((disk s)(unat (b_blockno (bufs s b)) := b_data (bufs s b))) (unat (b_blockno (bufs s i)))"
      if f: "b_flags (bufs s i) = 2" "b_refcnt (bufs s i) = 0"
    proof -
      have "caches s i (b_blockno (bufs s i))" using i f(1) by (simp add: caches_def)
      then have "b_blockno (bufs s i) \<noteq> b_blockno (bufs s b)" using ok D(6) False by (auto simp: bio_ok_def)
      then show ?thesis using bio_okD(6) [OF ok i f] by (simp add: word_unat_eq_iff)
    qed
    then show ?thesis using ok i False by (auto simp: bio_ok_def buf_ok_def)
  qed
  moreover have "i = j" if "caches (written b s) i m" "caches (written b s) j m" for i j m
    using that ok unfolding written_caches [OF ok b] by (auto simp: bio_ok_def)
  moreover have "held s = {}" "cur s \<noteq> None" using ok by (auto simp: bio_ok_def)
  ultimately show ?thesis using xs(2) unfolding bio_ok_def by auto
qed

lemma written_blk:
  assumes ok: "bio_ok s" and b: "b \<in> in_use s"
  shows "blk (written b s) = blk s"
proof
  fix m
  note t = written_ok [OF ok b]
  show "blk (written b s) m = blk s m"
  proof (cases "\<exists>i. caches s i m")
    case True
    then obtain i where i: "caches s i m" by blast
    then show ?thesis using blk_cached [OF ok i] blk_cached [OF t, of i m] by (simp add: written_caches [OF ok b])
  next
    case False
    then have "m \<noteq> b_blockno (bufs s b)" using in_useD(6) [OF ok b] by auto
    then show ?thesis
      using False blk_uncached [of s m] blk_uncached [of "written b s" m]
      by (auto simp: written_caches [OF ok b] word_unat_eq_iff)
  qed
qed

lemma written_sets:
  assumes "b \<in> in_use s"
  shows "in_use (written b s) = in_use s" "pinned (written b s) = pinned s - {b}"
  using assms by (auto simp: in_use_def pinned_def)

lemma written_frame: "bio_frame s (written b s)"
  by (simp add: bio_frame_def written_def upd_buf_def Let_def)

text \<open>Changing the data of a buffer that is held, and pinning it.\<close>

lemma held_update_ok:
  assumes ok: "bio_ok s" and b: "b \<in> in_use s"
    and f: "\<And>q. b_next (f q) = b_next q" "\<And>q. b_prev (f q) = b_prev q" "\<And>q. b_refcnt (f q) = b_refcnt q"
      "\<And>q. b_dev (f q) = b_dev q" "\<And>q. b_blockno (f q) = b_blockno q"
    and fl: "b_flags (f (bufs s b)) \<in> {2, 6}"
  shows "bio_ok (upd_buf b f s)"
    and "caches (upd_buf b f s) i n \<longleftrightarrow> caches s i n"
    and "blk (upd_buf b f s) = (blk s)(b_blockno (bufs s b) := b_data (f (bufs s b)))"
    and "in_use (upd_buf b f s) = in_use s"
proof -
  note D = in_useD [OF ok b]
  have c: "caches (upd_buf b f s) i n \<longleftrightarrow> caches s i n" for i n
    using D(4) fl f by (auto simp: caches_def)
  obtain xs where xs: "ring (bufs s) xs" "set xs = {..<NBUF}" using bio_ok_ring [OF ok] .
  have "ring (bufs (upd_buf b f s)) xs" using xs(1) f by (subst ring_links [of _ "bufs s"]) auto
  moreover have "buf_ok (upd_buf b f s) i" if i: "i < NBUF" for i
    using ok i D(3,4) fl f by (auto simp: bio_ok_def buf_ok_def owned_sleep_def)
  moreover have "i = j" if "caches (upd_buf b f s) i m" "caches (upd_buf b f s) j m" for i j m
    using that ok unfolding c by (auto simp: bio_ok_def)
  moreover have "held s = {}" "cur s \<noteq> None" using ok by (auto simp: bio_ok_def)
  ultimately show t: "bio_ok (upd_buf b f s)" using xs(2) unfolding bio_ok_def by auto
  show "caches (upd_buf b f s) i n \<longleftrightarrow> caches s i n" by (rule c)
  show "in_use (upd_buf b f s) = in_use s" using f by (auto simp: in_use_def)
  show "blk (upd_buf b f s) = (blk s)(b_blockno (bufs s b) := b_data (f (bufs s b)))"
  proof
    fix m
    show "blk (upd_buf b f s) m = ((blk s)(b_blockno (bufs s b) := b_data (f (bufs s b)))) m"
    proof (cases "\<exists>i. caches s i m")
      case True
      then obtain i where i: "caches s i m" by blast
      have "m = b_blockno (bufs s b) \<longleftrightarrow> i = b" using ok i D(6) by (auto simp: bio_ok_def caches_def)
      then show ?thesis using blk_cached [OF t, of i m] blk_cached [OF ok i] i by (auto simp: c)
    next
      case False
      then have "m \<noteq> b_blockno (bufs s b)" using D(6) by auto
      then show ?thesis using False blk_uncached [of s m] blk_uncached [of "upd_buf b f s" m] by (auto simp: c)
    qed
  qed
qed

lemma upd_buf_frame: "bio_frame s (upd_buf b f s)"
  by (simp add: bio_frame_def upd_buf_def)

section \<open>Giving a buffer back\<close>

lemma brelse_ok:
  assumes ok: "bio_ok s" and b: "b \<in> in_use s"
    and clean: "b_flags (bufs s b) = 6 \<or> b_data (bufs s b) = disk s (unat (b_blockno (bufs s b)))"
  obtains t where "brelse b s = Ret () t" "bio_ok t" "bio_frame s t" "disk t = disk s" "dhist t = dhist s"
    "same_bufs ((bufs s)(b := (bufs s b)\<lparr>b_refcnt := 0\<rparr>)) (bufs t)"
proof -
  note D = in_useD [OF ok b]
  note idle = bio_ok_idle [OF ok]
  let ?s1 = "(set_sleeplock (SBuf b) 0 0 s)\<lparr>ptable := wake_all (ChSleeplock (SBuf b)) (ptable s)\<rparr>"
  let ?s2 = "upd_buf b (b_refcnt_update (\<lambda>r. r - 1)) ?s1"
  let ?t = "link_front b (brelse_unlink b ?s2)"
  have r1: "releasesleep (SBuf b) s = Ret () ?s1" using releasesleep_eq [of "SBuf b" s] idle by simp
  have lf: "link_front b (s'\<lparr>held := h\<rparr>) = (link_front b s')\<lparr>held := h\<rparr>"
    "brelse_unlink b (s'\<lparr>held := h\<rparr>) = (brelse_unlink b s')\<lparr>held := h\<rparr>"
    "upd_buf b f (s'\<lparr>held := h\<rparr>) = (upd_buf b f s')\<lparr>held := h\<rparr>"
    "held (link_front b s') = held s'" "held (brelse_unlink b s') = held s'" for f and s' :: "'a bst_scheme" and h
    by (simp_all add: link_front_def brelse_unlink_def upd_buf_def Let_def)
  have res: "brelse b s = Ret () ?t"
    using in_use_holding [OF ok b] r1 idle D(3) by (simp add: brelse_def lf del: upd_buf_held)
  have q: "b_refcnt_update (\<lambda>r. r - 1) (bufs s b) = (bufs s b)\<lparr>b_refcnt := 0\<rparr>"
    by (rule buf.equality) (use D(3) in simp_all)
  have s2: "bufs ?s2 = (bufs s)(b := (bufs s b)\<lparr>b_refcnt := 0\<rparr>)" by (simp add: q)
  have same: "same_bufs ((bufs s)(b := (bufs s b)\<lparr>b_refcnt := 0\<rparr>)) (bufs ?t)"
    using same_bufs_trans [OF brelse_unlink_same [of ?s2 b] link_front_same] unfolding s2 .
  obtain g where g: "?t = ?s2\<lparr>bufs := g\<rparr>"
    using bufs_trans [OF brelse_unlink_bufs [of b ?s2] link_front_bufs [of b]] by blast
  have frame: "bio_frame s ?t" "disk ?t = disk s" "dhist ?t = dhist s" "disksize ?t = disksize s"
    "held ?t = {}" "cur ?t = cur s" "sleeplocks ?t = (sleeplocks s)(SBuf b := \<lparr>sl_locked = 0, sl_pid = 0\<rparr>)"
    "ptable ?t = wake_all (ChSleeplock (SBuf b)) (ptable s)"
    unfolding g using idle woken_wake_all by (simp_all add: bio_frame_def set_sleeplock_def upd_buf_def)
  have "bio_ok ?t"
  proof -
    obtain xs where xs: "ring (bufs s) xs" "set xs = {..<NBUF}" using bio_ok_ring [OF ok] .
    obtain us vs where uv: "xs = us @ b # vs" using D(1) xs(2) by (metis lessThan_iff split_list)
    have "ring (bufs ?s2) (us @ b # vs)" using xs(1) uv by (subst ring_links [of _ "bufs s"]) auto
    then have "ring (bufs ?t) (b # us @ vs)" by (rule move_front_ring)
    moreover have "set (b # us @ vs) = {..<NBUF}" using xs(2) uv by auto
    moreover have "buf_ok ?t i" if i: "i < NBUF" for i
      using ok i same clean D frame(2-)
      by (cases "i = b") (auto simp: bio_ok_def buf_ok_def same_bufs_def owned_sleep_def)
    moreover have "caches ?t i m \<longleftrightarrow> caches s i m" for i m
      using same by (auto simp: caches_def same_bufs_def)
    ultimately show ?thesis using ok frame(5,6) unfolding bio_ok_def by metis
  qed
  with res frame same that show ?thesis by blast
qed

text \<open>The consequences of \<open>brelse\<close> that its users need.\<close>

lemma released:
  assumes "bio_ok s" "b \<in> in_use s" "same_bufs ((bufs s)(b := (bufs s b)\<lparr>b_refcnt := 0\<rparr>)) (bufs t)" "disk t = disk s"
  shows "in_use t = in_use s - {b}" "pinned t = pinned s" "blk t = blk s" "caches t i n \<longleftrightarrow> caches s i n"
    "b_data (bufs t i) = b_data (bufs s i)" "b_blockno (bufs t i) = b_blockno (bufs s i)"
    "b_flags (bufs t i) = b_flags (bufs s i)"
proof -
  have f: "b_flags (bufs t i) = b_flags (bufs s i)" "b_data (bufs t i) = b_data (bufs s i)"
    "b_blockno (bufs t i) = b_blockno (bufs s i)" "b_refcnt (bufs t i) = (if i = b then 0 else b_refcnt (bufs s i))" for i
    using assms(3) by (auto simp: same_bufs_def)
  show "in_use t = in_use s - {b}" "pinned t = pinned s" "caches t i n \<longleftrightarrow> caches s i n"
    using assms(2) by (auto simp: in_use_def pinned_def caches_def f)
  show "b_data (bufs t i) = b_data (bufs s i)" "b_blockno (bufs t i) = b_blockno (bufs s i)"
    "b_flags (bufs t i) = b_flags (bufs s i)" by (rule f)+
  show "blk t = blk s" using assms(4) by (auto simp: fun_eq_iff blk_def f split: option.split)
qed

section \<open>The contract\<close>

text \<open>The numbers of the blocks that are pinned, and of the blocks that are held.\<close>

definition pins :: "'z bst_scheme \<Rightarrow> u32 set" where
  "pins s = (\<lambda>i. b_blockno (bufs s i)) ` pinned s"

definition blockno :: "'z bst_scheme \<Rightarrow> nat \<Rightarrow> u32" where
  "blockno s b = b_blockno (bufs s b)"

definition bdata :: "'z bst_scheme \<Rightarrow> nat \<Rightarrow> bytes" where
  "bdata s b = b_data (bufs s b)"

definition put_data :: "nat \<Rightarrow> bytes \<Rightarrow> 'z bst_scheme \<Rightarrow> 'z bst_scheme" where
  "put_data b d s = upd_buf b (b_data_update (\<lambda>_. d)) s"

definition pin :: "nat \<Rightarrow> 'z bst_scheme \<Rightarrow> 'z bst_scheme" where
  "pin b s = upd_buf b (b_flags_update (\<lambda>f. f OR B_DIRTY)) s"

locale block_store =
  fixes rd :: "u32 \<Rightarrow> 's \<Rightarrow> ('s, nat) outcome"
    and wr :: "nat \<Rightarrow> 's \<Rightarrow> ('s, unit) outcome"
    and rel :: "nat \<Rightarrow> 's \<Rightarrow> ('s, unit) outcome"
    and put :: "nat \<Rightarrow> bytes \<Rightarrow> 's \<Rightarrow> 's"
    and keep :: "nat \<Rightarrow> 's \<Rightarrow> 's"
    and no :: "'s \<Rightarrow> nat \<Rightarrow> u32"
    and dat :: "'s \<Rightarrow> nat \<Rightarrow> bytes"
    and ok :: "'s \<Rightarrow> bool"
    and busy :: "'s \<Rightarrow> nat set"
    and kept :: "'s \<Rightarrow> u32 set"
    and view :: "'s \<Rightarrow> u32 \<Rightarrow> bytes"
    and dsk :: "'s \<Rightarrow> nat \<Rightarrow> bytes"
    and hist :: "'s \<Rightarrow> (nat \<times> bytes) list"
    and lim :: "'s \<Rightarrow> u32"
    and frame :: "'s \<Rightarrow> 's \<Rightarrow> bool"
  assumes frame_trans: "frame s t \<Longrightarrow> frame t u \<Longrightarrow> frame s u"
    and frame_lim: "frame s t \<Longrightarrow> lim t = lim s"
    and finite_using: "ok s \<Longrightarrow> finite (busy s)"
    and finite_kept: "ok s \<Longrightarrow> finite (kept s)"
    and held_view: "ok s \<Longrightarrow> b \<in> busy s \<Longrightarrow> view s (no s b) = dat s b"
    and held_inj: "ok s \<Longrightarrow> b \<in> busy s \<Longrightarrow> c \<in> busy s \<Longrightarrow> no s b = no s c \<Longrightarrow> b = c"
    and clean: "ok s \<Longrightarrow> n \<notin> kept s \<Longrightarrow> n \<notin> no s ` busy s \<Longrightarrow> view s n = dsk s (unat n)"
    and rd_spec: "ok s \<Longrightarrow> n < lim s \<Longrightarrow> n \<notin> no s ` busy s \<Longrightarrow> card (busy s) + card (kept s) < NBUF \<Longrightarrow>
      returns (rd n s) (\<lambda>b t. ok t \<and> frame s t \<and> b \<notin> busy s \<and> busy t = insert b (busy s)
        \<and> kept t = kept s \<and> view t = view s \<and> dsk t = dsk s \<and> hist t = hist s \<and> no t b = n
        \<and> (\<forall>i \<in> busy s. no t i = no s i))"
    and put_spec: "ok s \<Longrightarrow> b \<in> busy s \<Longrightarrow> ok (put b d s) \<and> frame s (put b d s)
        \<and> busy (put b d s) = busy s \<and> kept (put b d s) = kept s \<and> view (put b d s) = (view s)(no s b := d)
        \<and> dsk (put b d s) = dsk s \<and> hist (put b d s) = hist s \<and> no (put b d s) = no s"
    and keep_spec: "ok s \<Longrightarrow> b \<in> busy s \<Longrightarrow> ok (keep b s) \<and> frame s (keep b s)
        \<and> busy (keep b s) = busy s \<and> kept (keep b s) = insert (no s b) (kept s) \<and> view (keep b s) = view s
        \<and> dsk (keep b s) = dsk s \<and> hist (keep b s) = hist s \<and> no (keep b s) = no s"
    and wr_spec: "ok s \<Longrightarrow> b \<in> busy s \<Longrightarrow> returns (wr b s) (\<lambda>_ t. ok t \<and> frame s t
        \<and> busy t = busy s \<and> kept t = kept s - {no s b} \<and> view t = view s
        \<and> dsk t = (dsk s)(unat (no s b) := dat s b) \<and> hist t = hist s @ [(unat (no s b), dat s b)] \<and> no t = no s)"
    and rel_spec: "ok s \<Longrightarrow> b \<in> busy s \<Longrightarrow> no s b \<in> kept s \<or> dat s b = dsk s (unat (no s b)) \<Longrightarrow>
      returns (rel b s) (\<lambda>_ t. ok t \<and> frame s t \<and> busy t = busy s - {b} \<and> kept t = kept s \<and> view t = view s
        \<and> dsk t = dsk s \<and> hist t = hist s \<and> no t = no s)"
begin

lemma edit_block:
  assumes ok: "ok s" "busy s = {}" "n < lim s" "card (kept s) < NBUF"
  shows "returns (bindK (rd n s) (\<lambda>b t. bindK (wr b (put b (f (dat t b)) t)) (\<lambda>_ t. rel b t)))
    (\<lambda>_ t. ok t \<and> frame s t \<and> busy t = {} \<and> view t = (view s)(n := f (view s n))
      \<and> dsk t = (dsk s)(unat n := f (view s n)) \<and> hist t = hist s @ [(unat n, f (view s n))] \<and> kept t = kept s - {n})"
proof -
  have "returns (wr b (put b (f (dat t b)) t)) (\<lambda>_ t. returns (rel b t)
      (\<lambda>_ t. ok t \<and> frame s t \<and> busy t = {} \<and> view t = (view s)(n := f (view s n))
      \<and> dsk t = (dsk s)(unat n := f (view s n)) \<and> hist t = hist s @ [(unat n, f (view s n))] \<and> kept t = kept s - {n}))"
    if t: "ok t" "frame s t" "busy t = {b}" "kept t = kept s" "view t = view s" "dsk t = dsk s" "hist t = hist s" "no t b = n"
    for b t
  proof -
    let ?d = "f (dat t b)" and ?p = "put b (f (dat t b)) t"
    have d: "dat t b = view s n" using held_view [OF t(1), of b] t by simp
    have b: "b \<in> busy t" using t(3) by simp
    note P = put_spec [OF t(1) b, of ?d]
    have pd: "dat ?p b = ?d" using held_view [of ?p b] P t(3,8) by simp
    have bp: "b \<in> busy ?p" "ok ?p" using P b by auto
    have "returns (rel b u) (\<lambda>_ v. ok v \<and> frame s v \<and> busy v = {} \<and> view v = (view s)(n := f (view s n))
      \<and> dsk v = (dsk s)(unat n := f (view s n)) \<and> hist v = hist s @ [(unat n, f (view s n))] \<and> kept v = kept s - {n})"
      if u: "ok u" "frame ?p u" "busy u = busy ?p" "kept u = kept ?p - {no ?p b}" "view u = view ?p"
        "dsk u = (dsk ?p)(unat (no ?p b) := dat ?p b)" "hist u = hist ?p @ [(unat (no ?p b), dat ?p b)]" "no u = no ?p" for u
    proof -
      have bu: "b \<in> busy u" using u(3) bp by simp
      have "dat u b = dsk u (unat (no u b))" using held_view [OF u(1) bu] u P t pd by simp
      from rel_spec [OF u(1) bu disjI2 [OF this]]
      show ?thesis
        by (rule returns_mono)
          (use u P t pd d in \<open>auto intro: frame_trans\<close>)
    qed
    then show ?thesis using wr_spec [OF bp(2,1)] by (elim returns_mono) blast
  qed
  moreover have "returns (rd n s) (\<lambda>b t. ok t \<and> frame s t \<and> busy t = {b} \<and> kept t = kept s \<and> view t = view s
      \<and> dsk t = dsk s \<and> hist t = hist s \<and> no t b = n)"
    using rd_spec [OF ok(1,3)] ok(2,4) by (auto elim!: returns_mono)
  ultimately show ?thesis by (auto elim!: returns_mono)
qed

text \<open>Two blocks held at once, for the copying loops.\<close>

lemma read_two:
  assumes ok: "ok s" "busy s = {}" "n < lim s" "m < lim s" "n \<noteq> m" "Suc (card (kept s)) < NBUF"
  shows "returns (rd n s) (\<lambda>b t. returns (rd m t) (\<lambda>c u. ok u \<and> frame s u \<and> b \<noteq> c \<and> busy u = {b, c} \<and> kept u = kept s
    \<and> view u = view s \<and> dsk u = dsk s \<and> hist u = hist s \<and> no u b = n \<and> no u c = m
    \<and> dat u b = view s n \<and> dat u c = view s m))"
proof -
  have "returns (rd m t) (\<lambda>c u. ok u \<and> frame s u \<and> b \<noteq> c \<and> busy u = {b, c} \<and> kept u = kept s
    \<and> view u = view s \<and> dsk u = dsk s \<and> hist u = hist s \<and> no u b = n \<and> no u c = m
    \<and> dat u b = view s n \<and> dat u c = view s m)"
    if t: "ok t" "frame s t" "busy t = {b}" "kept t = kept s" "view t = view s" "dsk t = dsk s" "hist t = hist s" "no t b = n" for b t
  proof -
    have "m < lim t" using frame_lim [OF t(2)] ok(4) by simp
    moreover have "m \<notin> no t ` busy t" using t(3,8) ok(5) by auto
    moreover have "card (busy t) + card (kept t) < NBUF" using t(3,4) ok(6) by simp
    ultimately have "returns (rd m t) (\<lambda>c u. ok u \<and> frame t u \<and> c \<notin> busy t \<and> busy u = insert c (busy t)
        \<and> kept u = kept t \<and> view u = view t \<and> dsk u = dsk t \<and> hist u = hist t \<and> no u c = m
        \<and> (\<forall>i \<in> busy t. no u i = no t i))"
      by (rule rd_spec [OF t(1)])
    then show ?thesis
    proof (rule returns_mono)
      fix c u
      assume u: "ok u \<and> frame t u \<and> c \<notin> busy t \<and> busy u = insert c (busy t)
        \<and> kept u = kept t \<and> view u = view t \<and> dsk u = dsk t \<and> hist u = hist t \<and> no u c = m
        \<and> (\<forall>i \<in> busy t. no u i = no t i)"
      have "frame s u" using frame_trans [OF t(2)] u by blast
      moreover have "dat u b = view s n" "dat u c = view s m"
        using held_view [of u b] held_view [of u c] u t by auto
      ultimately show "ok u \<and> frame s u \<and> b \<noteq> c \<and> busy u = {b, c} \<and> kept u = kept s
        \<and> view u = view s \<and> dsk u = dsk s \<and> hist u = hist s \<and> no u b = n \<and> no u c = m
        \<and> dat u b = view s n \<and> dat u c = view s m"
        using u t by auto
    qed
  qed
  moreover have "returns (rd n s) (\<lambda>b t. ok t \<and> frame s t \<and> busy t = {b} \<and> kept t = kept s \<and> view t = view s
      \<and> dsk t = dsk s \<and> hist t = hist s \<and> no t b = n)"
    using rd_spec [OF ok(1,3)] ok(2,6) by (auto elim!: returns_mono)
  ultimately show ?thesis by (elim returns_mono) blast
qed

lemma write_and_release:
  assumes s: "ok s" "busy s = {}" and n: "unat n \<noteq> unat m"
    and u: "ok u" "frame s u" "x \<noteq> y" "busy u = {x, y}" "kept u = kept s" "view u = view s" "dsk u = dsk s"
      "hist u = hist s" "no u x = m" "no u y = n"
  shows "returns (wr x (put x d u)) (\<lambda>_ v. returns (rel y v) (\<lambda>_ w. returns (rel x w) (\<lambda>_ z.
    ok z \<and> frame s z \<and> busy z = {} \<and> view z = (view s)(m := d) \<and> dsk z = (dsk s)(unat m := d)
    \<and> hist z = hist s @ [(unat m, d)] \<and> kept z = kept s - {m})))"
    (is "returns _ (\<lambda>_ v. returns _ (\<lambda>_ w. returns _ (\<lambda>_ z. ?post z)))")
proof -
  let ?p = "put x d u"
  have x: "x \<in> busy u" "n \<noteq> m" using u(4) n by auto
  note P = put_spec [OF u(1) x(1), of d]
  have p: "ok ?p" "x \<in> busy ?p" "dat ?p x = d" using P x held_view [of ?p x] u(9) by auto
  have W: "returns (wr x ?p) (\<lambda>_ v. ok v \<and> frame s v \<and> busy v = {x, y} \<and> kept v = kept s - {m}
      \<and> view v = (view s)(m := d) \<and> dsk v = (dsk s)(unat m := d) \<and> hist v = hist s @ [(unat m, d)] \<and> no v = no u)"
    by (rule returns_mono [OF wr_spec [OF p(1,2)]]) (use P p u in \<open>auto intro: frame_trans\<close>)
  have R: "returns (rel y v) (\<lambda>_ w. ok w \<and> frame s w \<and> busy w = {x} \<and> kept w = kept s - {m}
      \<and> view w = (view s)(m := d) \<and> dsk w = (dsk s)(unat m := d) \<and> hist w = hist s @ [(unat m, d)] \<and> no w = no u)"
    if v: "ok v" "frame s v" "busy v = {x, y}" "kept v = kept s - {m}" "view v = (view s)(m := d)"
      "dsk v = (dsk s)(unat m := d)" "hist v = hist s @ [(unat m, d)]" "no v = no u" for v
  proof -
    have y: "y \<in> busy v" using v(3) by simp
    have "no v y \<in> kept v \<or> dat v y = dsk v (unat (no v y))"
      using clean [OF s(1), of n] s(2) held_view [OF v(1) y] v x n u(10) by auto
    from rel_spec [OF v(1) y this] show ?thesis
      by (rule returns_mono) (use v u(3) in \<open>auto intro: frame_trans\<close>)
  qed
  have L: "returns (rel x w) (\<lambda>_ z. ?post z)"
    if w: "ok w" "frame s w" "busy w = {x}" "kept w = kept s - {m}" "view w = (view s)(m := d)"
      "dsk w = (dsk s)(unat m := d)" "hist w = hist s @ [(unat m, d)]" "no w = no u" for w
  proof -
    have x: "x \<in> busy w" using w(3) by simp
    have "dat w x = dsk w (unat (no w x))" using held_view [OF w(1) x] w u(9) by simp
    from rel_spec [OF w(1) x disjI2 [OF this]] show ?thesis
      by (rule returns_mono) (use w in \<open>auto intro: frame_trans\<close>)
  qed
  have "returns (rel y v) (\<lambda>_ w. returns (rel x w) (\<lambda>_ z. ?post z))"
    if v: "ok v" "frame s v" "busy v = {x, y}" "kept v = kept s - {m}" "view v = (view s)(m := d)"
      "dsk v = (dsk s)(unat m := d)" "hist v = hist s @ [(unat m, d)]" "no v = no u" for v
    using R [OF v] by (rule returns_mono) (rule L; simp)
  then show ?thesis using W by (elim returns_mono) simp
qed

lemma copy_to_second:
  assumes s: "ok s" "busy s = {}" "n < lim s" "m < lim s" "unat n \<noteq> unat m" "Suc (card (kept s)) < NBUF"
  shows "returns (rd n s) (\<lambda>b t. returns (rd m t) (\<lambda>c u. returns (wr c (put c (dat u b) u)) (\<lambda>_ v.
    returns (rel b v) (\<lambda>_ w. returns (rel c w) (\<lambda>_ z.
    ok z \<and> frame s z \<and> busy z = {} \<and> view z = (view s)(m := view s n) \<and> dsk z = (dsk s)(unat m := view s n)
    \<and> hist z = hist s @ [(unat m, view s n)] \<and> kept z = kept s - {m})))))"
proof -
  have "n \<noteq> m" using s(5) by auto
  from read_two [OF s(1-4) this s(6)] show ?thesis
    by (elim returns_mono) (use write_and_release [OF s(1,2,5)] in \<open>auto simp: insert_commute\<close>)
qed

lemma copy_to_first:
  assumes s: "ok s" "busy s = {}" "m < lim s" "n < lim s" "unat n \<noteq> unat m" "Suc (card (kept s)) < NBUF"
  shows "returns (rd m s) (\<lambda>b t. returns (rd n t) (\<lambda>c u. returns (wr b (put b (dat u c) u)) (\<lambda>_ v.
    returns (rel c v) (\<lambda>_ w. returns (rel b w) (\<lambda>_ z.
    ok z \<and> frame s z \<and> busy z = {} \<and> view z = (view s)(m := view s n) \<and> dsk z = (dsk s)(unat m := view s n)
    \<and> hist z = hist s @ [(unat m, view s n)] \<and> kept z = kept s - {m})))))"
proof -
  have "m \<noteq> n" using s(5) by auto
  from read_two [OF s(1-4) this s(6)] show ?thesis
    by (elim returns_mono) (use write_and_release [OF s(1,2,5)] in auto)
qed

end

lemma pins_inj: "bio_ok s \<Longrightarrow> inj_on (\<lambda>i. b_blockno (bufs s i)) (pinned s)"
  by (rule inj_onI) (auto simp: bio_ok_def pinned_def caches_def)

lemma room_card:
  assumes "bio_ok s" "card (in_use s) + card (pins s) < NBUF"
  shows "room s"
  unfolding room_def
proof
  assume "in_use s \<union> pinned s = {..<NBUF}"
  then have "NBUF = card (in_use s \<union> pinned s)" by simp
  also have "\<dots> \<le> card (in_use s) + card (pinned s)" by (rule card_Un_le)
  also have "card (pinned s) = card (pins s)"
    unfolding pins_def using card_image [OF pins_inj [OF assms(1)]] by simp
  finally show False using assms(2) by simp
qed

lemma caches_inj: "bio_ok s \<Longrightarrow> caches s i n \<Longrightarrow> caches s j n \<Longrightarrow> i = j"
  by (simp add: bio_ok_def)

lemma held_pinned:
  assumes ok: "bio_ok s" and b: "b \<in> in_use s"
  shows "blockno s b \<in> pins s \<longleftrightarrow> b_flags (bufs s b) = 6"
proof
  assume "blockno s b \<in> pins s"
  then obtain i where i: "i < NBUF" "b_flags (bufs s i) = 6" "b_blockno (bufs s b) = b_blockno (bufs s i)"
    by (auto simp: pins_def pinned_def blockno_def)
  then have "caches s i (b_blockno (bufs s b))" by (simp add: caches_def)
  then have "i = b" using caches_inj [OF ok] in_useD(6) [OF ok b] by blast
  then show "b_flags (bufs s b) = 6" using i by simp
next
  assume "b_flags (bufs s b) = 6"
  then show "blockno s b \<in> pins s" using in_useD(1) [OF ok b] by (auto simp: pins_def pinned_def blockno_def)
qed

lemma not_pinned_clean:
  assumes ok: "bio_ok s" and n: "n \<notin> pins s" "n \<notin> blockno s ` in_use s"
  shows "blk s n = disk s (unat n)"
proof (cases "\<exists>i. caches s i n")
  case True
  then obtain i where i: "caches s i n" by blast
  then have c: "i < NBUF" "b_flags (bufs s i) \<noteq> 0" "b_blockno (bufs s i) = n" by (auto simp: caches_def)
  have "b_flags (bufs s i) \<noteq> 6" using c n(1) by (auto simp: pins_def pinned_def)
  then have "b_flags (bufs s i) = 2" using bio_okD(1) [OF ok c(1)] c(2) by auto
  moreover have "b_refcnt (bufs s i) = 0" using c n(2) by (auto simp: blockno_def in_use_def)
  ultimately show ?thesis using bio_okD(6) [OF ok c(1)] blk_cached [OF ok i] c(3) by simp
next
  case False
  then show ?thesis using blk_uncached [of s n] by blast
qed

lemma bread_spec:
  assumes ok: "bio_ok s" and n: "n < disksize s" "n \<notin> blockno s ` in_use s"
    and room: "card (in_use s) + card (pins s) < NBUF"
  shows "returns (bread 1 n s) (\<lambda>b t. bio_ok t \<and> bio_frame s t \<and> b \<notin> in_use s \<and> in_use t = insert b (in_use s)
        \<and> pins t = pins s \<and> blk t = blk s \<and> disk t = disk s \<and> dhist t = dhist s \<and> blockno t b = n
        \<and> (\<forall>i \<in> in_use s. blockno t i = blockno s i))"
proof -
  have free: "\<forall>i \<in> in_use s. b_blockno (bufs s i) \<noteq> n" using n(2) by (auto simp: blockno_def)
  obtain b where b: "bread 1 n s = Ret b (taken b n s)" "b < NBUF" "b \<notin> in_use s"
      "caches s b n \<or> (\<forall>i. \<not> caches s i n) \<and> b_flags (bufs s b) \<noteq> 6"
    using bread_ok [OF ok n(1) free room_card [OF ok room]] .
  have r: "b_refcnt (bufs s b) = 0" using b(2,3) by (auto simp: in_use_def)
  have "caches s b n \<or> (\<forall>i. \<not> caches s i n)" using b(4) by blast
  note T = taken_ok [OF ok b(2) r n(1) this] taken_blk [OF ok b(2) r n(1) b(4)] taken_sets [OF b(2,4)]
  have "pins (taken b n s) = pins s"
    unfolding pins_def T(4) by (rule image_cong) (use b(4) in \<open>auto simp: pinned_def caches_def\<close>)
  then show ?thesis using b(3) T by (auto simp: b(1) taken_frame blockno_def)
qed

lemma put_data_spec:
  assumes ok: "bio_ok s" and b: "b \<in> in_use s"
  shows "bio_ok (put_data b d s) \<and> bio_frame s (put_data b d s) \<and> in_use (put_data b d s) = in_use s
    \<and> pins (put_data b d s) = pins s \<and> blk (put_data b d s) = (blk s)(blockno s b := d)
    \<and> disk (put_data b d s) = disk s \<and> dhist (put_data b d s) = dhist s \<and> blockno (put_data b d s) = blockno s"
proof -
  note U = held_update_ok [OF ok b, of "b_data_update (\<lambda>_. d)"]
  have "pins (put_data b d s) = pins s"
    unfolding pins_def put_data_def by (rule image_cong) (auto simp: pinned_def)
  moreover have "blockno (put_data b d s) = blockno s" by (auto simp: blockno_def put_data_def)
  ultimately show ?thesis using U in_useD(4) [OF ok b] upd_buf_frame by (simp add: put_data_def blockno_def)
qed

lemma pin_spec:
  assumes ok: "bio_ok s" and b: "b \<in> in_use s"
  shows "bio_ok (pin b s) \<and> bio_frame s (pin b s) \<and> in_use (pin b s) = in_use s
    \<and> pins (pin b s) = insert (blockno s b) (pins s) \<and> blk (pin b s) = blk s
    \<and> disk (pin b s) = disk s \<and> dhist (pin b s) = dhist s \<and> blockno (pin b s) = blockno s"
proof -
  note D = in_useD [OF ok b]
  note U = held_update_ok [OF ok b, of "b_flags_update (\<lambda>f. f OR B_DIRTY)"]
  have f: "b_flags (bufs s b) OR B_DIRTY = 6" using D(4) by (auto simp: B_DIRTY_def)
  have "pinned (pin b s) = insert b (pinned s)" using D(1) f by (auto simp: pinned_def pin_def)
  then have "pins (pin b s) = insert (blockno s b) (pins s)"
    by (auto simp: pins_def blockno_def pin_def)
  moreover have "blockno (pin b s) = blockno s" by (auto simp: blockno_def pin_def)
  moreover have "(blk s)(b_blockno (bufs s b) := b_data (bufs s b)) = blk s"
    using blk_held [OF ok b refl] by auto
  ultimately show ?thesis using U f upd_buf_frame by (simp add: pin_def)
qed

lemma bwrite_spec:
  assumes ok: "bio_ok s" and b: "b \<in> in_use s"
  shows "returns (bwrite b s) (\<lambda>_ t. bio_ok t \<and> bio_frame s t \<and> in_use t = in_use s \<and> pins t = pins s - {blockno s b}
    \<and> blk t = blk s \<and> disk t = (disk s)(unat (blockno s b) := bdata s b)
    \<and> dhist t = dhist s @ [(unat (blockno s b), bdata s b)] \<and> blockno t = blockno s)"
proof -
  have "pins (written b s) = (\<lambda>i. b_blockno (bufs s i)) ` (pinned s - {b})"
    unfolding pins_def written_sets(2) [OF b] by (rule image_cong) auto
  also have "\<dots> = pins s - {blockno s b}"
    using ok in_useD(6) [OF ok b] by (auto simp: pins_def blockno_def bio_ok_def pinned_def caches_def)
  finally have p: "pins (written b s) = pins s - {blockno s b}" .
  have n: "blockno (written b s) = blockno s" by (auto simp: blockno_def)
  show ?thesis
    unfolding bwrite_eq [OF ok b] returns.simps p n
    using written_ok [OF ok b] written_blk [OF ok b] written_sets(1) [OF b] written_frame
    by (simp add: blockno_def bdata_def)
qed

lemma brelse_spec:
  assumes ok: "bio_ok s" and b: "b \<in> in_use s"
    and c: "blockno s b \<in> pins s \<or> bdata s b = disk s (unat (blockno s b))"
  shows "returns (brelse b s) (\<lambda>_ t. bio_ok t \<and> bio_frame s t \<and> in_use t = in_use s - {b} \<and> pins t = pins s
    \<and> blk t = blk s \<and> disk t = disk s \<and> dhist t = dhist s \<and> blockno t = blockno s)"
proof -
  have "b_flags (bufs s b) = 6 \<or> b_data (bufs s b) = disk s (unat (b_blockno (bufs s b)))"
    using c held_pinned [OF ok b] by (auto simp: blockno_def bdata_def)
  from brelse_ok [OF ok b this] obtain t where
    t: "brelse b s = Ret () t" "bio_ok t" "bio_frame s t" "disk t = disk s" "dhist t = dhist s"
      "same_bufs ((bufs s)(b := (bufs s b)\<lparr>b_refcnt := 0\<rparr>)) (bufs t)" .
  note R = released [OF ok b t(6,4)]
  have "pins t = pins s" "blockno t = blockno s" unfolding pins_def R(2) blockno_def R(6) by simp_all
  then show ?thesis using t R(1,3) by simp
qed

interpretation bc: block_store "bread 1" bwrite brelse put_data pin blockno bdata bio_ok in_use pins blk disk dhist
  disksize bio_frame
proof unfold_locales
  fix s t u :: "'z bst_scheme" and b c n d
  show "bio_frame s t \<Longrightarrow> bio_frame t u \<Longrightarrow> bio_frame s u" by (rule bio_frame_trans)
  show "bio_frame s t \<Longrightarrow> disksize t = disksize s" by (rule bio_frame_sel)
  show "finite (in_use s)" "finite (pins s)" by (auto simp: in_use_def pins_def pinned_def)
  show "bio_ok s \<Longrightarrow> b \<in> in_use s \<Longrightarrow> blk s (blockno s b) = bdata s b"
    using blk_held [of s b] by (simp add: blockno_def bdata_def)
  show "bio_ok s \<Longrightarrow> b \<in> in_use s \<Longrightarrow> c \<in> in_use s \<Longrightarrow> blockno s b = blockno s c \<Longrightarrow> b = c"
    using in_useD(6) [of s b] in_useD(6) [of s c] by (auto simp: blockno_def bio_ok_def)
  show "bio_ok s \<Longrightarrow> n \<notin> pins s \<Longrightarrow> n \<notin> blockno s ` in_use s \<Longrightarrow> blk s n = disk s (unat n)"
    by (rule not_pinned_clean)
qed (rule bread_spec put_data_spec pin_spec bwrite_spec brelse_spec; assumption)+

end
