(* ===== verification/Xv6_Log_Inv.thy ===== *)
theory Xv6_Log_Inv
  imports Xv6_Log Xv6_Bio_Inv
begin

unbundle bit_operations_syntax

text \<open>
  Crash safety of the log. \<open>commit\<close> issues its block writes in a fixed order: the log blocks, the
  header, the home blocks, the cleared header. The theorems show that after a crash between any two of
  these writes, \<open>recover_from_log\<close>, started with an empty cache on the disk that the crash left, brings
  every block outside the log area to its content before the transaction or to its content after it,
  the same for all blocks; and that recovery itself may crash and be repeated.
\<close>

section \<open>Sequences of block writes\<close>

definition apply_writes :: "(nat \<Rightarrow> bytes) \<Rightarrow> (nat \<times> bytes) list \<Rightarrow> (nat \<Rightarrow> bytes)" where
  "apply_writes d ws = fold (\<lambda>(n, x) d. d(n := x)) ws d"

definition apply_view :: "(u32 \<Rightarrow> bytes) \<Rightarrow> (nat \<times> bytes) list \<Rightarrow> (u32 \<Rightarrow> bytes)" where
  "apply_view v ws = fold (\<lambda>(n, x) v. v(of_nat n := x)) ws v"

lemma apply_writes_simps [simp]:
  "apply_writes d [] = d" "apply_writes d (ws @ xs) = apply_writes (apply_writes d ws) xs"
  "apply_writes d [(n, x)] = d(n := x)"
  by (simp_all add: apply_writes_def)

lemma apply_view_simps [simp]:
  "apply_view v [] = v" "apply_view v (ws @ xs) = apply_view (apply_view v ws) xs"
  "apply_view v [(n, x)] = v(of_nat n := x)"
  by (simp_all add: apply_view_def)

lemma apply_writes_other: "n \<notin> fst ` set ws \<Longrightarrow> apply_writes d ws n = d n"
  by (induction ws arbitrary: d rule: rev_induct) auto

lemma apply_writes_at:
  assumes "i < k" "inj_on g {..<k}"
  shows "apply_writes d (map (\<lambda>i. (g i, x i)) [0..<k]) (g i) = x i"
  using assms
proof (induction k)
  case (Suc k)
  show ?case
  proof (cases "i = k")
    case False
    then have "g i \<noteq> g k" using Suc.prems by (auto simp: inj_on_def)
    moreover have "inj_on g {..<k}" using Suc.prems(2) by (rule inj_on_subset) auto
    ultimately show ?thesis using Suc False by simp
  qed simp
qed simp

lemma unat_of_nat32: "m < 2 ^ 32 \<Longrightarrow> unat (of_nat m :: u32) = m"
  by (simp add: unsigned_of_nat take_bit_nat_eq_self)

lemma apply_view_writes:
  assumes "\<And>n. v n = d (unat n)" "\<And>n x. (n, x) \<in> set ws \<Longrightarrow> n < 2 ^ 32"
  shows "apply_view v ws n = apply_writes d ws (unat n)"
  using assms
proof (induction ws arbitrary: n rule: rev_induct)
  case (snoc w ws)
  obtain m x where w: "w = (m, x)" by force
  have "m < 2 ^ 32" using snoc.prems(2) w by auto
  then have "unat (of_nat m :: u32) = m" by (rule unat_of_nat32)
  then have "n = of_nat m \<longleftrightarrow> unat n = m" by (auto simp: word_unat_eq_iff)
  then show ?case using snoc w by auto
qed simp

lemma apply_view_other:
  assumes "\<forall>w \<in> set ws. (of_nat (fst w) :: u32) \<noteq> n"
  shows "apply_view v ws n = v n"
  using assms by (induction ws rule: rev_induct) auto

lemma returns_conj: "returns m P \<Longrightarrow> returns m Q \<Longrightarrow> returns m (\<lambda>x s. P x s \<and> Q x s)"
  by (cases m) auto

section \<open>The copying loops\<close>

text \<open>A loop whose round \<open>i\<close> copies block \<open>src i\<close> to block \<open>dst i\<close> on the disk.\<close>

definition copied :: "(nat \<Rightarrow> u32) \<Rightarrow> (nat \<Rightarrow> u32) \<Rightarrow> nat \<Rightarrow> (u32 \<Rightarrow> bytes) \<Rightarrow> (nat \<times> bytes) list" where
  "copied src dst k v = map (\<lambda>i. (unat (dst i), v (src i))) [0..<k]"

lemma copied_Suc: "copied src dst (Suc k) v = copied src dst k v @ [(unat (dst k), v (src k))]"
  by (simp add: copied_def)

lemma copy_loop:
  fixes s :: "'z bst_scheme"
  assumes s: "bio_ok s" "in_use s = {}" "Suc (card (pins s)) < NBUF"
    and disj: "\<And>i j. i < k \<Longrightarrow> j < k \<Longrightarrow> src i \<noteq> dst j"
    and body: "\<And>i t. i < k \<Longrightarrow> bio_ok t \<Longrightarrow> bio_frame s t \<Longrightarrow> in_use t = {} \<Longrightarrow> Suc (card (pins t)) < NBUF \<Longrightarrow>
      returns (body i t) (\<lambda>_ z. bio_ok z \<and> bio_frame t z \<and> in_use z = {} \<and> blk z = (blk t)(dst i := blk t (src i))
        \<and> disk z = (disk t)(unat (dst i) := blk t (src i)) \<and> dhist z = dhist t @ [(unat (dst i), blk t (src i))]
        \<and> pins z = pins t - {dst i})"
  shows "returns (for_rangeK 0 k body s) (\<lambda>_ t. bio_ok t \<and> bio_frame s t \<and> in_use t = {}
    \<and> blk t = apply_view (blk s) (copied src dst k (blk s)) \<and> disk t = apply_writes (disk s) (copied src dst k (blk s))
    \<and> dhist t = dhist s @ copied src dst k (blk s) \<and> pins t = pins s - dst ` {..<k})"
proof -
  let ?P = "\<lambda>j t. j \<le> k \<and> bio_ok t \<and> bio_frame s t \<and> in_use t = {}
    \<and> blk t = apply_view (blk s) (copied src dst j (blk s)) \<and> disk t = apply_writes (disk s) (copied src dst j (blk s))
    \<and> dhist t = dhist s @ copied src dst j (blk s) \<and> pins t = pins s - dst ` {..<j}"
  have "returns (for_rangeK 0 k body s) (\<lambda>_ t. ?P (0 + k) t)"
  proof (rule for_rangeK_total [of ?P])
    show "?P 0 s" using s by (simp add: copied_def)
  next
    fix i t
    assume i: "i < 0 + k" and P: "?P i t"
    have "finite (pins s)" by (auto simp: pins_def pinned_def)
    then have "card (pins t) \<le> card (pins s)" using P by (auto intro: card_mono)
    then have "Suc (card (pins t)) < NBUF" using s(3) by simp
    moreover have src: "blk t (src i) = blk s (src i)"
    proof -
      have "apply_view (blk s) (copied src dst i (blk s)) (src i) = blk s (src i)"
        using i disj by (intro apply_view_other) (auto simp: copied_def dest!: sym [of "dst _"])
      then show ?thesis using P by simp
    qed
    ultimately show "returns (body i t) (\<lambda>_ z. ?P (Suc i) z)"
      using P i by (intro returns_mono [OF body])
        (auto simp: copied_Suc lessThan_Suc intro: bio_frame_trans)
  qed
  then show ?thesis by (rule returns_mono) simp
qed

section \<open>The log area\<close>

text \<open>The number of blocks that the log on the disk has room for behind its header.\<close>

definition log_cap :: "'z lst_scheme \<Rightarrow> nat" where
  "log_cap s = unat (lg_size (lg s)) - 1"

definition log_wf :: "'z lst_scheme \<Rightarrow> bool" where
  "log_wf s \<longleftrightarrow> lg_dev (lg s) = 1 \<and> 0 < unat (lg_size (lg s)) \<and> unat (lg_start (lg s)) + log_cap s < unat (disksize s)"

definition log_area :: "'z lst_scheme \<Rightarrow> nat set" where
  "log_area s = {unat (lg_start (lg s)) .. unat (lg_start (lg s)) + log_cap s}"

definition log_block :: "'z lst_scheme \<Rightarrow> nat \<Rightarrow> u32" where
  "log_block s i = lg_start (lg s) + of_nat i + 1"

text \<open>The block numbers of a transaction: blocks of the disk outside the log area, each once.\<close>

definition entries_ok :: "'z lst_scheme \<Rightarrow> nat \<Rightarrow> (nat \<Rightarrow> u32) \<Rightarrow> bool" where
  "entries_ok s k f \<longleftrightarrow> k \<le> LOGSIZE \<and> k \<le> log_cap s \<and> (\<forall>i < k. f i < disksize s \<and> unat (f i) \<notin> log_area s) \<and> inj_on f {..<k}"

lemma bio_frame_lg: "bio_frame s t \<Longrightarrow> lg t = lg s"
proof -
  let ?t = "t\<lparr>bufs := bufs s, disk := disk s, dhist := dhist s, sleeplocks := sleeplocks s, ptable := ptable s\<rparr>"
  assume "bio_frame s t"
  then have "?t = s" by (simp add: bio_frame_def)
  moreover have "lg ?t = lg t" by simp
  ultimately show ?thesis by simp
qed

lemma log_block_no:
  assumes "log_wf s" "i < log_cap s"
  shows "unat (log_block s i) = unat (lg_start (lg s)) + i + 1" "log_block s i < disksize s"
proof -
  have b: "unat (lg_start (lg s)) + i + 1 < unat (disksize s)" using assms by (simp add: log_wf_def)
  have "log_block s i = of_nat (unat (lg_start (lg s)) + i + 1)" by (simp add: log_block_def)
  moreover have "unat (lg_start (lg s)) + i + 1 < 2 ^ 32" using b unat_u32 [of "disksize s"] by simp
  ultimately show u: "unat (log_block s i) = unat (lg_start (lg s)) + i + 1" by (simp only: unat_of_nat32)
  show "log_block s i < disksize s" using u b by (simp add: word_less_nat_alt)
qed

lemma log_block_area:
  assumes "log_wf s" "i < log_cap s"
  shows "unat (log_block s i) \<in> log_area s" "unat (log_block s i) \<noteq> unat (lg_start (lg s))"
  using log_block_no [OF assms] assms by (auto simp: log_area_def)

lemma log_block_inj: "log_wf s \<Longrightarrow> inj_on (log_block s) {..<log_cap s}"
  by (rule inj_onI) (metis add_left_cancel add_right_cancel lessThan_iff log_block_no(1))

lemma set_data_put: "set_data b d s = put_data b d s"
  by (simp add: set_data_def put_data_def)

lemma install_trans_ok:
  fixes s :: "'z lst_scheme"
  assumes s: "bio_ok s" "in_use s = {}" "Suc (card (pins s)) < NBUF" and wf: "log_wf s"
    and e: "entries_ok s (lh_count s) (lh_block (lg_lh (lg s)))"
  shows "returns (install_trans s) (\<lambda>_ t. bio_ok t \<and> bio_frame s t \<and> in_use t = {}
    \<and> blk t = apply_view (blk s) (copied (log_block s) (lh_block (lg_lh (lg s))) (lh_count s) (blk s))
    \<and> disk t = apply_writes (disk s) (copied (log_block s) (lh_block (lg_lh (lg s))) (lh_count s) (blk s))
    \<and> dhist t = dhist s @ copied (log_block s) (lh_block (lg_lh (lg s))) (lh_count s) (blk s)
    \<and> pins t = pins s - lh_block (lg_lh (lg s)) ` {..<lh_count s})"
  unfolding install_trans_def
proof (rule copy_loop [OF s])
  let ?f = "lh_block (lg_lh (lg s))" and ?k = "lh_count s"
  have lt: "i < log_cap s" if "i < ?k" for i using e that by (simp add: entries_ok_def)
  have ne: "unat (log_block s i) \<noteq> unat (?f j)" if "i < ?k" "j < ?k" for i j
    using log_block_area(1) [OF wf lt [OF that(1)]] e that by (auto simp: entries_ok_def)
  then show "log_block s i \<noteq> ?f j" if "i < ?k" "j < ?k" for i j using that by fastforce
  fix i and t :: "'z lst_scheme"
  assume i: "i < ?k" and t: "bio_ok t" "bio_frame s t" "in_use t = {}" "Suc (card (pins t)) < NBUF"
  have lgt: "lg t = lg s" "disksize t = disksize s" using bio_frame_lg [OF t(2)] bio_frame_sel(3) [OF t(2)] .
  have n: "log_block s i < disksize t" "?f i < disksize t"
    using log_block_no(2) [OF wf lt [OF i]] e i lgt by (auto simp: entries_ok_def)
  have "log_block s i \<notin> blockno t ` in_use t" "card (in_use t) + card (pins t) < NBUF" using t(3,4) by auto
  from bread_spec [OF t(1) n(1) this]
  have "returns (bread 1 (log_block s i) t) (\<lambda>_ u. lg u = lg s)"
    by (rule returns_mono) (use bio_frame_lg lgt in metis)
  from returns_conj [OF this bc.copy_to_second [OF t(1,3) n ne [OF i i] t(4)]]
  show "returns (bindK (bread (lg_dev (lg t)) (lg_start (lg t) + of_nat i + 1) t) (\<lambda>lbuf s.
       bindK (bread (lg_dev (lg s)) (lh_block (lg_lh (lg s)) i) s) (\<lambda>dbuf s.
       bindK (bwrite dbuf (set_data dbuf (b_data (bufs s lbuf)) s)) (\<lambda>_ s.
       bindK (brelse lbuf s) (\<lambda>_ s.
       brelse dbuf s)))))
     (\<lambda>_ z. bio_ok z \<and> bio_frame t z \<and> in_use z = {} \<and> blk z = (blk t)(?f i := blk t (log_block s i))
        \<and> disk z = (disk t)(unat (?f i) := blk t (log_block s i))
        \<and> dhist z = dhist t @ [(unat (?f i), blk t (log_block s i))] \<and> pins z = pins t - {?f i})"
    using wf lgt(1)
    by (simp add: log_block_def log_wf_def) (erule returns_mono, simp add: set_data_put bdata_def)
qed

lemma write_log_ok:
  fixes s :: "'z lst_scheme"
  assumes s: "bio_ok s" "in_use s = {}" "Suc (card (pins s)) < NBUF" and wf: "log_wf s"
    and e: "entries_ok s (lh_count s) (lh_block (lg_lh (lg s)))"
  shows "returns (write_log s) (\<lambda>_ t. bio_ok t \<and> bio_frame s t \<and> in_use t = {}
    \<and> blk t = apply_view (blk s) (copied (lh_block (lg_lh (lg s))) (log_block s) (lh_count s) (blk s))
    \<and> disk t = apply_writes (disk s) (copied (lh_block (lg_lh (lg s))) (log_block s) (lh_count s) (blk s))
    \<and> dhist t = dhist s @ copied (lh_block (lg_lh (lg s))) (log_block s) (lh_count s) (blk s)
    \<and> pins t = pins s - log_block s ` {..<lh_count s})"
  unfolding write_log_def
proof (rule copy_loop [OF s])
  let ?f = "lh_block (lg_lh (lg s))" and ?k = "lh_count s"
  have lt: "i < log_cap s" if "i < ?k" for i using e that by (simp add: entries_ok_def)
  have ne: "unat (?f j) \<noteq> unat (log_block s i)" if "i < ?k" "j < ?k" for i j
    using log_block_area(1) [OF wf lt [OF that(1)]] e that by (auto simp: entries_ok_def)
  then show "?f i \<noteq> log_block s j" if "i < ?k" "j < ?k" for i j using that by fastforce
  fix i and t :: "'z lst_scheme"
  assume i: "i < ?k" and t: "bio_ok t" "bio_frame s t" "in_use t = {}" "Suc (card (pins t)) < NBUF"
  have lgt: "lg t = lg s" "disksize t = disksize s" using bio_frame_lg [OF t(2)] bio_frame_sel(3) [OF t(2)] .
  have n: "log_block s i < disksize t" "?f i < disksize t"
    using log_block_no(2) [OF wf lt [OF i]] e i lgt by (auto simp: entries_ok_def)
  have "log_block s i \<notin> blockno t ` in_use t" "card (in_use t) + card (pins t) < NBUF" using t(3,4) by auto
  from bread_spec [OF t(1) n(1) this]
  have "returns (bread 1 (log_block s i) t) (\<lambda>_ u. lg u = lg s)"
    by (rule returns_mono) (use bio_frame_lg lgt in metis)
  from returns_conj [OF this bc.copy_to_first [OF t(1,3) n ne [OF i i] t(4)]]
  show "returns (bindK (bread (lg_dev (lg t)) (lg_start (lg t) + of_nat i + 1) t) (\<lambda>to s.
       bindK (bread (lg_dev (lg s)) (lh_block (lg_lh (lg s)) i) s) (\<lambda>from s.
       bindK (bwrite to (set_data to (b_data (bufs s from)) s)) (\<lambda>_ s.
       bindK (brelse from s) (\<lambda>_ s.
       brelse to s)))))
     (\<lambda>_ z. bio_ok z \<and> bio_frame t z \<and> in_use z = {} \<and> blk z = (blk t)(log_block s i := blk t (?f i))
        \<and> disk z = (disk t)(unat (log_block s i) := blk t (?f i))
        \<and> dhist z = dhist t @ [(unat (log_block s i), blk t (?f i))] \<and> pins z = pins t - {log_block s i})"
    using wf lgt(1)
    by (simp add: log_block_def log_wf_def) (erule returns_mono, simp add: set_data_put bdata_def)
qed

section \<open>The header block\<close>

definition head_bytes :: "u32 \<Rightarrow> (nat \<Rightarrow> u32) \<Rightarrow> bytes \<Rightarrow> bytes" where
  "head_bytes n f d = for_range 0 (nat (sint n)) (\<lambda>i d. put32 d (4 + 4 * i) (f i)) (put32 d 0 n)"

lemma head_fill_get:
  "get32 (for_range a k (\<lambda>i d. put32 d (4 + 4 * i) (f i)) d) 0 = get32 d 0"
  "get32 (for_range a k (\<lambda>i d. put32 d (4 + 4 * i) (f i)) d) (4 + 4 * j)
    = (if a \<le> j \<and> j < a + k then f j else get32 d (4 + 4 * j))"
proof (induction k arbitrary: a d)
  case (Suc k)
  {
    case 1
    show ?case using Suc(1) [of "Suc a"] by (simp add: get32_put32_other)
  next
    case 2
    have "get32 (put32 d (4 + 4 * a) (f a)) (4 + 4 * j) = (if a = j then f a else get32 d (4 + 4 * j))"
      using get32_word_index [of d "Suc a" "f a" "Suc j"] by simp
    then show ?case using Suc(2) [of "Suc a"] by auto
  }
qed auto

lemma head_bytes_get:
  assumes "k < 2 ^ 31"
  shows "get32 (head_bytes (of_nat k) f d) 0 = of_nat k"
    "i < k \<Longrightarrow> get32 (head_bytes (of_nat k) f d) (4 + 4 * i) = f i"
proof -
  have u: "unat (of_nat k :: u32) = k" using unat_of_nat32 assms by simp
  have "sint (of_nat k :: u32) = int k" using sint_small [of "of_nat k"] assms unfolding u by simp
  then show "get32 (head_bytes (of_nat k) f d) 0 = of_nat k"
    "i < k \<Longrightarrow> get32 (head_bytes (of_nat k) f d) (4 + 4 * i) = f i"
    by (simp_all add: head_bytes_def head_fill_get)
qed

lemma set_data_simps [simp]:
  "set_data b x (set_data b y s) = set_data b x s" "lg (set_data b x s) = lg s"
  "b_data (bufs (set_data b x s) b) = x"
  by (simp_all add: set_data_def upd_buf_def)

lemma set_data_same [simp]: "set_data b (b_data (bufs s b)) s = s"
  by (simp add: set_data_def upd_buf_def)

lemma head_loop:
  "a + k \<le> LOGSIZE \<Longrightarrow>
    for_rangeK a k (\<lambda>i s. if i < LOGSIZE
      then Ret () (set_data b (put32 (b_data (bufs s b)) (4 + 4 * i) (lh_block (lg_lh (lg s)) i)) s)
      else Undef ''lh.block[LOGSIZE]'') s
    = Ret () (set_data b (for_range a k (\<lambda>i d. put32 d (4 + 4 * i) (lh_block (lg_lh (lg s)) i)) (b_data (bufs s b))) s)"
  by (induction k arbitrary: a s) simp_all

lemma write_head_ok:
  fixes s :: "'z lst_scheme"
  assumes s: "bio_ok s" "in_use s = {}" "card (pins s) < NBUF" and wf: "log_wf s" and k: "lh_count s \<le> LOGSIZE"
  shows "returns (write_head s) (\<lambda>_ t. bio_ok t \<and> bio_frame s t \<and> in_use t = {}
    \<and> blk t = (blk s)(lg_start (lg s) := head_bytes (lh_n (lg_lh (lg s))) (lh_block (lg_lh (lg s))) (blk s (lg_start (lg s))))
    \<and> disk t = (disk s)(unat (lg_start (lg s)) :=
         head_bytes (lh_n (lg_lh (lg s))) (lh_block (lg_lh (lg s))) (blk s (lg_start (lg s))))
    \<and> dhist t = dhist s @ [(unat (lg_start (lg s)),
         head_bytes (lh_n (lg_lh (lg s))) (lh_block (lg_lh (lg s))) (blk s (lg_start (lg s))))]
    \<and> pins t = pins s - {lg_start (lg s)})"
proof -
  let ?n = "lh_n (lg_lh (lg s))" and ?f = "lh_block (lg_lh (lg s))" and ?b = "lg_start (lg s)"
  have n: "?b < disksize s" using wf by (simp add: log_wf_def word_less_nat_alt)
  have "?b \<notin> blockno s ` in_use s" "card (in_use s) + card (pins s) < NBUF" using s by auto
  from bread_spec [OF s(1) n this]
  have "returns (bread 1 ?b s) (\<lambda>_ u. lg u = lg s)"
    by (rule returns_mono) (use bio_frame_lg in metis)
  note R = returns_conj [OF this bc.edit_block [OF s(1,2) n s(3), of "head_bytes ?n ?f", unfolded returns_bindK]]
  have loop: "for_rangeK 0 (lh_count (set_data b x t)) (\<lambda>i s. if i < LOGSIZE
      then Ret () (set_data b (put32 (b_data (bufs s b)) (4 + 4 * i) (lh_block (lg_lh (lg s)) i)) s)
      else Undef ''lh.block[LOGSIZE]'') (set_data b (put32 (b_data (bufs t b)) 0 ?n) t)
    = Ret () (put_data b (head_bytes ?n ?f (bdata t b)) t)" if "lg t = lg s" for b x and t :: "'z lst_scheme"
    using k that by (subst head_loop) (simp_all add: lh_count_def head_bytes_def bdata_def flip: set_data_put)
  show ?thesis
    using wf R by (simp add: write_head_def log_wf_def Let_def) (erule returns_mono, simp add: loop)
qed

section \<open>Reading the header\<close>

lemma upd_lh_sel [simp]:
  "bufs (upd_lh f s) = bufs s" "disk (upd_lh f s) = disk s" "dhist (upd_lh f s) = dhist s"
  "disksize (upd_lh f s) = disksize s" "held (upd_lh f s) = held s" "cur (upd_lh f s) = cur s"
  "sleeplocks (upd_lh f s) = sleeplocks s" "ptable (upd_lh f s) = ptable s"
  "lg (upd_lh f s) = (lg s)\<lparr>lg_lh := f (lg_lh (lg s))\<rparr>"
  by (simp_all add: upd_lh_def upd_lg_def)

lemma upd_lh_bio [simp]:
  "bio_ok (upd_lh f s) = bio_ok s" "in_use (upd_lh f s) = in_use s" "pins (upd_lh f s) = pins s"
  "blk (upd_lh f s) = blk s" "blockno (upd_lh f s) = blockno s" "bdata (upd_lh f s) = bdata s"
  by (simp_all add: bio_ok_def buf_ok_def caches_def in_use_def pins_def pinned_def blk_def [abs_def] blockno_def
      bdata_def owned_sleep_def fun_eq_iff split: option.split)

lemma upd_lh_twice: "upd_lh f (upd_lh g s) = upd_lh (\<lambda>x. f (g x)) s"
  by (simp add: upd_lh_def upd_lg_def)

lemma upd_lh_cong: "f (lg_lh (lg s)) = g (lg_lh (lg s)) \<Longrightarrow> upd_lh f s = upd_lh g s"
  by (simp add: upd_lh_def upd_lg_def)

text \<open>The header that \<open>read_head\<close> builds from the bytes of the header block.\<close>

definition read_header :: "bytes \<Rightarrow> logheader \<Rightarrow> logheader" where
  "read_header d h = \<lparr>lh_n = get32 d 0,
     lh_block = (\<lambda>i. if i < nat (sint (get32 d 0)) then get32 d (4 + 4 * i) else lh_block h i)\<rparr>"

lemma read_loop:
  "a + k \<le> LOGSIZE \<Longrightarrow>
    for_rangeK a k (\<lambda>i s. if i < LOGSIZE
      then Ret () (upd_lh (lh_block_update (\<lambda>f. f(i := get32 (b_data (bufs s b)) (4 + 4 * i)))) s)
      else Undef ''lh.block[LOGSIZE]'') s
    = Ret () (upd_lh (lh_block_update (\<lambda>f i. if a \<le> i \<and> i < a + k then get32 (b_data (bufs s b)) (4 + 4 * i) else f i)) s)"
proof (induction k arbitrary: a s)
  case 0
  have "upd_lh (lh_block_update (\<lambda>f i. if a \<le> i \<and> i < a then g i else f i)) s = s" for g
    by (simp add: upd_lh_def upd_lg_def not_le [symmetric])
  then show ?case by simp
next
  case (Suc k)
  let ?g = "\<lambda>i. get32 (b_data (bufs s b)) (4 + 4 * i)"
  have "(\<lambda>i. if Suc a \<le> i \<and> i < Suc a + k then ?g i else (f(a := ?g a)) i)
      = (\<lambda>i. if a \<le> i \<and> i < a + Suc k then ?g i else f i)" for f
    by (rule ext) auto
  then show ?case using Suc by (simp add: upd_lh_twice o_def del: fun_upd_apply cong: if_cong)
qed

lemma read_head_ok:
  fixes s :: "'z lst_scheme"
  assumes s: "bio_ok s" "in_use s = {}" "card (pins s) < NBUF" and wf: "log_wf s"
    and k: "nat (sint (get32 (blk s (lg_start (lg s))) 0)) \<le> LOGSIZE"
  shows "returns (read_head s) (\<lambda>_ t. bio_ok t \<and> in_use t = {} \<and> pins t = pins s \<and> blk t = blk s
    \<and> disk t = disk s \<and> dhist t = dhist s \<and> disksize t = disksize s
    \<and> lg t = (lg s)\<lparr>lg_lh := read_header (blk s (lg_start (lg s))) (lg_lh (lg s))\<rparr>)"
proof -
  let ?b = "lg_start (lg s)"
  have n: "?b < disksize s" using wf by (simp add: log_wf_def word_less_nat_alt)
  have "?b \<notin> blockno s ` in_use s" "card (in_use s) + card (pins s) < NBUF" using s by auto
  note R = bread_spec [OF s(1) n this]
  have tail: "returns (brelse b (upd_lh f t)) (\<lambda>_ u. bio_ok u \<and> in_use u = {} \<and> pins u = pins s \<and> blk u = blk s
    \<and> disk u = disk s \<and> dhist u = dhist s \<and> disksize u = disksize s \<and> lg u = (lg s)\<lparr>lg_lh := f (lg_lh (lg s))\<rparr>)"
    if t: "bio_ok t" "bio_frame s t" "in_use t = {b}" "pins t = pins s" "blk t = blk s" "disk t = disk s"
      "dhist t = dhist s" "blockno t b = ?b" for b f and t :: "'z lst_scheme"
  proof -
    have "bdata t b = blk s ?b" using blk_held [of t b ?b] t by (simp add: bdata_def blockno_def)
    then have "blockno t b \<in> pins t \<or> bdata t b = disk t (unat (blockno t b))"
      using not_pinned_clean [OF s(1), of ?b] s(2) t by auto
    then have "returns (brelse b (upd_lh f t)) (\<lambda>_ u. bio_ok u \<and> bio_frame (upd_lh f t) u
      \<and> in_use u = in_use t - {b} \<and> pins u = pins t \<and> blk u = blk t \<and> disk u = disk t \<and> dhist u = dhist t
      \<and> blockno u = blockno t)"
      using brelse_spec [of "upd_lh f t" b] t by simp
    moreover have "lg t = lg s" "disksize t = disksize s" using bio_frame_lg [OF t(2)] bio_frame_sel(3) [OF t(2)] .
    ultimately show ?thesis
      by (elim returns_mono) (use t in \<open>auto dest: bio_frame_lg bio_frame_sel(3)\<close>)
  qed
  have fill: "for_rangeK 0 (lh_count (upd_lh (lh_n_update (\<lambda>_. get32 (b_data (bufs t b)) 0)) t)) (\<lambda>i s. if i < LOGSIZE
      then Ret () (upd_lh (lh_block_update (\<lambda>f. f(i := get32 (b_data (bufs s b)) (4 + 4 * i)))) s)
      else Undef ''lh.block[LOGSIZE]'') (upd_lh (lh_n_update (\<lambda>_. get32 (b_data (bufs t b)) 0)) t)
    = Ret () (upd_lh (read_header (blk s ?b)) t)" if "b_data (bufs t b) = blk s ?b" for b and t :: "'z lst_scheme"
    using k that by (subst read_loop)
      (auto simp: lh_count_def upd_lh_twice read_header_def cong: if_cong intro!: upd_lh_cong logheader.equality)
  have dat: "b_data (bufs t b) = blk s ?b" if "bio_ok t" "in_use t = {b}" "blk t = blk s" "blockno t b = ?b" for b t
    using blk_held [of t b ?b] that by (simp add: blockno_def)
  show ?thesis
    using wf R unfolding read_head_def returns_bindK
    by (simp add: log_wf_def Let_def s(2)) (erule returns_mono, simp add: fill [OF dat] tail)
qed

section \<open>The writes of \<open>commit\<close>\<close>

text \<open>
  The writes in their order, for a transaction that puts content \<open>x i\<close> into block \<open>f i\<close>: log blocks,
  header, home blocks, cleared header. \<open>b\<close> is the first block of the log and \<open>h\<close> its content before.
\<close>

definition commit_writes :: "u32 \<Rightarrow> nat \<Rightarrow> (nat \<Rightarrow> u32) \<Rightarrow> (nat \<Rightarrow> bytes) \<Rightarrow> bytes \<Rightarrow> (nat \<times> bytes) list" where
  "commit_writes b k f x h =
     map (\<lambda>i. (unat b + i + 1, x i)) [0..<k] @ [(unat b, head_bytes (of_nat k) f h)]
     @ map (\<lambda>i. (unat (f i), x i)) [0..<k] @ [(unat b, put32 (head_bytes (of_nat k) f h) 0 0)]"

text \<open>The state in which \<open>commit\<close> starts: the pinned buffers are those of the logged blocks.\<close>

definition txn_ok :: "'z lst_scheme \<Rightarrow> bool" where
  "txn_ok s \<longleftrightarrow> bio_ok s \<and> in_use s = {} \<and> log_wf s \<and> 0 < sint (lh_n (lg_lh (lg s)))
     \<and> Suc (lh_count s) < NBUF \<and> entries_ok s (lh_count s) (lh_block (lg_lh (lg s)))
     \<and> pins s = lh_block (lg_lh (lg s)) ` {..<lh_count s}"

lemma head_bytes_0 [simp]: "head_bytes 0 f d = put32 d 0 0"
  by (simp add: head_bytes_def)

lemma sint_of_nat32: "k < 2 ^ 31 \<Longrightarrow> sint (of_nat k :: u32) = int k"
  using sint_small [of "of_nat k"] unat_of_nat32 [of k] by simp

lemma log_wf_cong:
  "lg_dev (lg t) = lg_dev (lg s) \<Longrightarrow> lg_start (lg t) = lg_start (lg s) \<Longrightarrow> lg_size (lg t) = lg_size (lg s) \<Longrightarrow> disksize t = disksize s \<Longrightarrow>
    log_wf t = log_wf s \<and> entries_ok t = entries_ok s \<and> log_block t = log_block s \<and> log_area t = log_area s"
  by (simp add: log_wf_def entries_ok_def log_block_def log_area_def log_cap_def fun_eq_iff)

lemma copied_view:
  assumes "\<And>i. i < k \<Longrightarrow> unat (dst i) \<noteq> unat n"
  shows "apply_view v (copied src dst k u) n = v n"
  using assms by (intro apply_view_other) (fastforce simp: copied_def)

lemma copied_view_at:
  assumes "inj_on dst {..<k}" "i < k"
  shows "apply_view v (copied src dst k u) (dst i) = u (src i)"
  using assms
proof (induction k)
  case (Suc k)
  have "inj_on dst {..<k}" using Suc.prems(1) by (rule inj_on_subset) auto
  moreover have "dst i \<noteq> dst k" if "i < k" using Suc.prems that by (auto simp: inj_on_def)
  ultimately show ?case using Suc by (auto simp: copied_Suc less_Suc_eq)
qed simp

text \<open>
  The state \<open>t\<close> after the writes \<open>ws\<close> of a transaction that started in \<open>s\<close>: the blocks have the contents
  \<open>v\<close> and at most the blocks \<open>p\<close> are still pinned.
\<close>

definition at_step :: "'z lst_scheme \<Rightarrow> u32 set \<Rightarrow> (u32 \<Rightarrow> bytes) \<Rightarrow> (nat \<times> bytes) list \<Rightarrow> 'z lst_scheme \<Rightarrow> bool" where
  "at_step s p v ws t \<longleftrightarrow> bio_ok t \<and> in_use t = {} \<and> lg t = lg s \<and> disksize t = disksize s \<and> pins t \<subseteq> p
     \<and> blk t = v \<and> disk t = apply_writes (disk s) ws \<and> dhist t = dhist s @ ws"

lemma at_step_upd_lh: "at_step s p v ws t \<Longrightarrow> at_step (upd_lh g s) p v ws (upd_lh g t)"
  by (simp add: at_step_def)

lemma at_stepD:
  assumes "at_step s p v ws t" "finite p"
  shows "card (pins t) \<le> card p" "log_wf t = log_wf s" "entries_ok t = entries_ok s" "log_block t = log_block s"
    "lh_count t = lh_count s"
  using assms log_wf_cong [of t s] by (auto simp: at_step_def lh_count_def intro: card_mono)

lemma write_log_step:
  assumes t: "at_step s p v ws t" and p: "finite p" "Suc (card p) < NBUF" and wf: "log_wf s"
    and e: "entries_ok s (lh_count s) (lh_block (lg_lh (lg s)))"
  defines "w \<equiv> copied (lh_block (lg_lh (lg s))) (log_block s) (lh_count s) v"
  shows "returns (write_log t) (\<lambda>_. at_step s p (apply_view v w) (ws @ w))"
proof -
  note D = at_stepD [OF t p(1)]
  have b: "bio_ok t" "in_use t = {}" "Suc (card (pins t)) < NBUF" "lg t = lg s" using t D(1) p(2) by (auto simp: at_step_def)
  show ?thesis unfolding w_def
    by (rule returns_mono [OF write_log_ok [OF b(1-3)]])
      (use t D wf e b(4) in \<open>auto simp: at_step_def dest: bio_frame_lg bio_frame_sel(3)\<close>)
qed

lemma install_trans_step:
  assumes t: "at_step s p v ws t" and p: "finite p" "Suc (card p) < NBUF" and wf: "log_wf s"
    and e: "entries_ok s (lh_count s) (lh_block (lg_lh (lg s)))"
  defines "w \<equiv> copied (log_block s) (lh_block (lg_lh (lg s))) (lh_count s) v"
  shows "returns (install_trans t)
    (\<lambda>_. at_step s (p - lh_block (lg_lh (lg s)) ` {..<lh_count s}) (apply_view v w) (ws @ w))"
proof -
  note D = at_stepD [OF t p(1)]
  have b: "bio_ok t" "in_use t = {}" "Suc (card (pins t)) < NBUF" "lg t = lg s" using t D(1) p(2) by (auto simp: at_step_def)
  show ?thesis unfolding w_def
    by (rule returns_mono [OF install_trans_ok [OF b(1-3)]])
      (use t D wf e b(4) in \<open>auto simp: at_step_def dest: bio_frame_lg bio_frame_sel(3)\<close>)
qed

lemma write_head_step:
  assumes t: "at_step s p v ws t" and p: "finite p" "card p < NBUF" and wf: "log_wf s" and k: "lh_count s \<le> LOGSIZE"
  defines "b \<equiv> lg_start (lg s)"
  defines "h \<equiv> head_bytes (lh_n (lg_lh (lg s))) (lh_block (lg_lh (lg s))) (v b)"
  shows "returns (write_head t) (\<lambda>_. at_step s p (v(b := h)) (ws @ [(unat b, h)]))"
proof -
  note D = at_stepD [OF t p(1)]
  have b: "bio_ok t" "in_use t = {}" "card (pins t) < NBUF" "lg t = lg s" using t D(1) p(2) by (auto simp: at_step_def)
  show ?thesis unfolding h_def b_def
    by (rule returns_mono [OF write_head_ok [OF b(1-3)]])
      (use t D wf k b(4) in \<open>auto simp: at_step_def dest: bio_frame_lg bio_frame_sel(3)\<close>)
qed

lemma txn_okD:
  assumes "txn_ok s"
  shows "bio_ok s" "in_use s = {}" "log_wf s" "entries_ok s (lh_count s) (lh_block (lg_lh (lg s)))"
    "lh_n (lg_lh (lg s)) = of_nat (lh_count s)" "0 < lh_count s" "Suc (lh_count s) < NBUF"
    "Suc (card (pins s)) < NBUF" "lh_count s \<le> LOGSIZE" "lh_count s \<le> log_cap s"
proof -
  show "bio_ok s" "in_use s = {}" "log_wf s" and e: "entries_ok s (lh_count s) (lh_block (lg_lh (lg s)))"
    and "0 < lh_count s" and k: "Suc (lh_count s) < NBUF" using assms by (auto simp: txn_ok_def lh_count_def)
  show "lh_count s \<le> LOGSIZE" "lh_count s \<le> log_cap s" using e by (simp_all add: entries_ok_def)
  have "card (pins s) \<le> lh_count s"
    using assms card_image_le [of "{..<lh_count s}" "lh_block (lg_lh (lg s))"] by (simp add: txn_ok_def)
  then show "Suc (card (pins s)) < NBUF" using k by simp
  have "of_int (sint (lh_n (lg_lh (lg s)))) = lh_n (lg_lh (lg s))" by simp
  then show "lh_n (lg_lh (lg s)) = of_nat (lh_count s)" using assms
    by (simp add: txn_ok_def lh_count_def of_nat_nat)
qed

lemma commit_contents:
  fixes s :: "'z lst_scheme"
  assumes T: "txn_ok s"
  defines "b \<equiv> lg_start (lg s)" and "k \<equiv> lh_count s" and "f \<equiv> lh_block (lg_lh (lg s))"
  defines "W1 \<equiv> copied f (log_block s) k (blk s)"
  defines "v2 h \<equiv> (apply_view (blk s) W1)(b := h)"
  defines "W2 h \<equiv> copied (log_block s) f k (v2 h)"
  shows "apply_view (blk s) W1 b = disk s (unat b)" "apply_view (v2 h) (W2 h) b = h"
    "W1 = map (\<lambda>i. (unat b + i + 1, blk s (f i))) [0..<k]" "W2 h = map (\<lambda>i. (unat (f i), blk s (f i))) [0..<k]"
proof -
  note D = txn_okD [OF T, folded k_def f_def]
  have bfi: "i < k \<Longrightarrow> unat (f i) \<noteq> unat b" for i
    using D(4) by (auto simp: entries_ok_def log_area_def b_def)
  have lbi: "i < k \<Longrightarrow> unat (log_block s i) \<noteq> unat b" for i
    using log_block_area(2) [OF D(3), of i] D(10) by (auto simp: b_def)
  have "b \<notin> pins s" using T bfi by (auto simp: txn_ok_def k_def f_def)
  then have h: "blk s b = disk s (unat b)" using not_pinned_clean [OF D(1)] D(2) by simp
  show "W1 = map (\<lambda>i. (unat b + i + 1, blk s (f i))) [0..<k]"
    using log_block_no(1) [OF D(3)] D(10) by (auto simp: copied_def b_def W1_def)
  show "apply_view (blk s) W1 b = disk s (unat b)"
    unfolding W1_def using copied_view [of k "log_block s" b] lbi h by metis
  have inj: "inj_on (log_block s) {..<k}" using log_block_inj [OF D(3)] by (rule inj_on_subset) (use D(10) in auto)
  have "v2 h (log_block s i) = blk s (f i)" if "i < k" for i
    using copied_view_at [OF inj that] lbi [OF that] by (auto simp: v2_def W1_def)
  then show "W2 h = map (\<lambda>i. (unat (f i), blk s (f i))) [0..<k]" by (simp add: copied_def W2_def)
  show "apply_view (v2 h) (W2 h) b = h"
    unfolding W2_def using copied_view [of k f b "v2 h" "log_block s" "v2 h"] bfi by (simp add: v2_def)
qed

lemma commit_ok:
  fixes s :: "'z lst_scheme"
  assumes T: "txn_ok s"
  defines "b \<equiv> lg_start (lg s)" and "k \<equiv> lh_count s" and "f \<equiv> lh_block (lg_lh (lg s))"
  defines "ws \<equiv> commit_writes b k f (\<lambda>i. blk s (f i)) (disk s (unat b))"
  shows "returns (commit s) (\<lambda>_ t. bio_ok t \<and> in_use t = {} \<and> pins t = {} \<and> dhist t = dhist s @ ws
    \<and> disk t = apply_writes (disk s) ws \<and> lh_n (lg_lh (lg t)) = 0)"
proof -
  note D = txn_okD [OF T, folded k_def f_def]
  note C = commit_contents [OF T, folded b_def k_def f_def]
  let ?H = "head_bytes (of_nat k) f (disk s (unat b))"
  let ?W1 = "copied f (log_block s) k (blk s)"
  let ?v1 = "apply_view (blk s) ?W1"
  let ?v2 = "?v1(b := ?H)"
  let ?W2 = "copied (log_block s) f k ?v2"
  let ?v3 = "apply_view ?v2 ?W2" and ?u = "upd_lh (lh_n_update (\<lambda>_. 0)) s"
  have fin: "finite (pins s)" "card (pins s - X) < NBUF" "Suc (card (pins s)) < NBUF" for X
    using D(8) card_mono [of "pins s" "pins s - X"] by (auto simp: pins_def pinned_def)
  have 4: "returns (write_head (upd_lh (lh_n_update (\<lambda>_. 0)) t)) (\<lambda>_. at_step ?u (pins s - f ` {..<k})
      (?v3(b := put32 ?H 0 0)) (((?W1 @ [(unat b, ?H)]) @ ?W2) @ [(unat b, put32 ?H 0 0)]))"
    if t: "at_step s (pins s - f ` {..<k}) ?v3 ((?W1 @ [(unat b, ?H)]) @ ?W2) t" for t
    using write_head_step [OF at_step_upd_lh [OF t, of "lh_n_update (\<lambda>_. 0)"]] fin(1,2) log_wf_cong [of ?u s] D(3) C(2)
    by (simp add: lh_count_def head_bytes_0 b_def)
  have 3: "returns (install_trans t) (\<lambda>_. at_step s (pins s - f ` {..<k}) ?v3 ((?W1 @ [(unat b, ?H)]) @ ?W2))"
    if t: "at_step s (pins s) ?v2 (?W1 @ [(unat b, ?H)]) t" for t
    using install_trans_step [OF t fin(1,3) D(3)] D(4) by (simp add: k_def f_def)
  have 2: "returns (write_head t) (\<lambda>_. at_step s (pins s) ?v2 (?W1 @ [(unat b, ?H)]))"
    if t: "at_step s (pins s) ?v1 ?W1 t" for t
    using write_head_step [OF t fin(1) _ D(3)] fin(2) [of "{}"] D(9) C(1) D(5) by (simp add: k_def f_def b_def)
  have 0: "at_step s (pins s) (blk s) [] s" using D(1,2) by (simp add: at_step_def)
  have 1: "returns (write_log s) (\<lambda>_. at_step s (pins s) ?v1 ?W1)"
    using write_log_step [OF 0 fin(1,3) D(3)] D(4) by (simp add: k_def f_def)
  have fst: "0 < sint (lh_n (lg_lh (lg s)))" "pins s - f ` {..<k} = {}" using T by (auto simp: txn_ok_def k_def f_def)
  have "returns (commit s) (\<lambda>_. at_step ?u (pins s - f ` {..<k})
      (?v3(b := put32 ?H 0 0)) (((?W1 @ [(unat b, ?H)]) @ ?W2) @ [(unat b, put32 ?H 0 0)]))"
    unfolding commit_def using fst(1)
    by (simp only: if_True returns_bindK) (rule returns_mono [OF 1], rule returns_mono [OF 2], assumption,
      rule returns_mono [OF 3], assumption, rule 4)
  moreover have "((?W1 @ [(unat b, ?H)]) @ ?W2) @ [(unat b, put32 ?H 0 0)] = ws"
    unfolding ws_def commit_writes_def C(4) unfolding C(3) by simp
  ultimately have "returns (commit s) (\<lambda>_. at_step ?u {} (?v3(b := put32 ?H 0 0)) ws)" using fst(2) by simp
  then show ?thesis by (rule returns_mono) (simp add: at_step_def)
qed

section \<open>Recovery\<close>

text \<open>The writes of \<open>recover_from_log\<close> on a disk \<open>d\<close> whose log starts at block \<open>b\<close>.\<close>

definition recover_writes :: "u32 \<Rightarrow> (nat \<Rightarrow> bytes) \<Rightarrow> (nat \<times> bytes) list" where
  "recover_writes b d =
     (let h = d (unat b)
      in map (\<lambda>i. (unat (get32 h (4 + 4 * i)), d (unat b + i + 1))) [0..<nat (sint (get32 h 0))]
         @ [(unat b, put32 h 0 0)])"

text \<open>A state after a restart on the disk \<open>d\<close>, with nothing in the buffer cache.\<close>

definition booted :: "'z lst_scheme \<Rightarrow> (nat \<Rightarrow> bytes) \<Rightarrow> 'z lst_scheme \<Rightarrow> bool" where
  "booted s d r \<longleftrightarrow> bio_ok r \<and> in_use r = {} \<and> pins r = {} \<and> lg_dev (lg r) = lg_dev (lg s)
     \<and> lg_start (lg r) = lg_start (lg s) \<and> lg_size (lg r) = lg_size (lg s) \<and> disksize r = disksize s \<and> disk r = d"

lemma entries_ok_cong: "(\<And>i. i < k \<Longrightarrow> f i = g i) \<Longrightarrow> entries_ok s k f = entries_ok s k g"
  unfolding entries_ok_def by (metis inj_on_cong lessThan_iff)

lemma recover_ok:
  assumes r: "booted s d r" and wf: "log_wf s"
    and e: "entries_ok s (nat (sint (get32 (d (unat (lg_start (lg s)))) 0)))
      (\<lambda>i. get32 (d (unat (lg_start (lg s)))) (4 + 4 * i))"
  shows "returns (recover_from_log r) (\<lambda>_ t. disk t = apply_writes d (recover_writes (lg_start (lg s)) d)
    \<and> dhist t = dhist r @ recover_writes (lg_start (lg s)) d)"
proof -
  let ?b = "lg_start (lg s)" and ?h = "d (unat (lg_start (lg s)))"
  let ?k = "nat (sint (get32 ?h 0))" and ?f = "\<lambda>i. get32 ?h (4 + 4 * i)"
  have b: "bio_ok r" "in_use r = {}" "pins r = {}" "disk r = d" "lg_start (lg r) = ?b" using r by (auto simp: booted_def)
  have c: "log_wf r" "entries_ok r = entries_ok s" "log_block r = log_block s"
    using log_wf_cong [of r s] r wf by (auto simp: booted_def)
  have v: "blk r n = d (unat n)" for n using not_pinned_clean [OF b(1)] b by simp
  let ?H = "read_header ?h (lg_lh (lg r))"
  let ?r = "upd_lh (\<lambda>_. ?H) r" and ?W = "copied (log_block s) (lh_block ?H) ?k (blk r)"
  have k: "?k \<le> LOGSIZE" "?k \<le> log_cap s" using e by (simp_all add: entries_ok_def)
  have e': "entries_ok s ?k (lh_block ?H)"
    using e entries_ok_cong [of ?k ?f "lh_block ?H" s] by (simp add: read_header_def)
  have cnt: "lh_count ?r = ?k" by (simp add: lh_count_def read_header_def)
  have cr: "log_wf ?r" "entries_ok ?r = entries_ok s" "log_block ?r = log_block s" "log_wf (upd_lh (lh_n_update (\<lambda>_. 0)) ?r)"
    using log_wf_cong [of ?r r] log_wf_cong [of "upd_lh (lh_n_update (\<lambda>_. 0)) ?r" r] c by auto
  have 1: "returns (read_head r) (\<lambda>_. at_step ?r {} (blk r) [])"
    by (rule returns_mono [OF read_head_ok [OF b(1,2) _ c(1)]]) (use b k v in \<open>simp_all add: at_step_def NBUF_def\<close>)
  have 2: "returns (install_trans t) (\<lambda>_. at_step ?r {} (apply_view (blk r) ?W) ?W)"
    if "at_step ?r {} (blk r) [] t" for t
    using install_trans_step [OF that _ _ cr(1)] e' cr cnt by (simp add: NBUF_def)
  have 3: "returns (write_head (upd_lh (lh_n_update (\<lambda>_. 0)) t))
      (\<lambda>_ u. disk u = apply_writes d (?W @ [(unat ?b, put32 (apply_view (blk r) ?W ?b) 0 0)])
         \<and> dhist u = dhist r @ ?W @ [(unat ?b, put32 (apply_view (blk r) ?W ?b) 0 0)])"
    if "at_step ?r {} (apply_view (blk r) ?W) ?W t" for t
    by (rule returns_mono [OF write_head_step [OF at_step_upd_lh [OF that, of "lh_n_update (\<lambda>_. 0)"] _ _ cr(4)]])
      (use b in \<open>simp_all add: at_step_def lh_count_def NBUF_def\<close>)
  have 4: "?W @ [(unat ?b, put32 (apply_view (blk r) ?W ?b) 0 0)] = recover_writes ?b d"
  proof -
    have "apply_view (blk r) ?W ?b = ?h"
      using copied_view [of ?k "lh_block ?H" ?b] e' v by (fastforce simp: entries_ok_def log_area_def)
    moreover have "?W = map (\<lambda>i. (unat (?f i), d (unat ?b + i + 1))) [0..<?k]"
      using log_block_no(1) [OF wf] k v by (auto simp: copied_def read_header_def)
    ultimately show ?thesis by (simp add: recover_writes_def Let_def)
  qed
  show ?thesis unfolding recover_from_log_def returns_bindK 4 [symmetric]
    by (rule returns_mono [OF 1], rule returns_mono [OF 2], assumption, rule 3)
qed

section \<open>Crashes\<close>

text \<open>
  \<open>crashed s m d\<close>: \<open>d\<close> is a disk left by a crash of the \<open>commit\<close> that starts in \<open>s\<close> after \<open>m\<close> of its
  block writes, followed by any number of restarts whose recovery crashed as well.
\<close>

inductive crashed :: "'z lst_scheme \<Rightarrow> nat \<Rightarrow> (nat \<Rightarrow> bytes) \<Rightarrow> bool" for s where
  in_commit: "commit s = Ret () t \<Longrightarrow> dhist t = dhist s @ ws \<Longrightarrow>
    crashed s m (apply_writes (disk s) (take m ws))"
| in_recovery: "crashed s m d \<Longrightarrow> booted s d r \<Longrightarrow> recover_from_log r = Ret () u \<Longrightarrow> dhist u = dhist r @ ws \<Longrightarrow>
    crashed s m (apply_writes d (take j ws))"

text \<open>The content of a block after recovery from a crash behind write \<open>m\<close>.\<close>

definition outcome_at :: "'z lst_scheme \<Rightarrow> nat \<Rightarrow> u32 \<Rightarrow> bytes" where
  "outcome_at s m n = (if lh_count s < m then blk s n else disk s (unat n))"

definition recoverable :: "'z lst_scheme \<Rightarrow> nat \<Rightarrow> (nat \<Rightarrow> bytes) \<Rightarrow> bool" where
  "recoverable s m d \<longleftrightarrow>
     (let b = unat (lg_start (lg s)); k = lh_count s; f = lh_block (lg_lh (lg s))
      in get32 (d b) 0 = 0 \<and> (\<forall>n. unat n \<notin> log_area s \<longrightarrow> d (unat n) = outcome_at s m n)
       \<or> k < m \<and> get32 (d b) 0 = of_nat k
         \<and> (\<forall>i < k. get32 (d b) (4 + 4 * i) = f i \<and> d (b + i + 1) = blk s (f i))
         \<and> (\<forall>n. unat n \<notin> log_area s \<longrightarrow> n \<notin> f ` {..<k} \<longrightarrow> d (unat n) = disk s (unat n)))"

lemma apply_writes_covered: "n \<in> fst ` set ws \<Longrightarrow> apply_writes d ws n = apply_writes e ws n"
  by (induction ws rule: rev_induct) (auto, force)

lemma apply_writes_take_other: "n \<notin> fst ` set ws \<Longrightarrow> apply_writes d (take m ws) n = d n"
  by (rule apply_writes_other) (auto dest: in_set_takeD)

lemma txn_unlogged:
  assumes "txn_ok s" "n \<notin> lh_block (lg_lh (lg s)) ` {..<lh_count s}"
  shows "blk s n = disk s (unat n)"
  using not_pinned_clean [of s n] assms by (simp add: txn_ok_def)

text \<open>The home blocks after the second half of the writes.\<close>

lemma installed_home:
  assumes T: "txn_ok s"
  defines "k \<equiv> lh_count s" and "f \<equiv> lh_block (lg_lh (lg s))"
  assumes d: "n \<notin> f ` {..<k} \<Longrightarrow> d (unat n) = disk s (unat n)"
  shows "apply_writes d (map (\<lambda>i. (unat (f i), blk s (f i))) [0..<k]) (unat n) = blk s n"
proof (cases "n \<in> f ` {..<k}")
  case True
  then obtain i where i: "i < k" "n = f i" by auto
  have "inj_on f {..<k}" using txn_okD(4) [OF T] by (simp add: entries_ok_def k_def f_def)
  then have "inj_on (\<lambda>i. unat (f i)) {..<k}" by (auto simp: inj_on_def word_unat_eq_iff)
  from apply_writes_at [OF i(1) this, of d "\<lambda>i. blk s (f i)"] show ?thesis using i by simp
next
  case False
  then have "apply_writes d (map (\<lambda>i. (unat (f i), blk s (f i))) [0..<k]) (unat n) = d (unat n)"
    by (intro apply_writes_other) (auto simp flip: word_unat_eq_iff)
  then show ?thesis using d [OF False] txn_unlogged [OF T, folded k_def f_def, OF False] by simp
qed

lemma take_append_cases:
  obtains "m \<le> length xs" "take m (xs @ ys) = take m xs"
  | "length xs < m" "take m (xs @ ys) = xs @ take (m - length xs) ys"
  by (cases "m \<le> length xs") auto

lemma txn_places:
  assumes T: "txn_ok s" and i: "i < lh_count s"
  defines "b \<equiv> unat (lg_start (lg s))" and "f \<equiv> lh_block (lg_lh (lg s))"
  shows "unat (f i) \<noteq> b" "unat (f i) \<noteq> Suc (b + j) \<or> lh_count s \<le> j" "b \<in> log_area s"
    "Suc (b + i) \<in> log_area s" "unat (f i) \<notin> log_area s"
proof -
  show a: "unat (f i) \<notin> log_area s" and b: "b \<in> log_area s"
    using txn_okD(4) [OF T] i by (auto simp: entries_ok_def f_def log_area_def b_def)
  have area: "Suc (b + j) \<in> log_area s" if "j < lh_count s" for j
    using txn_okD(10) [OF T] that by (simp add: log_area_def b_def)
  show "Suc (b + i) \<in> log_area s" using area [OF i] .
  show "unat (f i) \<noteq> b" using a b by auto
  show "unat (f i) \<noteq> Suc (b + j) \<or> lh_count s \<le> j" using a area [of j] by (cases "j < lh_count s") auto
qed

text \<open>What a half-done installation leaves: the header and the log blocks are untouched.\<close>

lemma recoverable_installing:
  assumes T: "txn_ok s" and m: "lh_count s < m"
  defines "b \<equiv> unat (lg_start (lg s))" and "k \<equiv> lh_count s" and "f \<equiv> lh_block (lg_lh (lg s))"
  assumes h: "get32 (d b) 0 = of_nat k" "\<forall>i < k. get32 (d b) (4 + 4 * i) = f i \<and> d (b + i + 1) = blk s (f i)"
    and d: "\<forall>n. unat n \<notin> log_area s \<longrightarrow> n \<notin> f ` {..<k} \<longrightarrow> d (unat n) = disk s (unat n)"
    and x: "get32 x 0 = 0"
  shows "recoverable s m (apply_writes d (take j (map (\<lambda>i. (unat (f i), blk s (f i))) [0..<k] @ [(b, x)])))"
proof -
  note P = txn_places [OF T, folded b_def k_def f_def]
  let ?W = "map (\<lambda>i. (unat (f i), blk s (f i))) [0..<k]"
  consider "take j (?W @ [(b, x)]) = take j ?W" | "take j (?W @ [(b, x)]) = ?W @ [(b, x)]"
    by (cases "j \<le> k") (auto simp: Suc_diff_le)
  then show ?thesis
  proof cases
    case 1
    let ?e = "apply_writes d (take j ?W)"
    have "?e b = d b" using P(1) by (intro apply_writes_take_other) fastforce
    moreover have "?e (b + i + 1) = d (b + i + 1)" if "i < k" for i
      using P(2) [where j = i] that by (intro apply_writes_take_other) fastforce
    moreover have "?e (unat n) = d (unat n)" if "n \<notin> f ` {..<k}" for n
      using that by (intro apply_writes_take_other) (auto simp flip: word_unat_eq_iff)
    ultimately have "recoverable s m ?e"
      unfolding recoverable_def Let_def k_def [symmetric] f_def [symmetric] b_def [symmetric] using m h d
      by (intro disjI2) (simp add: k_def)
    then show ?thesis using 1 by simp
  next
    case 2
    have "apply_writes d ?W (unat n) = blk s n" if "unat n \<notin> log_area s" for n
      using installed_home [OF T, folded k_def f_def, of n d] d that by blast
    moreover have "b \<in> log_area s" by (auto simp: log_area_def b_def)
    ultimately have "recoverable s m (apply_writes d (?W @ [(b, x)]))"
      unfolding recoverable_def Let_def b_def [symmetric] using m x
      by (intro disjI1) (auto simp: outcome_at_def)
    then show ?thesis using 2 by simp
  qed
qed

lemma recoverable_start:
  assumes T: "txn_ok s" and h0: "get32 (disk s (unat (lg_start (lg s)))) 0 = 0"
  defines "k \<equiv> lh_count s" and "f \<equiv> lh_block (lg_lh (lg s))"
  defines "ws \<equiv> commit_writes (lg_start (lg s)) k f (\<lambda>i. blk s (f i)) (disk s (unat (lg_start (lg s))))"
  shows "recoverable s m (apply_writes (disk s) (take m ws))"
proof -
  let ?b = "unat (lg_start (lg s))"
  note P = txn_places [OF T, folded k_def f_def]
  let ?W1 = "map (\<lambda>i. (?b + i + 1, blk s (f i))) [0..<k]" and ?H = "head_bytes (of_nat k) f (disk s ?b)"
  let ?W2 = "map (\<lambda>i. (unat (f i), blk s (f i))) [0..<k] @ [(?b, put32 ?H 0 0)]"
  have area: "fst ` set (?W1 @ [(?b, ?H)]) \<subseteq> log_area s" using txn_okD(10) [OF T] by (auto simp: log_area_def k_def)
  show ?thesis
  proof (cases "m \<le> k")
    case True
    then have tk: "take m ws = take m ?W1" by (simp add: ws_def commit_writes_def)
    have "apply_writes (disk s) (take m ?W1) n = disk s n" if "n \<notin> log_area s \<or> n = ?b" for n
      using that area by (intro apply_writes_take_other) auto
    then show ?thesis using True h0
      unfolding tk recoverable_def Let_def outcome_at_def k_def by (intro disjI1) simp
  next
    case False
    let ?d = "apply_writes (disk s) (?W1 @ [(?b, ?H)])"
    have tk: "take m ws = (?W1 @ [(?b, ?H)]) @ take (m - k - 1) ?W2"
      using False by (simp add: ws_def commit_writes_def take_Cons')
    have k: "k < 2 ^ 31" using txn_okD(9) [OF T] by (simp add: k_def LOGSIZE_def MAXOPBLOCKS_def)
    have "?d (?b + i + 1) = blk s (f i)" if "i < k" for i
      using apply_writes_at [of i k "\<lambda>i. ?b + i + 1" "disk s" "\<lambda>i. blk s (f i)"] that by (simp add: inj_on_def)
    moreover have "?d n = disk s n" if "n \<notin> log_area s" for n
      using area that by (intro apply_writes_other) blast
    ultimately have "recoverable s m (apply_writes ?d (take (m - k - 1) ?W2))"
      using False head_bytes_get [OF k, where f = f and d = "disk s ?b"]
      by (intro recoverable_installing [OF T, folded k_def f_def]) auto
    then show ?thesis unfolding tk by (simp only: apply_writes_simps)
  qed
qed

lemma recoverable_step:
  assumes T: "txn_ok s" and d: "recoverable s m d"
  shows "recoverable s m (apply_writes d (take j (recover_writes (lg_start (lg s)) d)))"
    "entries_ok s (nat (sint (get32 (d (unat (lg_start (lg s)))) 0)))
      (\<lambda>i. get32 (d (unat (lg_start (lg s)))) (4 + 4 * i))"
proof -
  let ?b = "unat (lg_start (lg s))" and ?k = "lh_count s" and ?f = "lh_block (lg_lh (lg s))"
  have "recoverable s m (apply_writes d (take j (recover_writes (lg_start (lg s)) d)))
     \<and> entries_ok s (nat (sint (get32 (d ?b) 0))) (\<lambda>i. get32 (d ?b) (4 + 4 * i))"
  proof (cases "get32 (d ?b) 0 = 0 \<and> (\<forall>n. unat n \<notin> log_area s \<longrightarrow> d (unat n) = outcome_at s m n)")
    case True
    then have "recover_writes (lg_start (lg s)) d = [(?b, put32 (d ?b) 0 0)]" by (simp add: recover_writes_def Let_def)
    moreover have "?b \<in> log_area s" by (simp add: log_area_def)
    ultimately show ?thesis using True by (auto simp: recoverable_def Let_def take_Cons' entries_ok_def)
  next
    case False
    then have D: "?k < m" "get32 (d ?b) 0 = of_nat ?k"
      "\<forall>i < ?k. get32 (d ?b) (4 + 4 * i) = ?f i \<and> d (?b + i + 1) = blk s (?f i)"
      "\<forall>n. unat n \<notin> log_area s \<longrightarrow> n \<notin> ?f ` {..<?k} \<longrightarrow> d (unat n) = disk s (unat n)"
      using d by (auto simp: recoverable_def Let_def)
    have "sint (of_nat ?k :: u32) = int ?k" using txn_okD(9) [OF T] by (intro sint_of_nat32) (simp add: LOGSIZE_def MAXOPBLOCKS_def)
    then have k: "nat (sint (get32 (d ?b) 0)) = ?k" using D(2) by simp
    have "recover_writes (lg_start (lg s)) d = map (\<lambda>i. (unat (?f i), blk s (?f i))) [0..<?k] @ [(?b, put32 (d ?b) 0 0)]"
      using D(3) by (simp add: recover_writes_def Let_def k)
    moreover have "entries_ok s ?k (\<lambda>i. get32 (d ?b) (4 + 4 * i))"
      using txn_okD(4) [OF T] D(3) entries_ok_cong [of ?k ?f "\<lambda>i. get32 (d ?b) (4 + 4 * i)" s] by simp
    ultimately show ?thesis using recoverable_installing [OF T D] k by simp
  qed
  then show "recoverable s m (apply_writes d (take j (recover_writes (lg_start (lg s)) d)))"
    "entries_ok s (nat (sint (get32 (d ?b) 0))) (\<lambda>i. get32 (d ?b) (4 + 4 * i))" by blast+
qed

lemma crashed_recoverable:
  assumes "crashed s m d" and T: "txn_ok s" and h0: "get32 (disk s (unat (lg_start (lg s)))) 0 = 0"
  shows "recoverable s m d"
  using assms(1)
proof (induction rule: crashed.induct)
  case (in_commit t ws m)
  then show ?case using commit_ok [OF T] recoverable_start [OF T h0, of m] by (simp add: returns_iff)
next
  case (in_recovery m d r u ws j)
  then show ?case
    using recover_ok [OF in_recovery.hyps(2) txn_okD(3) [OF T] recoverable_step(2) [OF T in_recovery.IH]]
      recoverable_step(1) [OF T in_recovery.IH, of j]
    by (simp add: returns_iff)
qed

text \<open>C19. Crash safety of the log: a transaction is about to commit, the log on the disk is empty, and the
  machine crashes after any number \<open>m\<close> of the block writes of \<open>commit\<close>; recoveries may crash as well, any
  number of times. Then \<open>recover_from_log\<close> returns and every block outside the log area has the content of
  the transaction if the header block was written (write number \<open>lh.n + 1\<close>), and its old content if not:
  never some of the blocks of the transaction without the others.\<close>

theorem crash_atomic:
  assumes "txn_ok s" "get32 (disk s (unat (lg_start (lg s)))) 0 = 0" "crashed s m d" "booted s d r"
  shows "returns (recover_from_log r) (\<lambda>_ t. \<forall>n. unat n \<notin> log_area s \<longrightarrow>
    disk t (unat n) = (if lh_count s < m then blk s n else disk s (unat n)))"
proof -
  let ?ws = "recover_writes (lg_start (lg s)) d"
  note R = crashed_recoverable [OF assms(3,1,2)]
  have "recoverable s m (apply_writes d ?ws)" using recoverable_step(1) [OF assms(1) R, of "length ?ws"] by simp
  moreover have "get32 (apply_writes d ?ws (unat (lg_start (lg s)))) 0 = 0" by (simp add: recover_writes_def Let_def)
  moreover have "(of_nat (lh_count s) :: u32) \<noteq> 0"
    using txn_okD(6,9) [OF assms(1)] unat_of_nat32 [of "lh_count s"] by (auto simp: LOGSIZE_def MAXOPBLOCKS_def)
  ultimately have "\<forall>n. unat n \<notin> log_area s \<longrightarrow> apply_writes d ?ws (unat n) = outcome_at s m n"
    by (auto simp: recoverable_def Let_def)
  with recover_ok [OF assms(4) txn_okD(3) [OF assms(1)] recoverable_step(2) [OF assms(1) R]] show ?thesis
    by (elim returns_mono) (simp add: outcome_at_def)
qed

text \<open>A cache of thirty free buffers, and one of a process that has logged block 100.\<close>

definition free_bufs :: "nat \<Rightarrow> buf" where
  "free_bufs i = \<lparr>b_flags = 0, b_dev = 0, b_blockno = 0, b_refcnt = 0, b_prev = (i + NBUF) mod Suc NBUF,
     b_next = Suc i mod Suc NBUF, b_qnext = None, b_data = (\<lambda>_. 0)\<rparr>"

definition boot_lst :: lst where
  "boot_lst = pst.extend (boot_pst\<lparr>ptable := (\<lambda>_. no_proc)(0 := no_proc\<lparr>p_state := RUNNING, p_pid := 1\<rparr>), cur := Some 0\<rparr>)
     \<lparr>sleeplocks = (\<lambda>_. \<lparr>sl_locked = 0, sl_pid = 0\<rparr>), bufs = free_bufs, disk = (\<lambda>_ _. 0), disksize = 1000, dhist = [],
      lg = \<lparr>lg_start = 2, lg_size = 30, lg_outstanding = 0, lg_committing = 1, lg_dev = 1,
        lg_lh = \<lparr>lh_n = 0, lh_block = (\<lambda>_. 0)\<rparr>\<rparr>\<rparr>"

definition logged_lst :: lst where
  "logged_lst = boot_lst\<lparr>bufs := free_bufs(0 := (free_bufs 0)\<lparr>b_flags := 6, b_dev := 1, b_blockno := 100, b_data := (\<lambda>_. 7)\<rparr>),
     lg := (lg boot_lst)\<lparr>lg_lh := \<lparr>lh_n = 1, lh_block = (\<lambda>_. 100)\<rparr>\<rparr>\<rparr>"

lemma boot_lst_sel:
  "bufs boot_lst = free_bufs" "held boot_lst = {}" "cur boot_lst = Some 0" "disksize boot_lst = 1000"
  "sl_locked (sleeplocks boot_lst l) = 0" "lg_dev (lg boot_lst) = 1" "lg_start (lg boot_lst) = 2" "lg_size (lg boot_lst) = 30" "disk boot_lst n = (\<lambda>_. 0)"
  by (simp_all add: boot_lst_def boot_pst_def pst.defs)

lemma logged_lst_sel:
  "bufs logged_lst = free_bufs(0 := (free_bufs 0)\<lparr>b_flags := 6, b_dev := 1, b_blockno := 100, b_data := (\<lambda>_. 7)\<rparr>)"
  "held logged_lst = {}" "cur logged_lst = Some 0" "disksize logged_lst = 1000"
  "sl_locked (sleeplocks logged_lst l) = 0" "lg_dev (lg logged_lst) = 1" "lg_start (lg logged_lst) = 2" "lg_size (lg logged_lst) = 30"
  "disk logged_lst n = (\<lambda>_. 0)" "lg_lh (lg logged_lst) = \<lparr>lh_n = 1, lh_block = (\<lambda>_. 100)\<rparr>"
  by (simp_all add: logged_lst_def boot_lst_sel)

lemma free_bufs_ring: "ring free_bufs [0..<NBUF]"
  unfolding ring_def free_bufs_def NBUF_def by code_simp

lemma boot_lst_booted: "booted logged_lst d (boot_lst\<lparr>disk := d\<rparr>)"
proof -
  let ?r = "boot_lst\<lparr>disk := d\<rparr>"
  have "bio_ok ?r" using free_bufs_ring
    by (auto simp: bio_ok_def boot_lst_sel buf_ok_def caches_def free_bufs_def [of _] intro!: exI [of _ "[0..<NBUF]"])
  moreover have "in_use ?r = {}" "pins ?r = {}"
    by (auto simp: in_use_def pins_def pinned_def boot_lst_sel free_bufs_def)
  ultimately show ?thesis by (simp add: booted_def boot_lst_sel logged_lst_sel)
qed

lemma logged_lst_txn: "txn_ok logged_lst"
proof -
  have "ring (bufs logged_lst) [0..<NBUF]"
    using free_bufs_ring ring_links [of "bufs logged_lst" free_bufs] by (simp add: logged_lst_sel)
  then have "bio_ok logged_lst"
    by (auto simp: bio_ok_def logged_lst_sel buf_ok_def caches_def free_bufs_def split: if_splits)
  moreover have "in_use logged_lst = {}" by (auto simp: in_use_def logged_lst_sel free_bufs_def)
  moreover have "pinned logged_lst = {0}" by (auto simp: pinned_def logged_lst_sel free_bufs_def NBUF_def)
  then have "pins logged_lst = {100}" by (simp add: pins_def logged_lst_sel)
  ultimately show ?thesis
    by (auto simp: txn_ok_def log_wf_def lh_count_def entries_ok_def logged_lst_sel log_area_def log_cap_def LOGSIZE_def MAXOPBLOCKS_def
        NBUF_def inj_on_def)
qed

lemma logged_lst_crashed: "\<exists>d. crashed logged_lst m d"
  using commit_ok [OF logged_lst_txn] by (auto simp: returns_iff intro: in_commit)

theorem crash_atomic_witness:
  "(\<exists>d. crashed logged_lst 2 d \<and> returns (recover_from_log (boot_lst\<lparr>disk := d\<rparr>)) (\<lambda>_ t. disk t 100 = (\<lambda>_. 7)))
   \<and> (\<exists>d. crashed logged_lst 1 d \<and> returns (recover_from_log (boot_lst\<lparr>disk := d\<rparr>)) (\<lambda>_ t. disk t 100 = (\<lambda>_. 0)))"
proof -
  have h: "get32 (disk logged_lst (unat (lg_start (lg logged_lst)))) 0 = 0" by (simp add: logged_lst_sel get32_def)
  have a: "unat (100 :: u32) \<notin> log_area logged_lst" "lh_count logged_lst = 1"
    by (simp_all add: log_area_def log_cap_def logged_lst_sel LOGSIZE_def MAXOPBLOCKS_def lh_count_def)
  have c: "caches logged_lst 0 100" by (simp add: caches_def logged_lst_sel NBUF_def)
  have b: "blk logged_lst 100 = (\<lambda>_. 7)" using blk_cached [OF txn_okD(1) [OF logged_lst_txn] c] by (simp add: logged_lst_sel)
  have r: "returns (recover_from_log (boot_lst\<lparr>disk := d\<rparr>))
      (\<lambda>_ t. disk t 100 = (if 1 < m then (\<lambda>_. 7) else (\<lambda>_. 0)))" if "crashed logged_lst m d" for m d
    using crash_atomic [OF logged_lst_txn h that boot_lst_booted]
    by (rule returns_mono) (use a b in \<open>auto simp: logged_lst_sel dest!: spec [of _ 100]\<close>)
  obtain d e where "crashed logged_lst 2 d" "crashed logged_lst 1 e" using logged_lst_crashed by blast
  then show ?thesis using r [of 2 d] r [of 1 e] by auto
qed

end
