(* ===== verification/Xv6_Ulib.thy ===== *)
theory Xv6_Ulib
  imports Xv6_String Xv6_Console_Out
begin

text \<open>
  The user library (src/ulib.c, src/printf.c) and the view that a user program has of the kernel.

  A program runs over a world \<open>'w\<close> that only system calls change. The calls cross the trap gate
  (src/usys.S), so a program gets them as an argument, the record \<open>calls\<close>; what a theorem relies on of
  them is a hypothesis of that theorem. A call that never comes back, \<open>exit\<close> or a
  successful \<open>exec\<close>, is the outcome \<open>Swtch 0 w\<close>.

  A C string is the list of its characters; the list ends where the first NUL stands. Library
  functions that only read a string work on such lists, those that write memory work on bytes.
\<close>

unbundle bit_operations_syntax

section \<open>System calls as programs see them\<close>

type_synonym ('w, 'a) prog = "'w \<Rightarrow> ('w, 'a) outcome"

text \<open>\<open>struct stat\<close> as \<open>fstat\<close> fills it in.\<close>

record ustat =
  us_type :: u16
  us_dev :: u32
  us_ino :: u32
  us_nlink :: u16
  us_size :: u32

record 'w calls =
  c_read :: "int \<Rightarrow> int \<Rightarrow> ('w, int \<times> string) prog"    \<comment> \<open>the bytes that went to the buffer\<close>
  c_write :: "int \<Rightarrow> string \<Rightarrow> ('w, int) prog"
  c_open :: "string \<Rightarrow> u32 \<Rightarrow> ('w, int) prog"
  c_close :: "int \<Rightarrow> ('w, int) prog"
  c_fstat :: "int \<Rightarrow> ('w, int \<times> ustat) prog"
  c_dup :: "int \<Rightarrow> ('w, int) prog"
  c_pipe :: "('w, int \<times> int \<times> int) prog"           \<comment> \<open>result, \<open>p[0]\<close>, \<open>p[1]\<close>\<close>
  c_fork :: "('w, int) prog"
  c_wait :: "('w, int) prog"
  c_exec :: "string \<Rightarrow> string list \<Rightarrow> ('w, int) prog"
  c_kill :: "int \<Rightarrow> ('w, int) prog"
  c_mknod :: "string \<Rightarrow> int \<Rightarrow> int \<Rightarrow> ('w, int) prog"
  c_unlink :: "string \<Rightarrow> ('w, int) prog"
  c_link :: "string \<Rightarrow> string \<Rightarrow> ('w, int) prog"
  c_mkdir :: "string \<Rightarrow> ('w, int) prog"
  c_chdir :: "string \<Rightarrow> ('w, int) prog"
  c_getpid :: "('w, int) prog"
  c_sleep :: "int \<Rightarrow> ('w, int) prog"
  c_sbrk :: "int \<Rightarrow> ('w, u32) prog"
  c_count_num_of_digits :: "u32 \<Rightarrow> ('w, int) prog"   \<comment> \<open>the argument travels in register \<open>ebx\<close>\<close>
  c_set_alarm :: "int \<Rightarrow> ('w, unit) prog"
  c_print_syscalls :: "('w, int) prog"
  c_set_edx :: "int \<Rightarrow> ('w, int) prog"
  c_read_registers :: "('w, int) prog"
  c_ps :: "('w, int) prog"

definition uexit :: "('w, 'a) prog" where
  "uexit w = Swtch 0 w"

text \<open>A system on which every call fails, to build small worlds from.\<close>

definition no_calls :: "'w calls" where
  "no_calls = \<lparr>c_read = (\<lambda>_ _. Ret (-1, [])), c_write = (\<lambda>_ _. Ret (-1)), c_open = (\<lambda>_ _. Ret (-1)), c_close = (\<lambda>_. Ret (-1)),
     c_fstat = (\<lambda>_. Ret (-1, \<lparr>us_type = 0, us_dev = 0, us_ino = 0, us_nlink = 0, us_size = 0\<rparr>)), c_dup = (\<lambda>_. Ret (-1)),
     c_pipe = Ret (-1, 0, 0), c_fork = Ret (-1), c_wait = Ret (-1), c_exec = (\<lambda>_ _. Ret (-1)), c_kill = (\<lambda>_. Ret (-1)),
     c_mknod = (\<lambda>_ _ _. Ret (-1)), c_unlink = (\<lambda>_. Ret (-1)), c_link = (\<lambda>_ _. Ret (-1)), c_mkdir = (\<lambda>_. Ret (-1)),
     c_chdir = (\<lambda>_. Ret (-1)), c_getpid = Ret (-1), c_sleep = (\<lambda>_. Ret (-1)), c_sbrk = (\<lambda>_. Ret (-1)),
     c_count_num_of_digits = (\<lambda>_. Ret (-1)), c_set_alarm = (\<lambda>_. Ret ()), c_print_syscalls = Ret (-1), c_set_edx = (\<lambda>_. Ret (-1)),
     c_read_registers = Ret (-1), c_ps = Ret (-1)\<rparr>"

section \<open>Strings\<close>

abbreviation NUL :: char where "NUL \<equiv> CHR 0x00"

text \<open>The character a pointer points to; behind the last character stands the NUL.\<close>

definition deref :: "string \<Rightarrow> char" where
  "deref s = (case s of [] \<Rightarrow> NUL | c # _ \<Rightarrow> c)"

lemma deref_simps [simp]: "deref [] = NUL" "deref (c # s) = c"
  by (simp_all add: deref_def)

partial_function (option) strcpy :: "bytes \<Rightarrow> nat \<Rightarrow> nat \<Rightarrow> bytes option" where
  "strcpy m s t =
     (let c = m t; m = m(s := c)
      in if c \<noteq> 0 then strcpy m (s + 1) (t + 1) else Some m)"

fun strcmp :: "string \<Rightarrow> string \<Rightarrow> int" where
  "strcmp [] q = 0 - of_char (deref q)"
| "strcmp (c # p) q =
     (if c \<noteq> NUL \<and> c = deref q then strcmp p (tl q) else of_char c - of_char (deref q))"

fun ustrlen :: "string \<Rightarrow> nat" where
  "ustrlen [] = 0"
| "ustrlen (c # s) = (if c \<noteq> NUL then Suc (ustrlen s) else 0)"

definition umemset :: "bytes \<Rightarrow> nat \<Rightarrow> u32 \<Rightarrow> nat \<Rightarrow> bytes" where
  "umemset m dst c n = stosb m dst c n"

text \<open>The result is the string from the character found; \<open>None\<close> is the null pointer.\<close>

fun strchr :: "string \<Rightarrow> char \<Rightarrow> string option" where
  "strchr [] c = None"
| "strchr (d # s) c = (if d = NUL then None else if d = c then Some (d # s) else strchr s c)"

definition umemmove :: "bytes \<Rightarrow> nat \<Rightarrow> nat \<Rightarrow> int \<Rightarrow> bytes" where
  "umemmove m dst src n = memmove_up m dst src (nat n)"

definition is_digit :: "char \<Rightarrow> bool" where
  "is_digit c \<longleftrightarrow> of_char (CHR ''0'') \<le> (of_char c :: nat) \<and> of_char c \<le> (of_char (CHR ''9'') :: nat)"

fun atoi_loop :: "u32 \<Rightarrow> string \<Rightarrow> u32" where
  "atoi_loop n [] = n"
| "atoi_loop n (c # s) = (if is_digit c then atoi_loop (n * 10 + of_char c - of_char (CHR ''0'')) s else n)"

definition atoi :: "string \<Rightarrow> u32" where
  "atoi s = atoi_loop 0 s"

section \<open>Calls that wrap system calls\<close>

text \<open>The loop of \<open>gets\<close> with room for \<open>k\<close> more characters; the result is what \<open>buf\<close> holds before the NUL.\<close>

fun gets_loop :: "'w calls \<Rightarrow> nat \<Rightarrow> string \<Rightarrow> ('w, string) prog" where
  "gets_loop k 0 buf w = Ret buf w"
| "gets_loop k (Suc n) buf w =
     bindK (c_read k 0 1 w) (\<lambda>(cc, s) w.
     if cc < 1 then Ret buf w
     else let c = deref s
          in if c = CHR 0x0A \<or> c = CHR 0x0D then Ret (buf @ [c]) w else gets_loop k n (buf @ [c]) w)"

definition gets :: "'w calls \<Rightarrow> int \<Rightarrow> ('w, string) prog" where
  "gets k mx w = gets_loop k (nat (mx - 1)) [] w"


definition stat :: "'w calls \<Rightarrow> string \<Rightarrow> ('w, int \<times> ustat) prog" where
  "stat k n w =
     bindK (c_open k n O_RDONLY w) (\<lambda>fd w.
     if fd < 0 then Ret (-1, \<lparr>us_type = 0, us_dev = 0, us_ino = 0, us_nlink = 0, us_size = 0\<rparr>) w
     else
       bindK (c_fstat k fd w) (\<lambda>r w.
       bindK (c_close k fd w) (\<lambda>_ w. Ret r w)))"

section \<open>Formatted output\<close>

definition putc :: "'w calls \<Rightarrow> int \<Rightarrow> char \<Rightarrow> ('w, unit) prog" where
  "putc k fd c w = bindK (c_write k fd [c] w) (\<lambda>_ w. Ret () w)"

fun putcs :: "'w calls \<Rightarrow> int \<Rightarrow> string \<Rightarrow> ('w, unit) prog" where
  "putcs k fd [] w = Ret () w"
| "putcs k fd (c # s) w = bindK (putc k fd c w) (\<lambda>_ w. putcs k fd s w)"

definition hexdigit :: "nat \<Rightarrow> char" where
  "hexdigit d = ''0123456789ABCDEF'' ! d"

text \<open>The characters of a number in the order in which they are printed.\<close>

definition number_chars :: "u32 \<Rightarrow> nat \<Rightarrow> bool \<Rightarrow> string" where
  "number_chars xx base sgned =
     (let neg = (sgned \<and> sint xx < 0);
          x = (if neg then - xx else xx);
          buf = map hexdigit (digits_loop base (unat x));
          buf = (if neg then buf @ ''-'' else buf)
      in rev buf)"

definition uprintint :: "'w calls \<Rightarrow> int \<Rightarrow> u32 \<Rightarrow> nat \<Rightarrow> bool \<Rightarrow> ('w, unit) prog" where
  "uprintint k fd xx base sgned w = putcs k fd (number_chars xx base sgned) w"

text \<open>
  One directive. The result are the remaining arguments; a word that is read as a string, and an
  argument that is not there, are undefined behaviour.
\<close>

definition printf_directive :: "'w calls \<Rightarrow> int \<Rightarrow> char \<Rightarrow> carg list \<Rightarrow> ('w, carg list) prog" where
  "printf_directive k fd c ap w =
     (if c = CHR ''d'' then
        (case ap of AInt x # ap \<Rightarrow> bindK (uprintint k fd x 10 True w) (\<lambda>_ w. Ret ap w)
         | _ \<Rightarrow> Undef ''printf argument'')
      else if c = CHR ''x'' \<or> c = CHR ''p'' then
        (case ap of AInt x # ap \<Rightarrow> bindK (uprintint k fd x 16 False w) (\<lambda>_ w. Ret ap w)
         | _ \<Rightarrow> Undef ''printf argument'')
      else if c = CHR ''s'' then
        (case ap of AStr s # ap \<Rightarrow>
           bindK (putcs k fd (takeWhile (\<lambda>c. c \<noteq> NUL) (case s of None \<Rightarrow> ''(null)'' | Some s \<Rightarrow> s)) w) (\<lambda>_ w. Ret ap w)
         | _ \<Rightarrow> Undef ''printf argument'')
      else if c = CHR ''c'' then
        (case ap of AInt x # ap \<Rightarrow> bindK (putc k fd (char_of (unat x)) w) (\<lambda>_ w. Ret ap w)
         | _ \<Rightarrow> Undef ''printf argument'')
      else if c = CHR ''%'' then bindK (putc k fd c w) (\<lambda>_ w. Ret ap w)
      else
        bindK (putc k fd (CHR ''%'') w) (\<lambda>_ w.
        bindK (putc k fd c w) (\<lambda>_ w. Ret ap w)))"

text \<open>The loop over the format; the flag says that the last character was a percent sign.\<close>

fun printf_loop :: "'w calls \<Rightarrow> int \<Rightarrow> bool \<Rightarrow> string \<Rightarrow> carg list \<Rightarrow> ('w, unit) prog" where
  "printf_loop k fd state [] ap w = Ret () w"
| "printf_loop k fd False (c # fmt) ap w =
     (if c = NUL then Ret () w
      else if c = CHR ''%'' then printf_loop k fd True fmt ap w
      else bindK (putc k fd c w) (\<lambda>_ w. printf_loop k fd False fmt ap w))"
| "printf_loop k fd True (c # fmt) ap w =
     (if c = NUL then Ret () w
      else bindK (printf_directive k fd c ap w) (\<lambda>ap w. printf_loop k fd False fmt ap w))"

definition printf :: "'w calls \<Rightarrow> int \<Rightarrow> string \<Rightarrow> carg list \<Rightarrow> ('w, unit) prog" where
  "printf k fd fmt ap w = printf_loop k fd False fmt ap w"

section \<open>Numbers and strings\<close>

lemma digit_char:
  assumes "d < 10"
  shows "is_digit (hexdigit d)" "of_char (hexdigit d) = (48 + of_nat d :: u32)"
proof -
  have "d = 0 \<or> d = 1 \<or> d = 2 \<or> d = 3 \<or> d = 4 \<or> d = 5 \<or> d = 6 \<or> d = 7 \<or> d = 8 \<or> d = 9"
    using assms by presburger
  then have "is_digit (hexdigit d) \<and> of_char (hexdigit d) = (48 + of_nat d :: u32)"
    by (elim disjE) (simp_all add: is_digit_def hexdigit_def)
  then show "is_digit (hexdigit d)" "of_char (hexdigit d) = (48 + of_nat d :: u32)" by auto
qed

lemma atoi_loop_snoc:
  "\<forall>c \<in> set s. is_digit c \<Longrightarrow> is_digit c \<Longrightarrow>
    atoi_loop n (s @ [c]) = atoi_loop n s * 10 + of_char c - of_char (CHR ''0'')"
  by (induction n s rule: atoi_loop.induct) auto

lemma atoi_loop_digits:
  "atoi_loop 0 (rev (map hexdigit (digits_loop 10 x))) = of_nat x
   \<and> (\<forall>d \<in> set (digits_loop 10 x). d < 10)"
proof (induction "10 :: nat" x rule: digits_loop.induct)
  case (1 x)
  show ?case
  proof (cases "x div 10 = 0")
    case True
    then have "digits_loop 10 x = [x]" "x < 10" by (auto simp: digits_loop.simps)
    then show ?thesis using digit_char [of x] by simp
  next
    case False
    let ?ds = "digits_loop 10 (x div 10)"
    have dl: "digits_loop 10 x = x mod 10 # ?ds" using False by (simp add: digits_loop.simps [of 10 x])
    have IH: "atoi_loop 0 (rev (map hexdigit ?ds)) = of_nat (x div 10)" "\<forall>d \<in> set ?ds. d < 10"
      using 1 False by auto
    have m: "x mod 10 < 10" by simp
    have "\<forall>c \<in> set (rev (map hexdigit ?ds)). is_digit c" using IH(2) digit_char(1) by auto
    from atoi_loop_snoc [OF this digit_char(1) [OF m]]
    have "atoi_loop 0 (rev (map hexdigit (digits_loop 10 x))) = of_nat (x div 10) * 10 + of_char (hexdigit (x mod 10)) - 48"
      unfolding dl using IH(1) by simp
    also have "\<dots> = of_nat (x div 10) * 10 + of_nat (x mod 10)" unfolding digit_char(2) [OF m] by simp
    also have "\<dots> = of_nat (x div 10 * 10 + x mod 10)" by (simp only: of_nat_add of_nat_mult of_nat_numeral)
    finally show ?thesis using IH(2) m unfolding dl by simp
  qed
qed



text \<open>Equality of strings by \<open>strcmp\<close>, for strings without a NUL inside.\<close>

lemma char_code_0: "(of_char c :: int) = 0 \<longleftrightarrow> c = NUL"
  using of_char_eq_iff [of c NUL, where 'a = int] by simp

lemma strcmp_zero:
  "NUL \<notin> set p \<Longrightarrow> NUL \<notin> set q \<Longrightarrow> strcmp p q = 0 \<longleftrightarrow> p = q"
proof (induction p q rule: strcmp.induct)
  case (1 q)
  then show ?case by (cases q) (auto simp: char_code_0)
next
  case (2 c p q)
  then show ?case by (cases q) (auto simp: char_code_0)
qed

lemma strchr_None: "NUL \<notin> set s \<Longrightarrow> strchr s c = None \<longleftrightarrow> c \<notin> set s"
  by (induction s c rule: strchr.induct) auto

lemma strchr_mem: "NUL \<notin> set s \<Longrightarrow> strchr s c \<noteq> None \<longleftrightarrow> c \<in> set s"
  by (simp add: strchr_None del: not_None_eq)

lemma ustrlen_length: "NUL \<notin> set s \<Longrightarrow> ustrlen s = length s"
  by (induction s) auto

end
