(* ===== verification/Xv6_Grep.thy ===== *)
theory Xv6_Grep
  imports Xv6_Ulib
begin

text \<open>
  The program \<open>grep\<close> (src/grep.c): the pattern matcher with the operators \<open>^ . * $\<close>, and the loop that
  cuts the input into lines. The matcher is shown equivalent to a declarative reading of patterns as
  languages; the loop is shown to print exactly the matching lines of a file.
\<close>

section \<open>The matcher\<close>

function matchhere :: "string \<Rightarrow> string \<Rightarrow> bool" and matchstar :: "char \<Rightarrow> string \<Rightarrow> string \<Rightarrow> bool" where
  "matchhere re tx =
     (if deref re = NUL then True
      else if deref (tl re) = CHR ''*'' then matchstar (deref re) (tl (tl re)) tx
      else if deref re = CHR ''$'' \<and> deref (tl re) = NUL then deref tx = NUL
      else if deref tx \<noteq> NUL \<and> (deref re = CHR ''.'' \<or> deref re = deref tx) then matchhere (tl re) (tl tx)
      else False)"
| "matchstar c re tx =
     (if matchhere re tx then True
      else if deref tx \<noteq> NUL \<and> (deref tx = c \<or> c = CHR ''.'') then matchstar c re (tl tx)
      else False)"
  by pat_completeness auto
termination
proof (relation "inv_image (less_than <*lex*> less_than <*lex*> less_than)
    (case_sum (\<lambda>(re, tx). (length re, length tx, 0)) (\<lambda>(c, re, tx). (length re, length tx, 1 :: nat)))",
    goal_cases)
  case (2 re tx)
  then show ?case by (cases re; cases "tl re") auto
next
  case (3 re tx)
  then show ?case by (cases re) auto
next
  case (5 c re tx)
  then show ?case by (cases tx) auto
qed auto

declare matchhere.simps [simp del] matchstar.simps [simp del]

fun match_loop :: "string \<Rightarrow> string \<Rightarrow> bool" where
  "match_loop re [] = matchhere re []"
| "match_loop re (c # tx) = (if matchhere re (c # tx) then True else if c \<noteq> NUL then match_loop re tx else False)"

definition match :: "string \<Rightarrow> string \<Rightarrow> bool" where
  "match re tx = (if deref re = CHR ''^'' then matchhere (tl re) tx else match_loop re tx)"

section \<open>Patterns as languages\<close>

text \<open>
  The reference reading. A pattern is a sequence of characters and starred characters, optionally
  anchored at both ends; a dot stands for every character.
\<close>

datatype item = One char | Many char

definition char_class :: "char \<Rightarrow> char set" where
  "char_class c = (if c = CHR ''.'' then UNIV else {c})"

fun item_lang :: "item list \<Rightarrow> string set" where
  "item_lang [] = {[]}"
| "item_lang (One c # is) = {x # w | x w. x \<in> char_class c \<and> w \<in> item_lang is}"
| "item_lang (Many c # is) = {xs @ w | xs w. set xs \<subseteq> char_class c \<and> w \<in> item_lang is}"

text \<open>The items of a pattern, and whether it ends with the anchor.\<close>

fun parse_items :: "string \<Rightarrow> item list \<times> bool" where
  "parse_items [] = ([], False)"
| "parse_items [c] = (if c = CHR ''$'' then ([], True) else ([One c], False))"
| "parse_items (c # d # re) =
     (if d = CHR ''*'' then (let (is, e) = parse_items re in (Many c # is, e))
      else (let (is, e) = parse_items (d # re) in (One c # is, e)))"

definition here_spec :: "string \<Rightarrow> string \<Rightarrow> bool" where
  "here_spec re tx \<longleftrightarrow> (\<exists>u v. tx = u @ v \<and> u \<in> item_lang (fst (parse_items re)) \<and> (snd (parse_items re) \<longrightarrow> v = []))"

lemma here_spec_nil: "here_spec [] tx"
  by (auto simp: here_spec_def)

lemma here_spec_end: "here_spec ''$'' tx \<longleftrightarrow> tx = []"
  by (auto simp: here_spec_def)

lemma split_after:
  "(\<exists>u v. tx = u @ v \<and> (\<exists>xs w. u = xs @ w \<and> P xs \<and> w \<in> L) \<and> E v)
   \<longleftrightarrow> (\<exists>xs t. tx = xs @ t \<and> P xs \<and> (\<exists>u v. t = u @ v \<and> u \<in> L \<and> E v))" (is "?l \<longleftrightarrow> ?r")
proof
  assume ?l
  then obtain xs w v where "tx = xs @ (w @ v)" "P xs" "w \<in> L" "E v" by auto
  then show ?r by blast
next
  assume ?r
  then obtain xs u v where "tx = (xs @ u) @ v" "P xs" "u \<in> L" "E v" by auto
  then show ?l by blast
qed

lemma here_spec_one:
  assumes "re = [] \<Longrightarrow> c \<noteq> CHR ''$''" "deref re \<noteq> CHR ''*''"
  shows "here_spec (c # re) tx \<longleftrightarrow> (\<exists>x t. tx = x # t \<and> x \<in> char_class c \<and> here_spec re t)"
proof -
  let ?P = "\<lambda>xs. \<exists>x. xs = [x] \<and> x \<in> char_class c"
  have "parse_items (c # re) = (One c # fst (parse_items re), snd (parse_items re))"
    using assms by (cases re) (simp_all split: prod.split)
  moreover have "{x # w |x w. x \<in> char_class c \<and> w \<in> L} = {xs @ w |xs w. ?P xs \<and> w \<in> L}" for L
    by (auto, metis append_Cons append_Nil)
  ultimately have "here_spec (c # re) tx \<longleftrightarrow> (\<exists>xs t. tx = xs @ t \<and> ?P xs \<and> here_spec re t)"
    unfolding here_spec_def split_after [of tx ?P, symmetric] by simp
  also have "\<dots> \<longleftrightarrow> (\<exists>x t. tx = [x] @ t \<and> x \<in> char_class c \<and> here_spec re t)" by blast
  finally show ?thesis by simp
qed

lemma here_spec_many:
  "here_spec (c # CHR ''*'' # re) tx \<longleftrightarrow> (\<exists>xs t. tx = xs @ t \<and> set xs \<subseteq> char_class c \<and> here_spec re t)"
proof -
  have "parse_items (c # CHR ''*'' # re) = (Many c # fst (parse_items re), snd (parse_items re))"
    by (simp split: prod.split)
  then show ?thesis
    unfolding here_spec_def split_after [of tx "\<lambda>xs. set xs \<subseteq> char_class c", symmetric] by simp
qed

lemma here_spec_many_step:
  "(\<exists>xs t. tx = xs @ t \<and> set xs \<subseteq> char_class c \<and> here_spec re t)
   \<longleftrightarrow> here_spec re tx \<or> (\<exists>x t. tx = x # t \<and> x \<in> char_class c
        \<and> (\<exists>xs t'. t = xs @ t' \<and> set xs \<subseteq> char_class c \<and> here_spec re t'))" (is "?l \<longleftrightarrow> ?r")
proof
  assume ?l
  then obtain xs t where "tx = xs @ t" "set xs \<subseteq> char_class c" "here_spec re t" by blast
  then show ?r by (cases xs) auto
next
  assume ?r
  then show ?l
  proof
    assume "here_spec re tx"
    then show ?l by (intro exI [of _ "[]"] exI [of _ tx]) simp
  next
    assume "\<exists>x t. tx = x # t \<and> x \<in> char_class c
        \<and> (\<exists>xs t'. t = xs @ t' \<and> set xs \<subseteq> char_class c \<and> here_spec re t')"
    then obtain x xs t' where "tx = x # xs @ t'" "x \<in> char_class c" "set xs \<subseteq> char_class c" "here_spec re t'" by blast
    then show ?l by (intro exI [of _ "x # xs"] exI [of _ t']) simp
  qed
qed

lemma matchhere_shapes:
  "matchhere [] tx"
  "c \<noteq> NUL \<Longrightarrow> matchhere (c # CHR ''*'' # re) tx = matchstar c re tx"
  "matchhere ''$'' tx = (deref tx = NUL)"
  "c \<noteq> NUL \<Longrightarrow> deref re \<noteq> CHR ''*'' \<Longrightarrow> \<not> (c = CHR ''$'' \<and> deref re = NUL) \<Longrightarrow> \<not> matchhere (c # re) []"
  "c \<noteq> NUL \<Longrightarrow> deref re \<noteq> CHR ''*'' \<Longrightarrow> \<not> (c = CHR ''$'' \<and> deref re = NUL) \<Longrightarrow>
     matchhere (c # re) (x # t) = (x \<noteq> NUL \<and> (c = CHR ''.'' \<or> c = x) \<and> matchhere re t)"
  by (auto simp: matchhere.simps [of "[]"] matchhere.simps [of "c # CHR ''*'' # re"] matchhere.simps [of "''$''"]
      matchhere.simps [of "c # re" "[]"] matchhere.simps [of "c # re" "x # t"])

lemma matchstar_shapes:
  "matchstar c re [] = matchhere re []"
  "matchstar c re (x # t) = (matchhere re (x # t) \<or> x \<noteq> NUL \<and> (x = c \<or> c = CHR ''.'') \<and> matchstar c re t)"
  by (auto simp: matchstar.simps [of c re "[]"] matchstar.simps [of c re "x # t"])

lemma matchstar_spec:
  assumes "\<And>t. NUL \<notin> set t \<Longrightarrow> matchhere re t \<longleftrightarrow> here_spec re t" "NUL \<notin> set tx"
  shows "matchstar c re tx \<longleftrightarrow> (\<exists>xs t. tx = xs @ t \<and> set xs \<subseteq> char_class c \<and> here_spec re t)"
  using assms(2)
proof (induction tx)
  case Nil
  then show ?case using assms(1) [of "[]"] by (simp add: matchstar_shapes)
next
  case (Cons x t)
  then show ?case
    unfolding matchstar_shapes here_spec_many_step [of "x # t"] using assms(1) [of "x # t"]
    by (auto simp: char_class_def)
qed

lemma matchhere_spec:
  "NUL \<notin> set re \<Longrightarrow> NUL \<notin> set tx \<Longrightarrow> matchhere re tx \<longleftrightarrow> here_spec re tx"
proof (induction "length re" arbitrary: re tx rule: less_induct)
  case less
  consider "re = []" | c r where "re = c # CHR ''*'' # r" | "re = ''$''"
    | c r where "re = c # r" "deref r \<noteq> CHR ''*''" "r = [] \<Longrightarrow> c \<noteq> CHR ''$''"
    by (cases re; cases "tl re") auto
  then show ?case
  proof cases
    case 1
    then show ?thesis by (simp add: matchhere_shapes here_spec_nil)
  next
    case (2 c r)
    have "matchhere r t = here_spec r t" if "NUL \<notin> set t" for t using less 2 that by simp
    then show ?thesis using 2 less.prems matchstar_spec [of r tx c] by (auto simp: matchhere_shapes here_spec_many)
  next
    case 3
    then show ?thesis using less.prems by (cases tx) (auto simp: matchhere_shapes here_spec_end)
  next
    case (4 c r)
    have c: "c \<noteq> NUL" "\<not> (c = CHR ''$'' \<and> deref r = NUL)" using less.prems 4 by (cases r; auto)+
    have "matchhere r t = here_spec r t" if "NUL \<notin> set t" for t using less 4 that by simp
    then show ?thesis using less.prems 4 c
      by (cases tx) (auto simp: matchhere_shapes here_spec_one [OF 4(3,2)] char_class_def)
  qed
qed

lemma match_loop_spec:
  "NUL \<notin> set re \<Longrightarrow> NUL \<notin> set tx \<Longrightarrow> match_loop re tx \<longleftrightarrow> (\<exists>a t. tx = a @ t \<and> here_spec re t)"
proof (induction re tx rule: match_loop.induct)
  case (1 re)
  then show ?case by (simp add: matchhere_spec)
next
  case (2 re c tx)
  have "(\<exists>a t. c # tx = a @ t \<and> here_spec re t) \<longleftrightarrow> here_spec re (c # tx) \<or> (\<exists>a t. tx = a @ t \<and> here_spec re t)"
    by (auto simp: Cons_eq_append_conv)
  then show ?case using 2 by (auto simp: matchhere_spec)
qed

text \<open>C21. The matcher of \<open>grep\<close> decides the language of its pattern: \<open>match\<close> returns true exactly when the
  tx has a part that is a word of the pattern, at the beginning if the pattern starts with \<open>^\<close> and at
  the end if it ends with \<open>$\<close>. A starred character stands for any number of repetitions, a dot for
  every character.\<close>

theorem match_language:
  assumes "NUL \<notin> set re" "NUL \<notin> set tx"
  shows "match re tx \<longleftrightarrow>
    (let anchored = (deref re = CHR ''^''); (is, at_end) = parse_items (if anchored then tl re else re)
     in \<exists>a u v. tx = a @ u @ v \<and> u \<in> item_lang is \<and> (anchored \<longrightarrow> a = []) \<and> (at_end \<longrightarrow> v = []))"
proof -
  have "NUL \<notin> set (tl re)" using assms(1) by (cases re) auto
  then show ?thesis using assms
    by (auto simp: match_def matchhere_spec match_loop_spec here_spec_def split: prod.splits)
qed

theorem match_language_witness:
  "match ''^ab*c.$'' ''abbbcd'' \<and> \<not> match ''^ab*c.$'' ''abbbc''
   \<and> parse_items ''ab*c.$'' = ([One (CHR ''a''), Many (CHR ''b''), One (CHR ''c''), One (CHR ''.'')], True)"
proof -
  have p: "parse_items ''ab*c.$'' = ([One (CHR ''a''), Many (CHR ''b''), One (CHR ''c''), One (CHR ''.'')], True)" by simp
  have "''abbbcd'' \<in> item_lang [One (CHR ''a''), Many (CHR ''b''), One (CHR ''c''), One (CHR ''.'')]"
    by (simp add: char_class_def) (rule exI [of _ "''bbb''"], simp)
  then have "\<exists>a u v. ''abbbcd'' = a @ u @ v \<and> u \<in> item_lang (fst (parse_items ''ab*c.$'')) \<and> a = [] \<and> v = []"
    unfolding p by simp
  then have "match ''^ab*c.$'' ''abbbcd''" using match_language [of "''^ab*c.$''" "''abbbcd''"] p by simp
  moreover have "\<not> match ''^ab*c.$'' ''abbbc''" by code_simp
  ultimately show ?thesis using p by blast
qed

section \<open>The program\<close>

abbreviation newline_char :: char where "newline_char \<equiv> CHR 0x0A"

lemma strchr_suffix: "strchr s c = Some q \<Longrightarrow> length (tl q) < length s"
  by (induction s c rule: strchr.induct) (auto split: if_splits)

text \<open>
  The inner loop: \<open>rest\<close> is the buffer from \<open>p\<close> to its end. Between \<open>p\<close> and the newline there is no NUL,
  so the line that \<open>match\<close> sees is all of it. The result is the buffer from the last \<open>p\<close> on.
\<close>

function grep_lines :: "'w calls \<Rightarrow> string \<Rightarrow> string \<Rightarrow> ('w, string) prog" where
  "grep_lines k pattern rest w =
     (case strchr rest newline_char of
        None \<Rightarrow> Ret rest w
      | Some q \<Rightarrow>
          let line = take (length rest - length q) rest
          in bindK (if match pattern line
                    then bindK (c_write k 1 (line @ [newline_char]) w) (\<lambda>_ w. Ret () w)
                    else Ret () w) (\<lambda>_ w.
             grep_lines k pattern (tl q) w))"
  by pat_completeness auto
termination
  by (relation "measure (\<lambda>(k, pattern, rest, w). length rest)") (auto dest: strchr_suffix)

declare grep_lines.simps [simp del]

text \<open>
  The outer loop with the unfinished line \<open>kept\<close> at the beginning of the buffer. The fuel bounds the
  number of calls of \<open>read\<close>.
\<close>

fun grep_loop :: "nat \<Rightarrow> 'w calls \<Rightarrow> string \<Rightarrow> int \<Rightarrow> string \<Rightarrow> ('w, unit) prog" where
  "grep_loop 0 k pattern fd kept w = Diverge"
| "grep_loop (Suc fuel) k pattern fd kept w =
     bindK (c_read k fd (1024 - int (length kept) - 1) w) (\<lambda>(n, s) w.
     if n > 0 then
       bindK (grep_lines k pattern (kept @ s) w) (\<lambda>rest w.
       grep_loop fuel k pattern fd (if length rest = length (kept @ s) then [] else rest) w)
     else Ret () w)"

definition grep :: "nat \<Rightarrow> 'w calls \<Rightarrow> string \<Rightarrow> int \<Rightarrow> ('w, unit) prog" where
  "grep fuel k pattern fd w = grep_loop fuel k pattern fd [] w"

fun grep_files :: "nat \<Rightarrow> 'w calls \<Rightarrow> string \<Rightarrow> string list \<Rightarrow> ('w, unit) prog" where
  "grep_files fuel k pattern [] w = uexit w"
| "grep_files fuel k pattern (f # fs) w =
     bindK (c_open k f 0 w) (\<lambda>fd w.
     if fd < 0 then bindK (printf k 1 (''grep: cannot open %s'' @ [newline_char]) [AStr (Some f)] w) (\<lambda>_ w. uexit w)
     else
       bindK (grep fuel k pattern fd w) (\<lambda>_ w.
       bindK (c_close k fd w) (\<lambda>_ w.
       grep_files fuel k pattern fs w)))"

definition grep_main :: "nat \<Rightarrow> 'w calls \<Rightarrow> string list \<Rightarrow> ('w, unit) prog" where
  "grep_main fuel k argv w =
     (if length argv \<le> 1 then
        bindK (printf k 2 (''usage: grep pattern [file ...]'' @ [newline_char]) [] w) (\<lambda>_ w. uexit w)
      else
        let pattern = argv ! 1
        in if length argv \<le> 2 then bindK (grep fuel k pattern 0 w) (\<lambda>_ w. uexit w)
           else grep_files fuel k pattern (drop 2 argv) w)"

section \<open>What the program prints\<close>

text \<open>
  A file as \<open>read\<close> gives it out: \<open>inp w\<close> is what is left of it, every read gives as many bytes as it was
  asked for, up to the end, and \<open>write\<close> appends to the output \<open>outp w\<close>.
\<close>

definition plain_file :: "'w calls \<Rightarrow> int \<Rightarrow> ('w \<Rightarrow> string) \<Rightarrow> ('w \<Rightarrow> string) \<Rightarrow> bool" where
  "plain_file k fd inp outp \<longleftrightarrow>
     (\<forall>w n. 0 < n \<longrightarrow> returns (c_read k fd n w) (\<lambda>(r, s) w'. r = int (length s) \<and> s = take (nat n) (inp w)
        \<and> inp w' = drop (nat n) (inp w) \<and> outp w' = outp w))
     \<and> (\<forall>w s. returns (c_write k 1 s w) (\<lambda>_ w'. inp w' = inp w \<and> outp w' = outp w @ s))"

definition lines_of :: "string list \<Rightarrow> string" where
  "lines_of ls = concat (map (\<lambda>l. l @ [newline_char]) ls)"

lemma lines_of_simps [simp]: "lines_of [] = []" "lines_of (l # ls) = l @ newline_char # lines_of ls"
  "lines_of (ls @ ls') = lines_of ls @ lines_of ls'"
  by (simp_all add: lines_of_def)

lemma strchr_line:
  "newline_char \<notin> set l \<Longrightarrow> NUL \<notin> set l \<Longrightarrow> strchr (l @ newline_char # r) newline_char = Some (newline_char # r)"
  by (induction l) auto

lemma strchr_no_line: "newline_char \<notin> set l \<Longrightarrow> strchr l newline_char = None"
  by (induction l) auto

lemma grep_lines_spec:
  assumes k: "plain_file k fd inp outp" and t: "newline_char \<notin> set t"
  shows "\<forall>l \<in> set ls. newline_char \<notin> set l \<and> NUL \<notin> set l \<Longrightarrow>
    returns (grep_lines k pattern (lines_of ls @ t) w)
      (\<lambda>rest w'. rest = t \<and> inp w' = inp w \<and> outp w' = outp w @ lines_of (filter (match pattern) ls))"
proof (induction ls arbitrary: w)
  case Nil
  then show ?case using t by (simp add: grep_lines.simps strchr_no_line)
next
  case (Cons l ls)
  have wr: "returns (c_write k 1 s w) (\<lambda>_ w'. inp w' = inp w \<and> outp w' = outp w @ s)" for s w
    using k by (simp add: plain_file_def)
  have IH: "returns (grep_lines k pattern (lines_of ls @ t) w)
      (\<lambda>rest w'. rest = t \<and> inp w' = inp w \<and> outp w' = outp w @ lines_of (filter (match pattern) ls))" for w
    using Cons by simp
  have eq: "strchr (lines_of (l # ls) @ t) newline_char = Some (newline_char # lines_of ls @ t)"
    using Cons.prems strchr_line [of l "lines_of ls @ t"] by simp
  have step: "grep_lines k pattern (lines_of (l # ls) @ t) w = bindK (if match pattern l
      then bindK (c_write k 1 (l @ [newline_char]) w) (\<lambda>_ w. Ret () w) else Ret () w)
      (\<lambda>_. grep_lines k pattern (lines_of ls @ t))"
    by (subst grep_lines.simps) (simp only: eq option.case Let_def list.sel, simp)
  show ?case
  proof (cases "match pattern l")
    case True
    have "returns (c_write k 1 (l @ [newline_char]) w) (\<lambda>_ w'. returns (grep_lines k pattern (lines_of ls @ t) w')
      (\<lambda>rest w'. rest = t \<and> inp w' = inp w \<and> outp w' = outp w @ lines_of (filter (match pattern) (l # ls))))"
      by (rule returns_mono [OF wr], rule returns_mono [OF IH]) (use True in auto)
    then show ?thesis unfolding step using True by simp
  next
    case False
    then show ?thesis unfolding step using IH [of w] by simp
  qed
qed

text \<open>How a block of the input falls into whole lines and the beginning of the next one.\<close>

lemma take_lines:
  assumes "\<forall>l \<in> set ls. newline_char \<notin> set l" "newline_char \<notin> set t"
  shows "\<exists>ls1 ls2 t1. ls = ls1 @ ls2 \<and> take n (lines_of ls @ t) = lines_of ls1 @ t1 \<and> newline_char \<notin> set t1
    \<and> t1 @ drop n (lines_of ls @ t) = lines_of ls2 @ t \<and> (ls1 = [] \<longrightarrow> ls \<noteq> [] \<longrightarrow> n \<le> length (hd ls))"
  using assms
proof (induction ls arbitrary: n)
  case Nil
  then show ?case by (intro exI [of _ "[]"] exI [of _ "take n t"]) (auto dest: in_set_takeD)
next
  case (Cons l ls)
  show ?case
  proof (cases "n \<le> length l")
    case True
    then show ?thesis using Cons.prems(1)
      by (intro exI [of _ "[]"] exI [of _ "l # ls"] exI [of _ "take n l"])
        (auto dest: in_set_takeD simp flip: append_assoc)
  next
    case False
    then obtain m where m: "n = Suc (length l + m)" by (metis less_imp_Suc_add not_le)
    have "\<forall>l \<in> set ls. newline_char \<notin> set l" using Cons.prems(1) by simp
    from Cons.IH [OF this Cons.prems(2), of m] obtain ls1 ls2 t1 where
      d: "ls = ls1 @ ls2" "take m (lines_of ls @ t) = lines_of ls1 @ t1" "newline_char \<notin> set t1"
      "t1 @ drop m (lines_of ls @ t) = lines_of ls2 @ t" by blast
    have e: "take (Suc (length l + m)) (l @ c # x) = l @ c # take m x" "drop (Suc (length l + m)) (l @ c # x) = drop m x"
      for c x by simp_all
    show ?thesis unfolding m
      by (rule exI [where x = "l # ls1"], rule exI [where x = ls2], rule exI [where x = t1])
        (use d in \<open>simp add: e del: take_append drop_append lines_of_simps(3)\<close>)
  qed
qed

lemma lines_of_no_newline: "newline_char \<notin> set x \<Longrightarrow> x = lines_of ls @ t \<Longrightarrow> ls = [] \<and> x = t"
  by (cases ls) auto

lemma grep_loop_spec:
  assumes k: "plain_file k fd inp outp"
  shows "\<forall>l \<in> set ls. newline_char \<notin> set l \<and> NUL \<notin> set l \<and> length l < 1023 \<Longrightarrow>
    newline_char \<notin> set t \<Longrightarrow> length t \<le> 1023 \<Longrightarrow> newline_char \<notin> set kept \<Longrightarrow> length kept < 1023 \<Longrightarrow>
    kept @ inp w = lines_of ls @ t \<Longrightarrow> length (inp w) < fuel \<Longrightarrow>
    returns (grep_loop fuel k pattern fd kept w) (\<lambda>_ w'. outp w' = outp w @ lines_of (filter (match pattern) ls))"
proof (induction fuel arbitrary: w kept ls t)
  case (Suc fuel)
  let ?n = "1023 - length kept"
  have n: "nat (1024 - int (length kept) - 1) = ?n" "0 < 1024 - int (length kept) - 1" using Suc.prems(5) by auto
  have rd: "returns (c_read k fd (1024 - int (length kept) - 1) w) (\<lambda>(r, s) w'. r = int (length s) \<and> s = take ?n (inp w)
     \<and> inp w' = drop ?n (inp w) \<and> outp w' = outp w)"
    using k [unfolded plain_file_def, THEN conjunct1, rule_format, OF n(2), of w] unfolding n(1) .
  show ?case
  proof (cases "inp w = []")
    case True
    then have "ls = []" using lines_of_no_newline [OF Suc.prems(4)] Suc.prems(6) by auto
    then show ?thesis using returns_mono [OF rd] True by (simp add: case_prod_beta)
  next
    case False
    let ?s = "take ?n (inp w)" and ?r = "drop ?n (inp w)"
    obtain ls1 ls2 t1 where d: "ls = ls1 @ ls2" "take 1023 (lines_of ls @ t) = lines_of ls1 @ t1" "newline_char \<notin> set t1"
      "t1 @ drop 1023 (lines_of ls @ t) = lines_of ls2 @ t" "ls1 = [] \<Longrightarrow> ls \<noteq> [] \<Longrightarrow> 1023 \<le> length (hd ls)"
      using take_lines [of ls t 1023] Suc.prems(1,2) by blast
    have buf: "kept @ ?s = lines_of ls1 @ t1" "?r = drop 1023 (lines_of ls @ t)"
      unfolding d(2) [symmetric] Suc.prems(6) [symmetric] using Suc.prems(5) by simp_all
    let ?kept = "if ls1 = [] then [] else t1" and ?t = "if ls1 = [] then [] else t"
    have next_ok: "returns (grep_loop fuel k pattern fd ?kept w') (\<lambda>_ w''. outp w'' = outp w' @ lines_of (filter (match pattern) ls2))"
      if w': "inp w' = ?r" for w'
    proof (rule Suc.IH [of _ ?t])
      have e: "ls = []" "?r = []" if "ls1 = []" using d(5) [OF that] Suc.prems(1,3) buf(2) by (cases ls; force)+
      show "?kept @ inp w' = lines_of ls2 @ ?t" using w' d(1,4) e buf(2) by auto
      have "length t1 + 1 \<le> length (kept @ ?s)" if "ls1 \<noteq> []" unfolding buf(1) using that by (cases ls1) auto
      then show "length ?kept < 1023" using Suc.prems(5) by auto
      show "length (inp w') < fuel" using w' False Suc.prems(5,7) by (cases "inp w") auto
    qed (use Suc.prems d in auto)
    have len: "length t1 = length (kept @ ?s) \<longleftrightarrow> ls1 = []" unfolding buf(1) by (cases ls1) auto
    have gl: "returns (grep_lines k pattern (kept @ ?s) w') (\<lambda>rest w''. rest = t1 \<and> inp w'' = inp w'
        \<and> outp w'' = outp w' @ lines_of (filter (match pattern) ls1))" for w'
      unfolding buf(1) using Suc.prems(1) d by (intro grep_lines_spec [OF k]) auto
    have ne: "?s \<noteq> []" using False Suc.prems(5) by auto
    show ?thesis unfolding grep_loop.simps returns_bindK
    proof (rule returns_mono [OF rd], clarsimp simp: False, intro conjI impI)
      fix w' assume w': "inp w' = ?r" "outp w' = outp w"
      show "returns (grep_lines k pattern (kept @ ?s) w') (\<lambda>rest w'. returns (grep_loop fuel k pattern fd
        (if length rest = length kept + min (length (inp w)) ?n then [] else rest) w')
        (\<lambda>_ w'. outp w' = outp w @ lines_of (filter (match pattern) ls)))"
      proof (rule returns_mono [OF gl])
        fix rest z
        assume z: "rest = t1 \<and> inp z = inp w' \<and> outp z = outp w' @ lines_of (filter (match pattern) ls1)"
        then have "inp z = ?r" using w' by simp
        from next_ok [OF this] show "returns (grep_loop fuel k pattern fd
          (if length rest = length kept + min (length (inp w)) ?n then [] else rest) z)
          (\<lambda>_ w'. outp w' = outp w @ lines_of (filter (match pattern) ls))"
          using z len w'(2) d(1) by (cases "ls1 = []") simp_all
      qed
    qed (use ne in simp)
  qed
qed simp

text \<open>C22. \<open>grep\<close> prints exactly the matching lines of a file, in order: for a file whose lines are shorter
  than the buffer and hold no NUL it returns after at most one read per byte, and what it has written
  are the lines that match. A last line without a newline is not printed.\<close>

theorem grep_prints_matching_lines:
  assumes "plain_file k fd inp outp" "inp w = lines_of ls @ t" "length (inp w) < fuel"
    and "\<forall>l \<in> set ls. newline_char \<notin> set l \<and> NUL \<notin> set l \<and> length l < 1023" "newline_char \<notin> set t" "length t \<le> 1023"
  shows "returns (grep fuel k pattern fd w) (\<lambda>_ w'. outp w' = outp w @ lines_of (filter (match pattern) ls))"
  unfolding grep_def using assms by (intro grep_loop_spec [of k fd inp outp ls t]) auto

text \<open>A file and an output as the two halves of a world.\<close>

definition file_calls :: "(string \<times> string) calls" where
  "file_calls = no_calls\<lparr>
     c_read := (\<lambda>fd n (i, j). Ret (int (length (take (nat n) i)), take (nat n) i) (drop (nat n) i, j)),
     c_write := (\<lambda>fd s (i, j). Ret (int (length s)) (i, j @ s))\<rparr>"

lemma file_calls_plain: "plain_file file_calls fd fst snd"
  by (simp add: plain_file_def file_calls_def split: prod.split)

theorem grep_prints_matching_lines_witness:
  "returns (grep 20 file_calls ''b$'' 0 (''ab'' @ newline_char # ''ba'' @ newline_char # ''b'', []))
     (\<lambda>_ w'. snd w' = ''ab'' @ [newline_char])"
proof -
  have m: "match ''b$'' ''ab''" "\<not> match ''b$'' ''ba''" by code_simp+
  show ?thesis
    using grep_prints_matching_lines [OF file_calls_plain, where ls = "[''ab'', ''ba'']" and t = "''b''" and fuel = 20
        and w = "(''ab'' @ newline_char # ''ba'' @ newline_char # ''b'', [])" and pattern = "''b$''" and fd = 0] m
    by simp
qed

text \<open>
  A pipe may give less than it is asked for. When a read ends inside a line and no earlier line ends
  in the buffer, the test \<open>p == buf\<close> drops what was read: here the line \<open>abcd\<close> arrives in two pieces and
  is not printed although it matches.
\<close>

definition slow_calls :: "(string \<times> string) calls" where
  "slow_calls = file_calls\<lparr>
     c_read := (\<lambda>fd n (i, j). Ret (int (length (take 3 i)), take 3 i) (drop 3 i, j))\<rparr>"

lemma grep_loses_split_line:
  "grep 20 slow_calls ''a'' 0 (''abcd'' @ [newline_char], []) = Ret () ([], []) \<and> match ''a'' ''abcd''"
proof
  have n: "strchr ''abc'' newline_char = None" "strchr (''d'' @ [newline_char]) newline_char = Some [newline_char]" by simp_all
  have "\<not> match ''a'' ''d''" by code_simp
  then show "grep 20 slow_calls ''a'' 0 (''abcd'' @ [newline_char], []) = Ret () ([], [])"
    by (simp add: grep_def slow_calls_def file_calls_def eval_nat_numeral grep_lines.simps)
  show "match ''a'' ''abcd''" by code_simp
qed

end
