(* ===== verification/Xv6_Sh.thy ===== *)
theory Xv6_Sh
  imports Xv6_Ulib
begin

text \<open>
  The shell (src/sh.c). The parser works on positions in the command line, as the code works on
  pointers into its buffer: a command holds for each string the positions of its first character and
  of the character behind it, and \<open>nulterminate\<close> later puts NULs behind the strings. The constructors
  of a command are those of the code (\<open>EXEC\<close>, \<open>REDIR\<close>, \<open>PIPE\<close>, \<open>LIST\<close>, \<open>BACK\<close>); their memory comes from
  \<open>malloc\<close>, which is taken not to run out on a line of at most 99 characters.

  The mutually recursive part of the parser has fuel; the lemmas show that fuel linear in the length
  of the line is enough.
\<close>

section \<open>Tokens\<close>

definition whitespace :: string where
  "whitespace = [CHR '' '', CHR 0x09, CHR 0x0D, CHR 0x0A, CHR 0x0B]"

definition symbols :: string where
  "symbols = ''<|>&;()''"

text \<open>\<open>*s\<close> for a position; the NUL behind the line is at \<open>es\<close>.\<close>

definition at_pos :: "string \<Rightarrow> nat \<Rightarrow> char" where
  "at_pos b s = (if s < length b then b ! s else NUL)"

definition chr_in :: "string \<Rightarrow> char \<Rightarrow> bool" where
  "chr_in toks c \<longleftrightarrow> strchr toks c \<noteq> None"

function skip_space :: "string \<Rightarrow> nat \<Rightarrow> nat" where
  "skip_space b s = (if s < length b \<and> chr_in whitespace (at_pos b s) then skip_space b (s + 1) else s)"
  by pat_completeness auto
termination by (relation "measure (\<lambda>(b, s). length b - s)") auto

function skip_word :: "string \<Rightarrow> nat \<Rightarrow> nat" where
  "skip_word b s =
     (if s < length b \<and> \<not> chr_in whitespace (at_pos b s) \<and> \<not> chr_in symbols (at_pos b s)
      then skip_word b (s + 1) else s)"
  by pat_completeness auto
termination by (relation "measure (\<lambda>(b, s). length b - s)") auto

declare skip_space.simps [simp del] skip_word.simps [simp del]

text \<open>The result is the kind of token, its two positions, and the position of the next token.\<close>

definition gettoken :: "string \<Rightarrow> nat \<Rightarrow> char \<times> nat \<times> nat \<times> nat" where
  "gettoken b ps =
     (let s = skip_space b ps;
          q = s;
          c = at_pos b s;
          (ret, s) =
            (if c = NUL then (c, s)
             else if c = CHR ''|'' \<or> c = CHR ''('' \<or> c = CHR '')'' \<or> c = CHR '';'' \<or> c = CHR ''&'' \<or> c = CHR ''<''
             then (c, s + 1)
             else if c = CHR ''>'' then
               (if at_pos b (s + 1) = CHR ''>'' then (CHR ''+'', s + 2) else (c, s + 1))
             else (CHR ''a'', skip_word b s))
      in (ret, q, s, skip_space b s))"

definition peek :: "string \<Rightarrow> nat \<Rightarrow> string \<Rightarrow> bool \<times> nat" where
  "peek b ps toks =
     (let s = skip_space b ps in (at_pos b s \<noteq> NUL \<and> chr_in toks (at_pos b s), s))"

section \<open>Commands\<close>

datatype cmd =
    EXEC "(nat \<times> nat) list"
  | REDIR cmd nat nat u32 int    \<comment> \<open>command, file, end of file, mode, descriptor\<close>
  | PIPE cmd cmd
  | LIST cmd cmd
  | BACK cmd

definition MAXARGS :: nat where "MAXARGS = 10"


definition execcmd :: cmd where
  [simp]: "execcmd = EXEC []"

definition redircmd :: "cmd \<Rightarrow> nat \<Rightarrow> nat \<Rightarrow> u32 \<Rightarrow> int \<Rightarrow> cmd" where
  [simp]: "redircmd subcmd q eq mode fd = REDIR subcmd q eq mode fd"

definition pipecmd :: "cmd \<Rightarrow> cmd \<Rightarrow> cmd" where
  [simp]: "pipecmd left right = PIPE left right"

definition listcmd :: "cmd \<Rightarrow> cmd \<Rightarrow> cmd" where
  [simp]: "listcmd left right = LIST left right"

definition backcmd :: "cmd \<Rightarrow> cmd" where
  [simp]: "backcmd subcmd = BACK subcmd"

text \<open>A parser gives a value, or it calls \<open>panic\<close> with a message, or its fuel ends.\<close>

datatype 'a parse = Done 'a | Syntax string | NoFuel

primrec bindP :: "'a parse \<Rightarrow> ('a \<Rightarrow> 'b parse) \<Rightarrow> 'b parse" where
  "bindP (Done x) f = f x"
| "bindP (Syntax m) f = Syntax m"
| "bindP NoFuel f = NoFuel"

section \<open>Positions only move forward\<close>

lemma at_pos_NUL: "at_pos b s \<noteq> NUL \<Longrightarrow> s < length b"
  by (auto simp: at_pos_def split: if_splits)

lemma skip_space_step:
  "s < length b \<Longrightarrow> chr_in whitespace (at_pos b s) \<Longrightarrow> skip_space b s = skip_space b (Suc s)"
  by (subst skip_space.simps) simp

lemma skip_space_stop:
  "\<not> (s < length b \<and> chr_in whitespace (at_pos b s)) \<Longrightarrow> skip_space b s = s"
  by (subst skip_space.simps) (simp only: if_False)

lemma skip_space_bounds: "s \<le> skip_space b s \<and> (s \<le> length b \<longrightarrow> skip_space b s \<le> length b)"
proof (induction b s rule: skip_space.induct)
  case (1 b s)
  then show ?case
    by (cases "s < length b \<and> chr_in whitespace (at_pos b s)") (auto simp: skip_space_step skip_space_stop)
qed

lemma skip_space_idem [simp]: "skip_space b (skip_space b s) = skip_space b s"
proof (induction b s rule: skip_space.induct)
  case (1 b s)
  then show ?case
    by (cases "s < length b \<and> chr_in whitespace (at_pos b s)") (simp_all add: skip_space_step skip_space_stop)
qed

lemma skip_space_end: "at_pos b (skip_space b s) \<noteq> NUL \<Longrightarrow> \<not> chr_in whitespace (at_pos b (skip_space b s))"
proof (induction b s rule: skip_space.induct)
  case (1 b s)
  then show ?case
    by (cases "s < length b \<and> chr_in whitespace (at_pos b s)")
      (auto simp: skip_space_step skip_space_stop dest: at_pos_NUL)
qed

lemma skip_word_step:
  "s < length b \<Longrightarrow> \<not> chr_in whitespace (at_pos b s) \<Longrightarrow> \<not> chr_in symbols (at_pos b s) \<Longrightarrow>
    skip_word b s = skip_word b (Suc s)"
  by (subst skip_word.simps) simp

lemma skip_word_stop:
  "\<not> (s < length b \<and> \<not> chr_in whitespace (at_pos b s) \<and> \<not> chr_in symbols (at_pos b s)) \<Longrightarrow> skip_word b s = s"
  by (subst skip_word.simps) (simp only: if_False)

lemma skip_word_bounds: "s \<le> skip_word b s \<and> (s \<le> length b \<longrightarrow> skip_word b s \<le> length b)"
proof (induction b s rule: skip_word.induct)
  case (1 b s)
  then show ?case
    by (cases "s < length b \<and> \<not> chr_in whitespace (at_pos b s) \<and> \<not> chr_in symbols (at_pos b s)")
      (auto simp: skip_word_step skip_word_stop)
qed

lemma chr_in_symbols: "chr_in symbols c \<longleftrightarrow> c \<in> set symbols"
  using strchr_mem [of symbols c] by (simp add: chr_in_def symbols_def)

lemma gettoken_pos:
  assumes "gettoken b s = (tok, q, eq, s')"
  shows "s \<le> q" "q \<le> eq" "eq \<le> s'" "s \<le> length b \<Longrightarrow> s' \<le> length b" "tok \<noteq> NUL \<Longrightarrow> q < eq"
proof -
  let ?q = "skip_space b s"
  have q: "s \<le> ?q" using skip_space_bounds by blast
  have w: "?q < skip_word b ?q" if "at_pos b ?q \<noteq> NUL" "at_pos b ?q \<notin> set symbols"
    using skip_word_step [of ?q b] skip_word_bounds [of "Suc ?q" b] at_pos_NUL [OF that(1)] skip_space_end [OF that(1)] that(2)
    by (simp add: chr_in_symbols)
  have e: "q = ?q" "s' = skip_space b eq" "?q \<le> eq" "tok \<noteq> NUL \<Longrightarrow> q < eq" "s \<le> length b \<Longrightarrow> eq \<le> length b"
    using assms w skip_word_bounds [of ?q b] skip_space_bounds [of s b] at_pos_NUL [of b ?q] at_pos_NUL [of b "Suc ?q"]
    by (auto simp: gettoken_def Let_def symbols_def split: if_splits)
  show "s \<le> q" "q \<le> eq" "tok \<noteq> NUL \<Longrightarrow> q < eq" using q e by auto
  show "eq \<le> s'" "s \<le> length b \<Longrightarrow> s' \<le> length b" using e skip_space_bounds [of eq b] by auto
qed

lemma peek_token:
  assumes "peek b ps toks = (True, s)" "gettoken b s = (tok, q, eq, s')"
  shows "tok \<noteq> NUL" "ps \<le> s" "s < s'" "s < length b"
proof -
  have s: "s = skip_space b ps" "at_pos b s \<noteq> NUL" using assms(1) by (auto simp: peek_def Let_def)
  have "skip_space b s = s" using s(1) by simp
  then show t: "tok \<noteq> NUL" using assms(2) s(2) by (auto simp: gettoken_def Let_def split: if_splits)
  show "ps \<le> s" using s(1) skip_space_bounds by simp
  show "s < s'" using gettoken_pos [OF assms(2)] t by simp
  show "s < length b" using at_pos_NUL [OF s(2)] .
qed

lemma peek_pos: "peek b ps toks = (p, s) \<Longrightarrow> ps \<le> s \<and> (ps \<le> length b \<longrightarrow> s \<le> length b)"
  using skip_space_bounds by (auto simp: peek_def Let_def)

lemma token_advance:
  assumes "(True, s) = peek b ps toks" "(tok, q, eq, s1) = gettoken b s"
  shows "length b - s1 < length b - ps" "(tok', q', eq', s2) = gettoken b s1 \<Longrightarrow> length b - s2 < length b - ps"
proof -
  note T = peek_token [OF assms(1) [symmetric] assms(2) [symmetric]]
  show "length b - s1 < length b - ps" using T by simp
  assume "(tok', q', eq', s2) = gettoken b s1"
  from gettoken_pos [OF this [symmetric]] show "length b - s2 < length b - ps" using T by simp
qed

lemma bindP_cong [fundef_cong]:
  "m = m' \<Longrightarrow> (\<And>x. m' = Done x \<Longrightarrow> f x = g x) \<Longrightarrow> bindP m f = bindP m' g"
  by (cases m') auto

lemma bindP_Done: "bindP m f = Done y \<longleftrightarrow> (\<exists>x. m = Done x \<and> f x = Done y)"
  by (cases m) auto

section \<open>The parser\<close>

function parseredirs :: "string \<Rightarrow> cmd \<Rightarrow> nat \<Rightarrow> (cmd \<times> nat) parse" where
  "parseredirs b cmd ps =
     (case peek b ps ''<>'' of (p, s) \<Rightarrow>
      if p then
        (case gettoken b s of (tok, _, _, s) \<Rightarrow>
         case gettoken b s of (kind, q, eq, s) \<Rightarrow>
           if kind \<noteq> CHR ''a'' then Syntax ''missing file for redirection''
           else
             parseredirs b
               (if tok = CHR ''<'' then redircmd cmd q eq O_RDONLY 0
                else if tok = CHR ''>'' then redircmd cmd q eq (O_WRONLY OR O_CREATE) 1
                else if tok = CHR ''+'' then redircmd cmd q eq (O_WRONLY OR O_CREATE) 1
                else cmd) s)
      else Done (cmd, s))"
  by pat_completeness auto
termination
  by (relation "measure (\<lambda>(b, cmd, ps). length b - ps)") (auto intro: token_advance)

declare parseredirs.simps [simp del]

lemma parseredirs_pos:
  "parseredirs b cmd ps = Done (c, s) \<Longrightarrow> ps \<le> s \<and> (ps \<le> length b \<longrightarrow> s \<le> length b)"
proof (induction b cmd ps rule: parseredirs.induct)
  case (1 b cmd ps)
  obtain p s1 where p: "peek b ps ''<>'' = (p, s1)" by force
  show ?case
  proof (cases p)
    case True
    obtain tok y1 y2 s2 where t: "gettoken b s1 = (tok, y1, y2, s2)" by (metis prod_cases4)
    obtain kind q eq s3 where u: "gettoken b s2 = (kind, q, eq, s3)" by (metis prod_cases4)
    show ?thesis
      using "1.IH" [OF p [symmetric] True t [symmetric] refl refl u [symmetric] refl refl]
        "1.prems" p t u True gettoken_pos [OF t] gettoken_pos [OF u] peek_pos [OF p]
      by (auto simp: parseredirs.simps [of b cmd ps] split: if_splits)
  next
    case False
    then show ?thesis using p "1.prems" peek_pos [OF p] by (simp add: parseredirs.simps [of b cmd ps])
  qed
qed

lemma args_advance:
  assumes "(p, s) = peek b ps toks" "(CHR ''a'', q, eq, s1) = gettoken b s" "parseredirs b ret s1 = Done (c, s2)"
  shows "length b - s2 < length b - ps"
proof -
  note G = gettoken_pos [OF assms(2) [symmetric]]
  have "q < length b"
    using assms(2) by (auto simp: gettoken_def Let_def split: if_splits dest: at_pos_NUL)
  moreover have "ps < s1" using peek_pos [OF assms(1) [symmetric]] G by simp
  moreover have "ps \<le> q" using peek_pos [OF assms(1) [symmetric]] G by simp
  ultimately show ?thesis using parseredirs_pos [OF assms(3)] by linarith
qed

function parse_backs :: "string \<Rightarrow> cmd \<Rightarrow> nat \<Rightarrow> cmd \<times> nat" where
  "parse_backs b cmd ps =
     (case peek b ps ''&'' of (p, s) \<Rightarrow>
      if p then (case gettoken b s of (_, _, _, s) \<Rightarrow> parse_backs b (backcmd cmd) s) else (cmd, s))"
  by pat_completeness auto
termination
  by (relation "measure (\<lambda>(b, cmd, ps). length b - ps)") (auto intro: token_advance)

declare parse_backs.simps [simp del]

text \<open>
  \<open>parseexec\<close> fills in the arguments of its \<open>execcmd\<close> through a pointer while \<open>ret\<close> already points to
  redirections around it.
\<close>

fun set_args :: "(nat \<times> nat) list \<Rightarrow> cmd \<Rightarrow> cmd" where
  "set_args args (REDIR c q eq mode fd) = REDIR (set_args args c) q eq mode fd"
| "set_args args c = EXEC args"

function parse_args :: "string \<Rightarrow> (nat \<times> nat) list \<Rightarrow> cmd \<Rightarrow> nat \<Rightarrow> (cmd \<times> nat) parse" where
  "parse_args b args ret ps =
     (case peek b ps ''|)&;'' of (p, s) \<Rightarrow>
      if p then Done (set_args args ret, s)
      else
        (case gettoken b s of (tok, q, eq, s) \<Rightarrow>
         if tok = NUL then Done (set_args args ret, s)
         else if tok \<noteq> CHR ''a'' then Syntax ''syntax''
         else if length args + 1 \<ge> MAXARGS then Syntax ''too many args''
         else bindP (parseredirs b ret s) (\<lambda>(ret, s). parse_args b (args @ [(q, eq)]) ret s)))"
  by pat_completeness auto
termination
proof (relation "measure (\<lambda>(b, args, ret, ps). length b - ps)", goal_cases)
  case 2
  then show ?case by (auto intro: args_advance)
qed simp

declare parse_args.simps [simp del]

text \<open>The recursive part. Every call spends one unit of fuel.\<close>

fun parseline :: "nat \<Rightarrow> string \<Rightarrow> nat \<Rightarrow> (cmd \<times> nat) parse"
  and parsepipe :: "nat \<Rightarrow> string \<Rightarrow> nat \<Rightarrow> (cmd \<times> nat) parse"
  and parseblock :: "nat \<Rightarrow> string \<Rightarrow> nat \<Rightarrow> (cmd \<times> nat) parse"
  and parseexec :: "nat \<Rightarrow> string \<Rightarrow> nat \<Rightarrow> (cmd \<times> nat) parse" where
  "parseline 0 b ps = NoFuel"
| "parseline (Suc n) b ps =
     bindP (parsepipe n b ps) (\<lambda>(cmd, s).
     case parse_backs b cmd s of (cmd, s) \<Rightarrow>
     case peek b s '';'' of (p, s) \<Rightarrow>
     if p then
       (case gettoken b s of (_, _, _, s) \<Rightarrow>
        bindP (parseline n b s) (\<lambda>(right, s). Done (listcmd cmd right, s)))
     else Done (cmd, s))"
| "parsepipe 0 b ps = NoFuel"
| "parsepipe (Suc n) b ps =
     bindP (parseexec n b ps) (\<lambda>(cmd, s).
     case peek b s ''|'' of (p, s) \<Rightarrow>
     if p then
       (case gettoken b s of (_, _, _, s) \<Rightarrow>
        bindP (parsepipe n b s) (\<lambda>(right, s). Done (pipecmd cmd right, s)))
     else Done (cmd, s))"
| "parseblock 0 b ps = NoFuel"
| "parseblock (Suc n) b ps =
     (case peek b ps ''('' of (p, s) \<Rightarrow>
      if \<not> p then Syntax ''parseblock''
      else
        (case gettoken b s of (_, _, _, s) \<Rightarrow>
         bindP (parseline n b s) (\<lambda>(cmd, s).
         case peek b s '')'' of (p, s) \<Rightarrow>
         if \<not> p then Syntax ''syntax - missing )''
         else (case gettoken b s of (_, _, _, s) \<Rightarrow> parseredirs b cmd s))))"
| "parseexec 0 b ps = NoFuel"
| "parseexec (Suc n) b ps =
     (case peek b ps ''('' of (p, s) \<Rightarrow>
      if p then parseblock n b s
      else bindP (parseredirs b execcmd s) (\<lambda>(ret, s). parse_args b [] ret s))"

section \<open>Well-formed commands\<close>

definition word_char :: "char \<Rightarrow> bool" where
  "word_char c \<longleftrightarrow> c \<noteq> NUL \<and> \<not> chr_in whitespace c \<and> \<not> chr_in symbols c"

text \<open>A word of the line that ends where it has to.\<close>

definition token_ok :: "string \<Rightarrow> nat \<times> nat \<Rightarrow> bool" where
  "token_ok b w \<longleftrightarrow> (case w of (q, eq) \<Rightarrow> q < eq \<and> eq \<le> length b \<and> (\<forall>i. q \<le> i \<longrightarrow> i < eq \<longrightarrow> word_char (at_pos b i))
     \<and> \<not> word_char (at_pos b eq))"

fun words :: "cmd \<Rightarrow> (nat \<times> nat) list" where
  "words (EXEC args) = args"
| "words (REDIR c q eq mode fd) = words c @ [(q, eq)]"
| "words (PIPE c d) = words c @ words d"
| "words (LIST c d) = words c @ words d"
| "words (BACK c) = words c"

definition cmd_ok :: "string \<Rightarrow> cmd \<Rightarrow> bool" where
  "cmd_ok b c \<longleftrightarrow> list_all (token_ok b) (words c)"

lemma cmd_ok_simps [simp]:
  "cmd_ok b (EXEC args) \<longleftrightarrow> list_all (token_ok b) args"
  "cmd_ok b (REDIR c q eq mode fd) \<longleftrightarrow> cmd_ok b c \<and> token_ok b (q, eq)"
  "cmd_ok b (PIPE c d) \<longleftrightarrow> cmd_ok b c \<and> cmd_ok b d"
  "cmd_ok b (LIST c d) \<longleftrightarrow> cmd_ok b c \<and> cmd_ok b d"
  "cmd_ok b (BACK c) \<longleftrightarrow> cmd_ok b c"
  by (auto simp: cmd_ok_def)

lemma skip_word_chars:
  "s \<le> i \<Longrightarrow> i < skip_word b s \<Longrightarrow> i < length b \<and> \<not> chr_in whitespace (at_pos b i) \<and> \<not> chr_in symbols (at_pos b i)"
proof (induction b s rule: skip_word.induct)
  case (1 b s)
  show ?case
  proof (cases "s < length b \<and> \<not> chr_in whitespace (at_pos b s) \<and> \<not> chr_in symbols (at_pos b s)")
    case True
    then show ?thesis using 1 by (cases "i = s") (auto simp: skip_word_step)
  next
    case False
    then show ?thesis using "1.prems" by (simp add: skip_word_stop)
  qed
qed

lemma skip_word_end:
  "skip_word b s < length b \<Longrightarrow> chr_in whitespace (at_pos b (skip_word b s)) \<or> chr_in symbols (at_pos b (skip_word b s))"
proof (induction b s rule: skip_word.induct)
  case (1 b s)
  show ?case
  proof (cases "s < length b \<and> \<not> chr_in whitespace (at_pos b s) \<and> \<not> chr_in symbols (at_pos b s)")
    case True
    then show ?thesis using 1 by (simp add: skip_word_step)
  next
    case False
    then show ?thesis using "1.prems" by (auto simp: skip_word_stop)
  qed
qed

text \<open>In a line without a NUL, a word that the lexer finds is well formed.\<close>

lemma gettoken_word:
  assumes t: "gettoken b s = (CHR ''a'', q, eq, s')" and b: "NUL \<notin> set b"
  shows "token_ok b (q, eq)"
proof -
  have e: "q = skip_space b s" "eq = skip_word b q" "at_pos b q \<noteq> NUL"
    using t by (auto simp: gettoken_def Let_def split: if_splits)
  have "eq \<le> length b" using e skip_word_bounds [of q b] at_pos_NUL [of b q] by auto
  moreover have "word_char (at_pos b i)" if "q \<le> i" "i < eq" for i
  proof -
    have i: "i < length b \<and> \<not> chr_in whitespace (at_pos b i) \<and> \<not> chr_in symbols (at_pos b i)"
      using skip_word_chars [of q i b] that e(2) by simp
    then have "b ! i \<noteq> NUL" using b nth_mem by metis
    then show ?thesis using i by (auto simp: word_char_def at_pos_def)
  qed
  moreover have "\<not> word_char (at_pos b eq)"
    using skip_word_end [of b q] e(2) by (cases "eq < length b") (auto simp: word_char_def at_pos_def)
  ultimately show ?thesis using gettoken_pos(5) [OF t] by (simp add: token_ok_def)
qed

lemma parseredirs_ok:
  "NUL \<notin> set b \<Longrightarrow> cmd_ok b cmd \<Longrightarrow> parseredirs b cmd ps = Done (c, s) \<Longrightarrow> cmd_ok b c"
proof (induction b cmd ps rule: parseredirs.induct)
  case (1 b cmd ps)
  obtain p s1 where p: "peek b ps ''<>'' = (p, s1)" by force
  show ?case
  proof (cases p)
    case True
    obtain tok y1 y2 s2 where t: "gettoken b s1 = (tok, y1, y2, s2)" by (metis prod_cases4)
    obtain kind q eq s3 where u: "gettoken b s2 = (kind, q, eq, s3)" by (metis prod_cases4)
    show ?thesis
      using "1.IH" [OF p [symmetric] True t [symmetric] refl refl u [symmetric] refl refl]
        "1.prems" p t u True gettoken_word [of b s2 q eq s3]
      by (auto simp: parseredirs.simps [of b cmd ps] split: if_splits)
  next
    case False
    then show ?thesis using p "1.prems" by (simp add: parseredirs.simps [of b cmd ps])
  qed
qed

lemma parse_backs_ok:
  "parse_backs b cmd ps = (c, s) \<Longrightarrow> (cmd_ok b cmd \<longrightarrow> cmd_ok b c) \<and> ps \<le> s \<and> (ps \<le> length b \<longrightarrow> s \<le> length b)"
proof (induction b cmd ps rule: parse_backs.induct)
  case (1 b cmd ps)
  obtain p s1 where p: "peek b ps ''&'' = (p, s1)" by force
  obtain tok y1 y2 s2 where t: "gettoken b s1 = (tok, y1, y2, s2)" by (metis prod_cases4)
  show ?case
    using "1.IH" [OF p [symmetric] _ t [symmetric] refl refl] "1.prems" p t gettoken_pos [OF t] peek_pos [OF p]
    by (cases p) (auto simp: parse_backs.simps [of b cmd ps])
qed

lemma set_args_ok: "list_all (token_ok b) args \<Longrightarrow> cmd_ok b c \<Longrightarrow> cmd_ok b (set_args args c)"
  by (induction args c rule: set_args.induct) auto

lemma parse_args_ok:
  "NUL \<notin> set b \<Longrightarrow> list_all (token_ok b) args \<Longrightarrow> cmd_ok b ret \<Longrightarrow> parse_args b args ret ps = Done (c, s) \<Longrightarrow>
     cmd_ok b c \<and> ps \<le> s \<and> (ps \<le> length b \<longrightarrow> s \<le> length b)"
proof (induction b args ret ps rule: parse_args.induct)
  case (1 b args ret ps)
  obtain p s1 where p: "peek b ps ''|)&;'' = (p, s1)" by force
  obtain tok q eq s2 where t: "gettoken b s1 = (tok, q, eq, s2)" by (metis prod_cases4)
  note pos = peek_pos [OF p] gettoken_pos [OF t]
  show ?case
  proof (cases "p \<or> tok = NUL")
    case True
    then show ?thesis using "1.prems" p t pos set_args_ok [of b args ret]
      by (cases p) (auto simp: parse_args.simps [of b args ret ps])
  next
    case False
    then obtain r s3 where r: "parseredirs b ret s2 = Done (r, s3)" "parse_args b (args @ [(q, eq)]) r s3 = Done (c, s)"
      "tok = CHR ''a''" "\<not> MAXARGS \<le> length args + 1"
      using "1.prems"(4) p t by (auto simp: parse_args.simps [of b args ret ps] bindP_Done split: if_splits)
    have "cmd_ok b r" using parseredirs_ok [OF "1.prems"(1,3) r(1)] .
    moreover have "token_ok b (q, eq)" using gettoken_word [of b s1 q eq s2] t r(3) "1.prems"(1) by simp
    ultimately have "cmd_ok b c \<and> s3 \<le> s \<and> (s3 \<le> length b \<longrightarrow> s \<le> length b)"
      using "1.IH" [OF p [symmetric] _ t [symmetric] refl refl] False r "1.prems" by auto
    then show ?thesis using pos parseredirs_pos [OF r(1)] by auto
  qed
qed

lemma parse_ok:
  assumes b: "NUL \<notin> set b"
  shows "parseline n b ps = Done (c, s) \<Longrightarrow> cmd_ok b c \<and> ps \<le> s \<and> (ps \<le> length b \<longrightarrow> s \<le> length b)"
    "parsepipe n b ps = Done (c, s) \<Longrightarrow> cmd_ok b c \<and> ps \<le> s \<and> (ps \<le> length b \<longrightarrow> s \<le> length b)"
    "parseblock n b ps = Done (c, s) \<Longrightarrow> cmd_ok b c \<and> ps \<le> s \<and> (ps \<le> length b \<longrightarrow> s \<le> length b)"
    "parseexec n b ps = Done (c, s) \<Longrightarrow> cmd_ok b c \<and> ps \<le> s \<and> (ps \<le> length b \<longrightarrow> s \<le> length b)"
proof (induction n arbitrary: ps c s)
  case (Suc n)
  {
    case 1
    then obtain c1 s1 c2 s2 p s3 where *: "parsepipe n b ps = Done (c1, s1)" "parse_backs b c1 s1 = (c2, s2)"
      "peek b s2 '';'' = (p, s3)" by (auto simp: bindP_Done) (metis surj_pair)
    obtain tok q eq s4 where t: "gettoken b s3 = (tok, q, eq, s4)" by (metis prod_cases4)
    from 1 * t show ?case
      using Suc.IH(2) [OF *(1)] parse_backs_ok [OF *(2)] peek_pos [OF *(3)] gettoken_pos [OF t] Suc.IH(1) [of s4]
      by (cases p) (fastforce simp: bindP_Done)+
  next
    case 2
    then obtain c1 s1 p s3 where *: "parseexec n b ps = Done (c1, s1)" "peek b s1 ''|'' = (p, s3)"
      by (auto simp: bindP_Done) (metis surj_pair)
    obtain tok q eq s4 where t: "gettoken b s3 = (tok, q, eq, s4)" by (metis prod_cases4)
    from 2 * t show ?case
      using Suc.IH(4) [OF *(1)] peek_pos [OF *(2)] gettoken_pos [OF t] Suc.IH(2) [of s4]
      by (cases p) (fastforce simp: bindP_Done)+
  next
    case 3
    obtain p s1 where p: "peek b ps ''('' = (p, s1)" by force
    obtain tok q eq s2 where t: "gettoken b s1 = (tok, q, eq, s2)" by (metis prod_cases4)
    from 3 p t obtain c1 s3 where l: "parseline n b s2 = Done (c1, s3)" by (auto simp: bindP_Done split: if_splits)
    obtain p' s4 where p': "peek b s3 '')'' = (p', s4)" by force
    obtain tok' q' eq' s5 where t': "gettoken b s4 = (tok', q', eq', s5)" by (metis prod_cases4)
    have r: "parseredirs b c1 s5 = Done (c, s)" using 3 p t l p' t' by (auto split: if_splits)
    show ?case
      using peek_pos [OF p] gettoken_pos [OF t] Suc.IH(1) [OF l] peek_pos [OF p'] gettoken_pos [OF t'] parseredirs_pos [OF r]
        parseredirs_ok [OF b _ r] by auto
  next
    case 4
    obtain p s1 where p: "peek b ps ''('' = (p, s1)" by force
    show ?case
    proof (cases p)
      case True
      then show ?thesis using 4 p peek_pos [OF p] Suc.IH(3) [of s1 c s] by auto
    next
      case False
      then obtain r s2 where r: "parseredirs b (EXEC []) s1 = Done (r, s2)" "parse_args b [] r s2 = Done (c, s)"
        using 4 p by (auto simp: bindP_Done)
      have "cmd_ok b r" using parseredirs_ok [OF b _ r(1)] by simp
      then show ?thesis using peek_pos [OF p] parseredirs_pos [OF r(1)] parse_args_ok [OF b _ _ r(2)] by auto
    qed
  }
qed simp_all

section \<open>Fuel\<close>

lemma parseredirs_fuel: "parseredirs b cmd ps \<noteq> NoFuel"
proof (induction b cmd ps rule: parseredirs.induct)
  case (1 b cmd ps)
  obtain p s1 where p: "peek b ps ''<>'' = (p, s1)" by force
  obtain tok y1 y2 s2 where t: "gettoken b s1 = (tok, y1, y2, s2)" by (metis prod_cases4)
  obtain kind q eq s3 where u: "gettoken b s2 = (kind, q, eq, s3)" by (metis prod_cases4)
  show ?case
    using "1.IH" [OF p [symmetric] _ t [symmetric] refl refl u [symmetric] refl refl] p t u
    by (cases p) (simp_all add: parseredirs.simps [of b cmd ps])
qed

lemma parse_args_fuel: "parse_args b args ret ps \<noteq> NoFuel"
proof (induction b args ret ps rule: parse_args.induct)
  case (1 b args ret ps)
  obtain p s1 where p: "peek b ps ''|)&;'' = (p, s1)" by force
  obtain tok q eq s2 where t: "gettoken b s1 = (tok, q, eq, s2)" by (metis prod_cases4)
  show ?case
  proof (cases "p \<or> tok = NUL \<or> tok \<noteq> CHR ''a'' \<or> MAXARGS \<le> length args + 1")
    case True
    then show ?thesis using p t by (cases p) (auto simp: parse_args.simps [of b args ret ps])
  next
    case False
    then show ?thesis
      using "1.IH" [OF p [symmetric] _ t [symmetric] refl refl] p t parseredirs_fuel [of b ret s2]
      by (cases "parseredirs b ret s2") (auto simp: parse_args.simps [of b args ret ps])
  qed
qed

lemma bindP_fuel: "bindP m f \<noteq> NoFuel \<longleftrightarrow> m \<noteq> NoFuel \<and> (\<forall>x. m = Done x \<longrightarrow> f x \<noteq> NoFuel)"
  by (cases m) auto

lemma parse_fuel:
  assumes b: "NUL \<notin> set b"
  shows "ps \<le> length b \<Longrightarrow> 4 * (length b - ps) + 3 \<le> n \<Longrightarrow> parseline n b ps \<noteq> NoFuel"
    "ps \<le> length b \<Longrightarrow> 4 * (length b - ps) + 2 \<le> n \<Longrightarrow> parsepipe n b ps \<noteq> NoFuel"
    "ps \<le> length b \<Longrightarrow> 4 * (length b - ps) \<le> n \<Longrightarrow> 0 < n \<Longrightarrow> parseblock n b ps \<noteq> NoFuel"
    "ps \<le> length b \<Longrightarrow> 4 * (length b - ps) + 1 \<le> n \<Longrightarrow> parseexec n b ps \<noteq> NoFuel"
proof (induction n arbitrary: ps)
  case (Suc n)
  {
    case 1
    have "parsepipe n b ps \<noteq> NoFuel" using 1 Suc.IH(2) by simp
    moreover have "(case parse_backs b c s of (cmd, s) \<Rightarrow> case peek b s '';'' of (p, s) \<Rightarrow>
        if p then (case gettoken b s of (_, _, _, s) \<Rightarrow> bindP (parseline n b s) (\<lambda>(right, s). Done (listcmd cmd right, s)))
        else Done (cmd, s)) \<noteq> NoFuel" if c: "parsepipe n b ps = Done (c, s)" for c s
    proof -
      obtain c2 s2 where k: "parse_backs b c s = (c2, s2)" by force
      obtain p s3 where p: "peek b s2 '';'' = (p, s3)" by force
      obtain tok q eq s4 where t: "gettoken b s3 = (tok, q, eq, s4)" by (metis prod_cases4)
      have "parseline n b s4 \<noteq> NoFuel" if p
        using that p peek_token [of b s2 "'';''" s3 tok q eq s4] t parse_backs_ok [OF k] parse_ok(2) [OF b c] gettoken_pos [OF t] 1
        by (intro Suc.IH(1)) auto
      then show ?thesis using k p t by (auto simp: bindP_fuel)
    qed
    ultimately show ?case by (simp add: bindP_fuel split_beta)
  next
    case 2
    have "parseexec n b ps \<noteq> NoFuel" using 2 Suc.IH(4) by simp
    moreover have "(case peek b s ''|'' of (p, s) \<Rightarrow>
        if p then (case gettoken b s of (_, _, _, s) \<Rightarrow> bindP (parsepipe n b s) (\<lambda>(right, s). Done (pipecmd c right, s)))
        else Done (c, s)) \<noteq> NoFuel" if c: "parseexec n b ps = Done (c, s)" for c s
    proof -
      obtain p s3 where p: "peek b s ''|'' = (p, s3)" by force
      obtain tok q eq s4 where t: "gettoken b s3 = (tok, q, eq, s4)" by (metis prod_cases4)
      have "parsepipe n b s4 \<noteq> NoFuel" if p
        using that p peek_token [of b s "''|''" s3 tok q eq s4] t parse_ok(4) [OF b c] gettoken_pos [OF t] 2
        by (intro Suc.IH(2)) auto
      then show ?thesis using p t by (auto simp: bindP_fuel)
    qed
    ultimately show ?case by (simp add: bindP_fuel split_beta)
  next
    case 3
    obtain p s1 where p: "peek b ps ''('' = (p, s1)" by force
    obtain tok q eq s2 where t: "gettoken b s1 = (tok, q, eq, s2)" by (metis prod_cases4)
    have "parseline n b s2 \<noteq> NoFuel" if p
      using that p peek_token [of b ps "''(''" s1 tok q eq s2] t gettoken_pos [OF t] 3
      by (intro Suc.IH(1)) auto
    then show ?case using p t parseredirs_fuel by (auto simp: bindP_fuel split_beta)
  next
    case 4
    obtain p s1 where p: "peek b ps ''('' = (p, s1)" by force
    obtain tok q eq s2 where t: "gettoken b s1 = (tok, q, eq, s2)" by (metis prod_cases4)
    have "parseblock n b s1 \<noteq> NoFuel" if p
      using that p peek_token [of b ps "''(''" s1 tok q eq s2] t 4 peek_pos [OF p] by (intro Suc.IH(3)) auto
    then show ?case using p parseredirs_fuel parse_args_fuel by (auto simp: bindP_fuel split_beta)
  }
qed simp_all

section \<open>Commands on the command line\<close>

definition panic :: "'w calls \<Rightarrow> string \<Rightarrow> ('w, 'a) prog" where
  "panic k s w = bindK (printf k 2 (''%s'' @ [CHR 0x0A]) [AStr (Some s)] w) (\<lambda>_ w. uexit w)"

definition fork1 :: "'w calls \<Rightarrow> ('w, int) prog" where
  "fork1 k w = bindK (c_fork k w) (\<lambda>pid w. if pid = -1 then panic k ''fork'' w else Ret pid w)"

text \<open>The string at a position of the line, up to the next NUL.\<close>

definition str_at :: "string \<Rightarrow> nat \<Rightarrow> string" where
  "str_at b q = takeWhile (\<lambda>c. c \<noteq> NUL) (drop q b)"

fun nulterminate :: "cmd \<Rightarrow> string \<Rightarrow> string" where
  "nulterminate (EXEC args) b = fold (\<lambda>(q, eq) b. b[eq := NUL]) args b"
| "nulterminate (REDIR c q eq mode fd) b = (nulterminate c b)[eq := NUL]"
| "nulterminate (PIPE c d) b = nulterminate d (nulterminate c b)"
| "nulterminate (LIST c d) b = nulterminate d (nulterminate c b)"
| "nulterminate (BACK c) b = nulterminate c b"

text \<open>
  \<open>parsecmd\<close> on a line without NULs gives the command and the line with its strings terminated. What is
  left of the line after a syntax error is printed before the panic.
\<close>

definition parsecmd :: "'w calls \<Rightarrow> string \<Rightarrow> ('w, cmd \<times> string) prog" where
  "parsecmd k b w =
     (case parseline (4 * length b + 3) b 0 of
        NoFuel \<Rightarrow> Diverge
      | Syntax msg \<Rightarrow> panic k msg w
      | Done (cmd, s) \<Rightarrow>
          (case peek b s [] of (_, s) \<Rightarrow>
           if s \<noteq> length b then
             bindK (printf k 2 (''leftovers: %s'' @ [CHR 0x0A]) [AStr (Some (drop s b))] w) (\<lambda>_ w. panic k ''syntax'' w)
           else Ret (cmd, nulterminate cmd b) w))"

text \<open>\<open>runcmd\<close> on a parsed command whose strings are in the line \<open>b\<close>. It never returns.\<close>

fun runcmd :: "'w calls \<Rightarrow> string \<Rightarrow> cmd \<Rightarrow> ('w, unit) prog" where
  "runcmd k b (EXEC args) w =
     (case args of
        [] \<Rightarrow> uexit w
      | (q, _) # _ \<Rightarrow>
          bindK (c_exec k (str_at b q) (map (\<lambda>(q, _). str_at b q) args) w) (\<lambda>_ w.
          bindK (printf k 2 (''exec %s failed'' @ [CHR 0x0A]) [AStr (Some (str_at b q))] w) (\<lambda>_ w.
          uexit w)))"
| "runcmd k b (REDIR c q eq mode fd) w =
     bindK (c_close k fd w) (\<lambda>_ w.
     bindK (c_open k (str_at b q) mode w) (\<lambda>r w.
     if r < 0 then
       bindK (printf k 2 (''open %s failed'' @ [CHR 0x0A]) [AStr (Some (str_at b q))] w) (\<lambda>_ w. uexit w)
     else bindK (runcmd k b c w) (\<lambda>_ w. uexit w)))"
| "runcmd k b (LIST l r) w =
     bindK (fork1 k w) (\<lambda>pid w.
     bindK (if pid = 0 then runcmd k b l w else Ret () w) (\<lambda>_ w.
     bindK (c_wait k w) (\<lambda>_ w.
     bindK (runcmd k b r w) (\<lambda>_ w. uexit w))))"
| "runcmd k b (PIPE l r) w =
     bindK (c_pipe k w) (\<lambda>(res, p0, p1) w.
     bindK (if res < 0 then panic k ''pipe'' w else Ret () w) (\<lambda>_ w.
     bindK (fork1 k w) (\<lambda>pid w.
     bindK (if pid = 0 then
              bindK (c_close k 1 w) (\<lambda>_ w.
              bindK (c_dup k p1 w) (\<lambda>_ w.
              bindK (c_close k p0 w) (\<lambda>_ w.
              bindK (c_close k p1 w) (\<lambda>_ w.
              runcmd k b l w))))
            else Ret () w) (\<lambda>_ w.
     bindK (fork1 k w) (\<lambda>pid w.
     bindK (if pid = 0 then
              bindK (c_close k 0 w) (\<lambda>_ w.
              bindK (c_dup k p0 w) (\<lambda>_ w.
              bindK (c_close k p0 w) (\<lambda>_ w.
              bindK (c_close k p1 w) (\<lambda>_ w.
              runcmd k b r w))))
            else Ret () w) (\<lambda>_ w.
     bindK (c_close k p0 w) (\<lambda>_ w.
     bindK (c_close k p1 w) (\<lambda>_ w.
     bindK (c_wait k w) (\<lambda>_ w.
     bindK (c_wait k w) (\<lambda>_ w. uexit w))))))))))"
| "runcmd k b (BACK c) w =
     bindK (fork1 k w) (\<lambda>pid w.
     bindK (if pid = 0 then runcmd k b c w else Ret () w) (\<lambda>_ w. uexit w))"

section \<open>The main loop\<close>

text \<open>The line without what stands behind a NUL, or \<open>None\<close> at the end of the input.\<close>

definition getcmd :: "'w calls \<Rightarrow> int \<Rightarrow> ('w, string option) prog" where
  "getcmd k nbuf w =
     bindK (printf k 2 ''$ '' [] w) (\<lambda>_ w.
     bindK (gets k nbuf w) (\<lambda>s w.
     let b = takeWhile (\<lambda>c. c \<noteq> NUL) s in Ret (if b = [] then None else Some b) w))"

fun open_console :: "nat \<Rightarrow> 'w calls \<Rightarrow> ('w, unit) prog" where
  "open_console 0 k w = Diverge"
| "open_console (Suc n) k w =
     bindK (c_open k ''console'' O_RDWR w) (\<lambda>fd w.
     if fd \<ge> 0 then
       if fd \<ge> 3 then bindK (c_close k fd w) (\<lambda>_ w. Ret () w) else open_console n k w
     else Ret () w)"

fun sh_loop :: "nat \<Rightarrow> 'w calls \<Rightarrow> ('w, unit) prog" where
  "sh_loop 0 k w = Diverge"
| "sh_loop (Suc n) k w =
     bindK (getcmd k 100 w) (\<lambda>line w.
     case line of
       None \<Rightarrow> uexit w
     | Some b \<Rightarrow>
         if take 3 b = ''cd '' then
           let dir = drop 3 (butlast b)
           in bindK (c_chdir k dir w) (\<lambda>r w.
              bindK (if r < 0 then printf k 2 (''cannot cd %s'' @ [CHR 0x0A]) [AStr (Some dir)] w else Ret () w) (\<lambda>_ w.
              sh_loop n k w))
         else
           bindK (fork1 k w) (\<lambda>pid w.
           bindK (if pid = 0 then bindK (parsecmd k b w) (\<lambda>(cmd, b) w. runcmd k b cmd w) else Ret () w) (\<lambda>_ w.
           bindK (c_wait k w) (\<lambda>_ w.
           sh_loop n k w))))"

definition sh_main :: "nat \<Rightarrow> 'w calls \<Rightarrow> ('w, unit) prog" where
  "sh_main n k w = bindK (open_console n k w) (\<lambda>_ w. sh_loop n k w)"

section \<open>What the parser promises\<close>

lemma nulterminate_words: "nulterminate c b = fold (\<lambda>(q, eq) b. b[eq := NUL]) (words c) b"
  by (induction c arbitrary: b) auto

lemma fold_NUL_length [simp]: "length (fold (\<lambda>(q, eq) b. b[eq := NUL]) ws b) = length b"
  by (induction ws arbitrary: b) auto

lemma fold_NUL:
  "i < length b \<Longrightarrow> fold (\<lambda>(q, eq) b. b[eq := NUL]) ws b ! i = (if i \<in> snd ` set ws then NUL else b ! i)"
proof (induction ws arbitrary: b)
  case (Cons w ws)
  have "fold (\<lambda>(q, eq) b. b[eq := NUL]) (w # ws) b ! i = fold (\<lambda>(q, eq) b. b[eq := NUL]) ws (b[snd w := NUL]) ! i"
    by (simp add: case_prod_beta)
  also have "\<dots> = (if i \<in> snd ` set ws then NUL else b[snd w := NUL] ! i)" using Cons by simp
  finally show ?case using Cons.prems by (auto simp: nth_list_update)
qed simp


definition sample_line :: string where
  "sample_line = ''ls>y;a|b&''"

lemma sample_parse:
  "parseline 50 sample_line 0 = Done (LIST (REDIR (EXEC [(0, 2)]) 3 4 (O_WRONLY OR O_CREATE) 1)
     (BACK (PIPE (EXEC [(5, 6)]) (EXEC [(7, 8)]))), 9)"
  unfolding sample_line_def by code_simp


text \<open>C24. The parser ends on every line: with fuel for four calls per character it gives a command or a
  syntax error.\<close>

theorem sh_parser_total:
  assumes "NUL \<notin> set b"
  shows "parseline (4 * length b + 3) b 0 \<noteq> NoFuel"
  using parse_fuel(1) [OF assms, of 0] by simp

theorem sh_parser_total_witness:
  "parseline 43 (''('' @ sample_line) 0 \<noteq> NoFuel \<and> parseline 43 (''('' @ sample_line) 0 = Syntax ''syntax - missing )''"
proof
  show "parseline 43 (''('' @ sample_line) 0 \<noteq> NoFuel"
    using sh_parser_total [of "''('' @ sample_line"] by (simp add: sample_line_def)
  show "parseline 43 (''('' @ sample_line) 0 = Syntax ''syntax - missing )''"
    unfolding sample_line_def by code_simp
qed

text \<open>\<open>runcmd\<close> never returns to its caller.\<close>

lemma on_ret_trivial [simp]: "on_ret m (\<lambda>_ _. True)"
  by (cases m) auto

lemma uexit_never_returns [simp]: "on_ret (uexit w) Q"
  by (simp add: uexit_def)

lemma runcmd_never_returns: "on_ret (runcmd k b c w) (\<lambda>_ _. False)"
  by (cases c) (simp_all add: case_prod_beta split: list.split)

end
