(* ===== verification/Xv6_Umalloc.thy ===== *)
theory Xv6_Umalloc
  imports Xv6_Ulib
begin

text \<open>
  The memory allocator of user programs (src/umalloc.c), after Kernighan and Ritchie. Memory is seen
  through the headers that stand in front of the blocks: \<open>hdrs\<close> gives the header at an address. The
  program never looks at a header otherwise than as a whole, so no bytes are needed. Free blocks form
  a circular list in the order of their addresses, which starts at the static header \<open>base\<close>; the
  position of \<open>base\<close> in memory is a parameter that the linker chooses.

  The loops of \<open>free\<close> and \<open>malloc\<close> run around the circular list. The search of \<open>free\<close> is a partial function
  and the loop of \<open>malloc\<close> has fuel; theorem \<open>malloc_free_return\<close> shows that both end. The other theorem,
  \<open>malloc_blocks_disjoint\<close>, says that a program never holds two blocks that overlap.
\<close>

section \<open>The code\<close>

record header =
  h_ptr :: u32
  h_size :: u32      \<comment> \<open>in units of a header, which has 8 bytes\<close>

record 'w ums =
  hdrs :: "u32 \<Rightarrow> header"
  freep :: u32
  base :: u32
  world :: 'w

definition upd_hdr :: "u32 \<Rightarrow> (header \<Rightarrow> header) \<Rightarrow> 'w ums \<Rightarrow> 'w ums" where
  "upd_hdr p f s = s\<lparr>hdrs := (hdrs s)(p := f (hdrs s p))\<rparr>"

text \<open>The search for the place of a block in the list.\<close>

partial_function (option) free_find :: "(u32 \<Rightarrow> header) \<Rightarrow> u32 \<Rightarrow> u32 \<Rightarrow> u32 option" where
  "free_find h bp p =
     (if bp > p \<and> bp < h_ptr (h p) then Some p
      else if p \<ge> h_ptr (h p) \<and> (bp > p \<or> bp < h_ptr (h p)) then Some p
      else free_find h bp (h_ptr (h p)))"

definition free_link :: "u32 \<Rightarrow> u32 \<Rightarrow> 'w ums \<Rightarrow> 'w ums" where
  "free_link bp p s =
     (let n = h_ptr (hdrs s p);
          s = (if bp + 8 * h_size (hdrs s bp) = n
               then upd_hdr bp (\<lambda>h. h\<lparr>h_size := h_size h + h_size (hdrs s n), h_ptr := h_ptr (hdrs s n)\<rparr>) s
               else upd_hdr bp (\<lambda>h. h\<lparr>h_ptr := n\<rparr>) s);
          s = (if p + 8 * h_size (hdrs s p) = bp
               then upd_hdr p (\<lambda>h. h\<lparr>h_size := h_size h + h_size (hdrs s bp), h_ptr := h_ptr (hdrs s bp)\<rparr>) s
               else upd_hdr p (\<lambda>h. h\<lparr>h_ptr := bp\<rparr>) s)
      in s\<lparr>freep := p\<rparr>)"

definition ufree :: "u32 \<Rightarrow> ('w ums, unit) prog" where
  "ufree ap s =
     (let bp = ap - 8
      in case free_find (hdrs s) bp (freep s) of
           None \<Rightarrow> Diverge
         | Some p \<Rightarrow> Ret () (free_link bp p s))"

definition morecore :: "'w calls \<Rightarrow> u32 \<Rightarrow> ('w ums, u32) prog" where
  "morecore k nu s =
     (let nu = (if nu < 4096 then 4096 else nu)
      in case c_sbrk k (sint (nu * 8)) (world s) of
           Ret p w \<Rightarrow>
             (let s = s\<lparr>world := w\<rparr>
              in if p = -1 then Ret 0 s
                 else bindK (ufree (p + 8) (upd_hdr p (\<lambda>h. h\<lparr>h_size := nu\<rparr>) s)) (\<lambda>_ s. Ret (freep s) s))
         | Panic m \<Rightarrow> Panic m | Undef m \<Rightarrow> Undef m | Swtch j w \<Rightarrow> Swtch j (s\<lparr>world := w\<rparr>) | Diverge \<Rightarrow> Diverge)"

text \<open>A block of at least \<open>nunits\<close> units is found at \<open>p\<close>, behind \<open>prevp\<close>.\<close>

definition take_block :: "u32 \<Rightarrow> u32 \<Rightarrow> u32 \<Rightarrow> 'w ums \<Rightarrow> u32 \<times> 'w ums" where
  "take_block nunits prevp p s =
     (if h_size (hdrs s p) = nunits
      then (p + 8, (upd_hdr prevp (\<lambda>h. h\<lparr>h_ptr := h_ptr (hdrs s p)\<rparr>) s)\<lparr>freep := prevp\<rparr>)
      else
        let s = upd_hdr p (\<lambda>h. h\<lparr>h_size := h_size h - nunits\<rparr>) s;
            p = p + 8 * h_size (hdrs s p);
            s = upd_hdr p (\<lambda>h. h\<lparr>h_size := nunits\<rparr>) s
        in (p + 8, s\<lparr>freep := prevp\<rparr>))"

fun malloc_loop :: "nat \<Rightarrow> 'w calls \<Rightarrow> u32 \<Rightarrow> u32 \<Rightarrow> u32 \<Rightarrow> ('w ums, u32) prog" where
  "malloc_loop 0 k nunits prevp p s = Diverge"
| "malloc_loop (Suc fuel) k nunits prevp p s =
     (if h_size (hdrs s p) \<ge> nunits then
        (case take_block nunits prevp p s of (r, s) \<Rightarrow> Ret r s)
      else if p = freep s then
        bindK (morecore k nunits s) (\<lambda>p s.
        if p = 0 then Ret 0 s else malloc_loop fuel k nunits p (h_ptr (hdrs s p)) s)
      else malloc_loop fuel k nunits p (h_ptr (hdrs s p)) s)"

definition malloc :: "nat \<Rightarrow> 'w calls \<Rightarrow> u32 \<Rightarrow> ('w ums, u32) prog" where
  "malloc fuel k nbytes s =
     (let nunits = (nbytes + 8 - 1) div 8 + 1;
          s = (if freep s = 0 then (upd_hdr (base s) (\<lambda>h. h\<lparr>h_ptr := base s, h_size := 0\<rparr>) s)\<lparr>freep := base s\<rparr> else s)
      in malloc_loop fuel k nunits (freep s) (h_ptr (hdrs s (freep s))) s)"

section \<open>Arithmetic on addresses\<close>

lemma unat_add_small: "unat y = n \<Longrightarrow> unat x + n < 2 ^ 32 \<Longrightarrow> unat (x + y) = unat x + n" for x y :: u32
  by (simp add: unat_word_ariths)

lemma unat_mult8: "8 * unat x < 2 ^ 32 \<Longrightarrow> unat (8 * x) = 8 * unat x" for x :: u32
  using unat_mult_lem [of "8 :: u32" x] by simp

section \<open>The circular list\<close>

fun path :: "(u32 \<Rightarrow> header) \<Rightarrow> u32 \<Rightarrow> u32 list \<Rightarrow> u32 \<Rightarrow> bool" where
  "path h x [] y \<longleftrightarrow> x = y"
| "path h x (a # as) y \<longleftrightarrow> x = a \<and> path h (h_ptr (h a)) as y"

lemma path_append [simp]: "path h x (as @ bs) y \<longleftrightarrow> (\<exists>z. path h x as z \<and> path h z bs y)"
  by (induction as arbitrary: x) auto

lemma path_upd [simp]: "a \<notin> set as \<Longrightarrow> path (h(a := v)) x as y = path h x as y"
  by (induction as arbitrary: x) auto

lemma path_start: "path h x as y \<Longrightarrow> x = hd (as @ [y])"
  by (cases as) auto

text \<open>The end of a block; the static header itself takes one unit.\<close>

definition fend :: "(u32 \<Rightarrow> header) \<Rightarrow> u32 \<Rightarrow> u32 \<Rightarrow> nat" where
  "fend h b a = unat a + 8 * (if a = b then 1 else unat (h_size (h a)))"

definition list_ok :: "nat \<Rightarrow> (u32 \<Rightarrow> header) \<Rightarrow> u32 \<Rightarrow> u32 list \<Rightarrow> bool" where
  "list_ok lim h b L \<longleftrightarrow> path h b L b \<and> L \<noteq> [] \<and> sorted_wrt (\<lambda>a c. fend h b a \<le> unat c) L
     \<and> (\<forall>a \<in> set L. fend h b a \<le> lim \<and> (h_size (h a) = 0 \<longleftrightarrow> a = b)) \<and> lim \<le> 2 ^ 31 \<and> 0 < unat b"

definition free_bytes :: "(u32 \<Rightarrow> header) \<Rightarrow> u32 \<Rightarrow> u32 list \<Rightarrow> nat set" where
  "free_bytes h b L = (\<Union>a \<in> set L - {b}. {unat a ..< fend h b a})"

lemma fend_gt: "h_size (h a) = 0 \<longleftrightarrow> a = b \<Longrightarrow> unat a < fend h b a"
  by (auto simp: fend_def unat_gt_0)

lemma list_ok_hd: "list_ok lim h b L \<Longrightarrow> \<exists>ys. L = b # ys"
  by (cases L) (auto simp: list_ok_def)

lemma list_ok_split:
  assumes "list_ok lim h b (us @ t # vs)"
  shows "path h b us t" "path h (h_ptr (h t)) vs b" "h_ptr (h t) = hd (vs @ [b])"
    "\<And>x. x \<in> set us \<Longrightarrow> fend h b x \<le> unat t" "\<And>y. y \<in> set vs \<Longrightarrow> fend h b t \<le> unat y"
    "\<And>x y. x \<in> set us \<Longrightarrow> y \<in> set vs \<Longrightarrow> fend h b x \<le> unat y"
    "t \<notin> set us" "t \<notin> set vs" "set us \<inter> set vs = {}" "us \<noteq> [] \<Longrightarrow> hd us = b" "us = [] \<Longrightarrow> t = b"
proof -
  show "path h b us t" and v: "path h (h_ptr (h t)) vs b" using assms by (auto simp: list_ok_def)
  then show "us \<noteq> [] \<Longrightarrow> hd us = b" "us = [] \<Longrightarrow> t = b" by (cases us; auto)+
  show "h_ptr (h t) = hd (vs @ [b])" using path_start [OF v] .
  show o1: "\<And>x. x \<in> set us \<Longrightarrow> fend h b x \<le> unat t" and o2: "\<And>y. y \<in> set vs \<Longrightarrow> fend h b t \<le> unat y"
    and o3: "\<And>x y. x \<in> set us \<Longrightarrow> y \<in> set vs \<Longrightarrow> fend h b x \<le> unat y"
    using assms by (auto simp: list_ok_def sorted_wrt_append)
  have gt: "\<And>a. a \<in> set (us @ t # vs) \<Longrightarrow> unat a < fend h b a" using assms fend_gt by (fastforce simp: list_ok_def)
  show "t \<notin> set us" using o1 [of t] gt [of t] by fastforce
  show "t \<notin> set vs" using o2 [of t] gt [of t] by fastforce
  show "set us \<inter> set vs = {}" using o3 gt by (fastforce simp: disjoint_iff)
qed

lemma list_okD:
  assumes "list_ok lim h b L" "a \<in> set L"
  shows "fend h b a \<le> lim" "h_size (h a) = 0 \<longleftrightarrow> a = b" "lim \<le> 2 ^ 31" "unat a < fend h b a" "unat b \<le> unat a"
proof -
  show "fend h b a \<le> lim" and z: "h_size (h a) = 0 \<longleftrightarrow> a = b" and "lim \<le> 2 ^ 31" using assms by (auto simp: list_ok_def)
  show "unat a < fend h b a" using fend_gt z by blast
  obtain ys where "L = [] @ b # ys" using list_ok_hd [OF assms(1)] by auto
  then show "unat b \<le> unat a" using list_ok_split(5) [of lim h b "[]" b ys a] assms fend_gt [of h b b]
    by (auto simp: list_ok_def fend_def)
qed

section \<open>Finding the place of a block\<close>

definition stops :: "(u32 \<Rightarrow> header) \<Rightarrow> u32 \<Rightarrow> u32 \<Rightarrow> bool" where
  "stops h bp p \<longleftrightarrow> bp > p \<and> bp < h_ptr (h p) \<or> p \<ge> h_ptr (h p) \<and> (bp > p \<or> bp < h_ptr (h p))"

lemma free_find_walk:
  "path h p ms t \<Longrightarrow> \<forall>x \<in> set ms. \<not> stops h bp x \<Longrightarrow> stops h bp t \<Longrightarrow> free_find h bp p = Some t"
proof (induction ms arbitrary: p)
  case Nil
  then show ?case by (subst free_find.simps) (auto simp: stops_def)
next
  case (Cons a ms)
  then have "\<not> stops h bp p" "free_find h bp (h_ptr (h p)) = Some t" by auto
  then show ?case by (subst free_find.simps) (auto simp: stops_def)
qed

lemma stops_iff:
  assumes L: "list_ok lim h b (us @ t # vs)" and bp: "unat b < unat bp" "bp \<notin> set (us @ t # vs)"
  shows "stops h bp t \<longleftrightarrow> t < bp \<and> (\<forall>y \<in> set vs. bp < y)"
proof (cases vs)
  case Nil
  then have "h_ptr (h t) = b" "unat b \<le> unat t" using list_ok_split(3) [OF L] list_okD(5) [OF L, of t] by auto
  then show ?thesis using bp Nil by (auto simp: stops_def word_less_nat_alt word_le_nat_alt)
next
  case (Cons y ys)
  have p: "h_ptr (h t) = y" using list_ok_split(3) [OF L] Cons by simp
  have "unat t < fend h b t" "fend h b t \<le> unat y"
    using list_okD(4) [OF L, of t] list_ok_split(5) [OF L, of y] Cons by auto
  moreover have "unat y \<le> unat z" if "z \<in> set vs" for z
  proof -
    have L': "list_ok lim h b ((us @ [t]) @ y # ys)" using L Cons by simp
    show ?thesis using that Cons list_ok_split(5) [OF L', of z] list_okD(4) [OF L', of y] by auto
  qed
  ultimately show ?thesis using bp p Cons by (fastforce simp: stops_def word_less_nat_alt word_le_nat_alt)
qed

text \<open>A block that may be put on the list: behind the static header, below the limit, free of other blocks.\<close>

definition fits :: "nat \<Rightarrow> (u32 \<Rightarrow> header) \<Rightarrow> u32 \<Rightarrow> u32 list \<Rightarrow> u32 \<Rightarrow> bool" where
  "fits lim h b L bp \<longleftrightarrow> unat b + 8 \<le> unat bp \<and> h_size (h bp) \<noteq> 0 \<and> fend h b bp \<le> lim
     \<and> {unat bp ..< fend h b bp} \<inter> free_bytes h b L = {}"

lemma interval_disjoint: "{a ..< b} \<inter> {c ..< d} = {} \<Longrightarrow> a < b \<Longrightarrow> c < d \<Longrightarrow> b \<le> c \<or> d \<le> a" for a b c d :: nat
  by (metis IntI atLeastLessThan_iff empty_iff le_cases not_le order_refl)

lemma fits_order:
  assumes L: "list_ok lim h b L" and f: "fits lim h b L bp"
  shows "bp \<notin> set L" "\<And>x. x \<in> set L \<Longrightarrow> x < bp \<Longrightarrow> fend h b x \<le> unat bp"
    "\<And>y. y \<in> set L \<Longrightarrow> bp < y \<Longrightarrow> fend h b bp \<le> unat y"
proof -
  have b: "bp \<noteq> b" "unat bp < fend h b bp" using f by (auto simp: fits_def fend_def unat_gt_0)
  have dis: "fend h b bp \<le> unat x \<or> fend h b x \<le> unat bp" if "x \<in> set L" "x \<noteq> b" for x
  proof -
    have "{unat bp ..< fend h b bp} \<inter> {unat x ..< fend h b x} = {}"
      using f that unfolding fits_def free_bytes_def by blast
    then show ?thesis using interval_disjoint b(2) list_okD(4) [OF L that(1)] by blast
  qed
  show "bp \<notin> set L" using dis [of bp] b by fastforce
  show "fend h b x \<le> unat bp" if "x \<in> set L" "x < bp" for x
    using dis [OF that(1)] that f b(2) by (cases "x = b") (auto simp: fits_def fend_def word_less_nat_alt)
  show "fend h b bp \<le> unat y" if "y \<in> set L" "bp < y" for y
    using dis [OF that(1)] that f list_okD(4) [OF L that(1)] by (cases "y = b") (auto simp: fits_def word_less_nat_alt)
qed

lemma list_split_at:
  fixes bp :: u32
  assumes L: "list_ok lim h b L" and f: "fits lim h b L bp"
  obtains us t vs where "L = us @ t # vs" "t < bp" "\<And>x. x \<in> set us \<Longrightarrow> x < bp" "\<And>y. y \<in> set vs \<Longrightarrow> bp < y"
proof -
  have "b \<in> set L" "b < bp" using list_ok_hd [OF L] f by (auto simp: fits_def word_less_nat_alt)
  then have "\<exists>x \<in> set L. x < bp" by blast
  from split_list_last_prop [OF this] obtain us t vs where s: "L = us @ t # vs" "t < bp" "\<forall>y \<in> set vs. \<not> y < bp" by auto
  have "x < bp" if "x \<in> set us" for x
  proof -
    have "fend h b x \<le> unat t" "unat x < fend h b x"
      using list_ok_split(4) [OF L [unfolded s(1)] that] list_okD(4) [OF L, of x] s(1) that by auto
    then show ?thesis using s(2) by (simp add: word_less_nat_alt)
  qed
  moreover have "bp < y" if "y \<in> set vs" for y
    using s that fits_order(1) [OF L f] by (metis in_set_conv_decomp linorder_less_linear list.set_intros(2) Un_iff set_append)
  ultimately show ?thesis using that s by blast
qed

lemma free_find_place:
  assumes L: "list_ok lim h b (us @ t # vs)" and bp: "unat b < unat bp" "bp \<notin> set (us @ t # vs)"
    and o: "t < bp" "\<And>x. x \<in> set us \<Longrightarrow> x < bp" "\<And>y. y \<in> set vs \<Longrightarrow> bp < y" and p: "p \<in> set (us @ t # vs)"
  shows "free_find h bp p = Some t"
proof -
  have t: "stops h bp t" using stops_iff [OF L bp] o by blast
  have no: "\<not> stops h bp x" if "x \<in> set us \<union> set vs" for x
  proof (cases "x \<in> set us")
    case True
    then obtain u1 u2 where u: "us = u1 @ x # u2" by (meson split_list)
    have "list_ok lim h b (u1 @ x # (u2 @ t # vs))" "bp \<notin> set (u1 @ x # (u2 @ t # vs))" using L bp(2) u by simp_all
    from stops_iff [OF this(1) bp(1) this(2)] have "stops h bp x \<Longrightarrow> bp < t" by simp
    then show ?thesis using o(1) by auto
  next
    case False
    then have x: "x \<in> set vs" using that by simp
    then obtain v1 v2 where v: "vs = v1 @ x # v2" by (meson split_list)
    have "list_ok lim h b ((us @ t # v1) @ x # v2)" "bp \<notin> set ((us @ t # v1) @ x # v2)" using L bp(2) v by simp_all
    from stops_iff [OF this(1) bp(1) this(2)] have "stops h bp x \<Longrightarrow> x < bp" by simp
    then show ?thesis using o(3) [OF x] by auto
  qed
  have "\<exists>ms. path h p ms t \<and> set ms \<subseteq> set us \<union> set vs"
  proof -
    consider u1 u2 where "us = u1 @ p # u2" | "p = t" | v1 v2 where "vs = v1 @ p # v2"
      using p by (auto dest: split_list)
    then show ?thesis
    proof cases
      case (1 u1 u2)
      then have "path h p (p # u2) t" using list_ok_split(1) [OF L] by auto
      then show ?thesis using 1 by (intro exI [of _ "p # u2"]) auto
    next
      case 2
      then show ?thesis by (intro exI [of _ "[]"]) simp
    next
      case (3 v1 v2)
      then have "path h p ((p # v2) @ us) t" using list_ok_split(1,2) [OF L] by auto
      then show ?thesis using 3 by (intro exI [of _ "(p # v2) @ us"]) auto
    qed
  qed
  then show ?thesis using free_find_walk [of h p _ t bp] no t by blast
qed

section \<open>Linking and merging\<close>

lemma fend_upd:
  "h_size v = h_size (h a) \<Longrightarrow> fend (h(a := v)) b x = fend h b x"
  "x \<noteq> a \<Longrightarrow> fend (h(a := v)) b x = fend h b x"
  by (auto simp: fend_def)

lemma link_ok:
  assumes L: "list_ok lim h b (us @ t # vs)" and f: "fits lim h b (us @ t # vs) bp"
    and o: "t < bp" "\<And>x. x \<in> set us \<Longrightarrow> x < bp" "\<And>y. y \<in> set vs \<Longrightarrow> bp < y"
  defines "h' \<equiv> h(bp := (h bp)\<lparr>h_ptr := hd (vs @ [b])\<rparr>, t := (h t)\<lparr>h_ptr := bp\<rparr>)"
  shows "list_ok lim h' b (us @ t # bp # vs)"
    "free_bytes h' b (us @ t # bp # vs) = free_bytes h b (us @ t # vs) \<union> {unat bp ..< fend h b bp}"
proof -
  note S = list_ok_split [OF L] and O = fits_order [OF L f]
  have bt: "bp \<noteq> t" "bp \<notin> set us" "bp \<notin> set vs" "bp \<noteq> b" using O(1) f by (auto simp: fits_def)
  have fe: "fend h' b x = fend h b x" "h_size (h' x) = h_size (h x)" for x
    using bt by (auto simp: h'_def fend_def)
  have "path h b us t" "path h (hd (vs @ [b])) vs b" using S(1,2,3) by auto
  then have "path h' b (us @ t # bp # vs) b" using S(7,8) bt by (auto simp: h'_def)
  moreover have "sorted_wrt (\<lambda>a c. fend h' b a \<le> unat c) (us @ t # bp # vs)"
    using L O o unfolding list_ok_def fe by (auto simp: sorted_wrt_append)
  moreover have "fend h b bp \<le> lim" "h_size (h bp) \<noteq> 0" using f by (auto simp: fits_def)
  ultimately show "list_ok lim h' b (us @ t # bp # vs)"
    using L bt(4) unfolding list_ok_def fe by auto
  show "free_bytes h' b (us @ t # bp # vs) = free_bytes h b (us @ t # vs) \<union> {unat bp ..< fend h b bp}"
    using bt(4) unfolding free_bytes_def fe by auto
qed

lemma merge_ok:
  assumes L: "list_ok lim h b (us @ a # c # vs)" and e: "a + 8 * h_size (h a) = c" "a \<noteq> b"
  defines "h' \<equiv> h(a := (h a)\<lparr>h_size := h_size (h a) + h_size (h c), h_ptr := h_ptr (h c)\<rparr>)"
  shows "list_ok lim h' b (us @ a # vs)" "free_bytes h' b (us @ a # vs) = free_bytes h b (us @ a # c # vs)"
    "fend h' b a = fend h b c"
proof -
  have Lc: "list_ok lim h b ((us @ [a]) @ c # vs)" using L by simp
  note A = list_ok_split [OF L] and C = list_ok_split [OF Lc]
  have cb: "c \<noteq> b"
  proof
    assume "c = b"
    then show False using list_okD(4,5) [OF L, of a] A(5) [of c] by auto
  qed
  have za: "h_size (h a) \<noteq> 0" "h_size (h c) \<noteq> 0" using list_okD(2) [OF L, of a] list_okD(2) [OF L, of c] e(2) cb by auto
  have lim: "fend h b c \<le> lim" "lim \<le> 2 ^ 31" "fend h b a \<le> unat c" using list_okD(1,3) [OF L, of c] A(5) [of c] by auto
  have "unat (8 * h_size (h a)) = 8 * unat (h_size (h a))"
    using lim list_okD(1) [OF L, of a] e(2) by (intro unat_mult8) (auto simp: fend_def)
  then have ua: "unat c = unat a + 8 * unat (h_size (h a))"
    unfolding e(1) [symmetric] using lim list_okD(1) [OF L, of a] e(2) by (intro unat_add_small) (auto simp: fend_def)
  have us: "unat (h_size (h a) + h_size (h c)) = unat (h_size (h a)) + unat (h_size (h c))"
    using lim ua e(2) cb by (intro unat_add_small refl) (auto simp: fend_def)
  show fa: "fend h' b a = fend h b c" using e(2) cb us ua by (simp add: h'_def fend_def)
  have "0 < unat (h_size (h' a))" using us za(1) by (simp add: h'_def unat_gt_0)
  then have fz: "h_size (h' a) \<noteq> 0" by auto
  have fx: "fend h' b x = fend h b x" "h_size (h' x) = h_size (h x)" if "x \<noteq> a" for x
    using that by (auto simp: h'_def fend_def)
  have na: "a \<notin> set us" "a \<notin> set vs" "c \<notin> set us" "c \<notin> set vs" "a \<noteq> c" using A C by auto
  have "path h' b (us @ a # vs) b" using A(1,2) na by (auto simp: h'_def)
  moreover have "sorted_wrt (\<lambda>x y. fend h' b x \<le> unat y) zs"
    if "sorted_wrt (\<lambda>x y. fend h b x \<le> unat y) zs" "a \<notin> set zs" for zs
    by (rule sorted_wrt_mono_rel [OF _ that(1)]) (use that(2) fx(1) in metis)
  then have "sorted_wrt (\<lambda>x y. fend h' b x \<le> unat y) us" "sorted_wrt (\<lambda>x y. fend h' b x \<le> unat y) vs"
    using L na by (auto simp: list_ok_def sorted_wrt_append)
  moreover have "\<forall>x \<in> set us. fend h' b x \<le> unat a \<and> (\<forall>y \<in> set vs. fend h' b x \<le> unat y)"
    using A(4,6) fx(1) na by (metis UnCI list.set_intros(2))
  moreover have "\<forall>y \<in> set vs. fend h' b a \<le> unat y" using C(5) fa by auto
  moreover have "fend h' b x \<le> lim \<and> (h_size (h' x) = 0 \<longleftrightarrow> x = b)" if "x \<in> set (us @ a # vs)" for x
    using fa fz lim(1) e(2) fx [of x] list_okD(1,2) [OF L, of x] that by (cases "x = a") auto
  ultimately show "list_ok lim h' b (us @ a # vs)" using L by (auto simp: list_ok_def sorted_wrt_append)
  have "{unat a ..< fend h' b a} = {unat a ..< fend h b a} \<union> {unat c ..< fend h b c}"
    using fa ua list_okD(4) [OF L, of c] e(2) by (auto simp: fend_def)
  moreover have "(\<Union>x \<in> (set us \<union> set vs) - {b}. {unat x ..< fend h' b x}) = (\<Union>x \<in> (set us \<union> set vs) - {b}. {unat x ..< fend h b x})"
  proof (intro SUP_cong refl)
    fix x
    assume "x \<in> (set us \<union> set vs) - {b}"
    then have "x \<noteq> a" using na by auto
    then show "{unat x ..< fend h' b x} = {unat x ..< fend h b x}" using fx(1) by simp
  qed
  ultimately show "free_bytes h' b (us @ a # vs) = free_bytes h b (us @ a # c # vs)"
    using e(2) cb by (simp add: free_bytes_def insert_Diff_if Un_ac)
qed

section \<open>\<open>free\<close>\<close>

lemma upd_hdr_sel [simp]:
  "hdrs (upd_hdr p f s) = (hdrs s)(p := f (hdrs s p))" "freep (upd_hdr p f s) = freep s"
  "base (upd_hdr p f s) = base s" "world (upd_hdr p f s) = world s"
  by (simp_all add: upd_hdr_def)

lemma free_link_sel [simp]:
  "freep (free_link bp p s) = p" "base (free_link bp p s) = base s" "world (free_link bp p s) = world s"
  by (simp_all add: free_link_def Let_def)

lemma free_link_other: "a \<noteq> bp \<Longrightarrow> a \<noteq> p \<Longrightarrow> hdrs (free_link bp p s) a = hdrs s a"
  by (simp add: free_link_def Let_def)

text \<open>The first half of the linking: the block takes in its upper neighbour, or points to it.\<close>

definition joined_up :: "(u32 \<Rightarrow> header) \<Rightarrow> u32 \<Rightarrow> u32 \<Rightarrow> header" where
  "joined_up h bp n =
     (if bp + 8 * h_size (h bp) = n then (h bp)\<lparr>h_size := h_size (h bp) + h_size (h n), h_ptr := h_ptr (h n)\<rparr>
      else (h bp)\<lparr>h_ptr := n\<rparr>)"

lemma link_up_ok:
  assumes L: "list_ok lim h b (us @ t # vs)" and f: "fits lim h b (us @ t # vs) bp"
    and o: "t < bp" "\<And>x. x \<in> set us \<Longrightarrow> x < bp" "\<And>y. y \<in> set vs \<Longrightarrow> bp < y"
  defines "h' \<equiv> h(bp := joined_up h bp (h_ptr (h t)), t := (h t)\<lparr>h_ptr := bp\<rparr>)"
  shows "\<exists>vs1. list_ok lim h' b (us @ t # bp # vs1)
    \<and> free_bytes h' b (us @ t # bp # vs1) = free_bytes h b (us @ t # vs) \<union> {unat bp ..< fend h b bp}
    \<and> fend h b bp \<le> fend h' b bp \<and> length vs1 \<le> length vs"
proof -
  let ?n = "h_ptr (h t)"
  define h1 where "h1 = h(bp := (h bp)\<lparr>h_ptr := hd (vs @ [b])\<rparr>, t := (h t)\<lparr>h_ptr := bp\<rparr>)"
  note l1 = link_ok [OF L f o, folded h1_def]
  have n: "?n = hd (vs @ [b])" using list_ok_split(3) [OF L] .
  have fe: "fend h1 b x = fend h b x" for x by (simp add: h1_def fend_def)
  have ne: "bp \<noteq> t" "bp \<noteq> b" "bp \<notin> set vs" "t \<notin> set vs"
    using fits_order(1) [OF L f] f list_ok_split(8) [OF L] by (auto simp: fits_def)
  show ?thesis
  proof (cases "bp + 8 * h_size (h bp) = ?n")
    case True
    have "vs \<noteq> []"
    proof
      assume "vs = []"
      then have "bp + 8 * h_size (h bp) = b" using True n by simp
      moreover have "unat (bp + 8 * h_size (h bp)) = unat bp + 8 * unat (h_size (h bp))"
        using f ne(2) list_okD(3) [OF L, of t] by (intro unat_add_small unat_mult8) (auto simp: fits_def fend_def)
      ultimately show False using f by (auto simp: fits_def)
    qed
    then obtain vs1 where vs: "vs = ?n # vs1" using n by (cases vs) auto
    have nv: "?n \<in> set vs" by (subst vs) simp
    then have nn: "?n \<noteq> bp" "?n \<noteq> t" using ne by auto
    have "fend h b bp \<le> unat ?n" "unat ?n < fend h b ?n"
      using fits_order(3) [OF L f] o(3) nv list_okD(4) [OF L] by auto
    then have le: "fend h b bp \<le> fend h1 b ?n" using fe by simp
    have "list_ok lim h1 b ((us @ [t]) @ bp # ?n # vs1)" using l1(1) vs by simp
    moreover have "bp + 8 * h_size (h1 bp) = ?n" using True ne by (simp add: h1_def)
    moreover have "h' = h1(bp := (h1 bp)\<lparr>h_size := h_size (h1 bp) + h_size (h1 ?n), h_ptr := h_ptr (h1 ?n)\<rparr>)"
      unfolding h'_def h1_def joined_up_def using True ne nn by (auto simp: fun_eq_iff)
    ultimately show ?thesis using merge_ok [of lim h1 b "us @ [t]" bp ?n vs1] l1(2) vs ne(2) le
      by (intro exI [of _ vs1]) simp
  next
    case False
    then have "h' = h1" unfolding h'_def h1_def joined_up_def n by simp
    then show ?thesis using l1 fe by (intro exI [of _ vs]) simp
  qed
qed

lemma free_link_ok:
  assumes L: "list_ok lim (hdrs s) (base s) (us @ t # vs)" and f: "fits lim (hdrs s) (base s) (us @ t # vs) bp"
    and o: "t < bp" "\<And>x. x \<in> set us \<Longrightarrow> x < bp" "\<And>y. y \<in> set vs \<Longrightarrow> bp < y"
  shows "\<exists>vs'. list_ok lim (hdrs (free_link bp t s)) (base s) (us @ t # vs')
    \<and> free_bytes (hdrs (free_link bp t s)) (base s) (us @ t # vs')
      = free_bytes (hdrs s) (base s) (us @ t # vs) \<union> {unat bp ..< fend (hdrs s) (base s) bp}
    \<and> (\<exists>a \<in> set (us @ t # vs'). unat a \<le> unat bp \<and> fend (hdrs s) (base s) bp \<le> fend (hdrs (free_link bp t s)) (base s) a)
    \<and> length vs' \<le> Suc (length vs)"
proof -
  let ?h = "hdrs s" and ?b = "base s"
  define h1 where "h1 = ?h(bp := joined_up ?h bp (h_ptr (?h t)), t := (?h t)\<lparr>h_ptr := bp\<rparr>)"
  obtain vs1 where l1: "list_ok lim h1 ?b (us @ t # bp # vs1)"
    "free_bytes h1 ?b (us @ t # bp # vs1) = free_bytes ?h ?b (us @ t # vs) \<union> {unat bp ..< fend ?h ?b bp}"
    "fend ?h ?b bp \<le> fend h1 ?b bp" "length vs1 \<le> length vs"
    using link_up_ok [OF L f o, folded h1_def] by auto
  have ne: "bp \<noteq> t" "bp \<noteq> ?b" using o(1) f by (auto simp: fits_def)
  have eq: "hdrs (free_link bp t s) = (if t + 8 * h_size (h1 t) = bp
      then h1(t := (h1 t)\<lparr>h_size := h_size (h1 t) + h_size (h1 bp), h_ptr := h_ptr (h1 bp)\<rparr>) else h1)"
    using ne by (auto simp: free_link_def Let_def h1_def joined_up_def fun_eq_iff)
  show ?thesis
  proof (cases "t + 8 * h_size (h1 t) = bp")
    case True
    have "t \<noteq> ?b" using True ne list_okD(2) [OF l1(1), of t] by auto
    have le: "unat t \<le> unat bp" using o(1) by (simp add: word_less_nat_alt)
    show ?thesis using merge_ok [OF l1(1) True \<open>t \<noteq> ?b\<close>] l1(2-4) True le unfolding eq
      by (intro exI [of _ vs1]) auto
  next
    case False
    then show ?thesis using l1 unfolding eq by (intro exI [of _ "bp # vs1"]) auto
  qed
qed

lemma ufree_ok:
  assumes L: "list_ok lim (hdrs s) (base s) L" and p: "freep s \<in> set L" and f: "fits lim (hdrs s) (base s) L bp"
  shows "returns (ufree (bp + 8) s) (\<lambda>_ t. \<exists>L'. list_ok lim (hdrs t) (base s) L' \<and> freep t \<in> set L'
    \<and> base t = base s \<and> world t = world s
    \<and> free_bytes (hdrs t) (base s) L' = free_bytes (hdrs s) (base s) L \<union> {unat bp ..< fend (hdrs s) (base s) bp}
    \<and> (\<forall>a. a \<notin> set L \<longrightarrow> a \<noteq> bp \<longrightarrow> hdrs t a = hdrs s a)
    \<and> (\<exists>a \<in> set L'. unat a \<le> unat bp \<and> fend (hdrs s) (base s) bp \<le> fend (hdrs t) (base s) a) \<and> length L' \<le> Suc (length L))"
proof -
  obtain us t vs where s: "L = us @ t # vs" "t < bp" "\<And>x. x \<in> set us \<Longrightarrow> x < bp" "\<And>y. y \<in> set vs \<Longrightarrow> bp < y"
    using list_split_at [OF L f] by blast
  have "unat (base s) < unat bp" using f by (simp add: fits_def)
  then have "free_find (hdrs s) bp (freep s) = Some t"
    using free_find_place [of lim "hdrs s" "base s" us t vs bp] L fits_order(1) [OF L f] s p by simp
  moreover obtain vs' where "list_ok lim (hdrs (free_link bp t s)) (base s) (us @ t # vs')"
    "free_bytes (hdrs (free_link bp t s)) (base s) (us @ t # vs')
      = free_bytes (hdrs s) (base s) L \<union> {unat bp ..< fend (hdrs s) (base s) bp}"
    "\<exists>a \<in> set (us @ t # vs'). unat a \<le> unat bp \<and> fend (hdrs s) (base s) bp \<le> fend (hdrs (free_link bp t s)) (base s) a"
    "length vs' \<le> Suc (length vs)"
    using free_link_ok [of lim s us t vs bp] L f s by auto
  ultimately show ?thesis using free_link_other [of _ bp t s] s(1)
    by (simp add: ufree_def) (intro exI [of _ "us @ t # vs'"], auto)
qed

section \<open>\<open>malloc\<close>\<close>

text \<open>
  What the allocator relies on of \<open>sbrk\<close>: it refuses, or it returns the old end of the memory of the
  process and moves the end up by the number of bytes asked for; user memory ends below 2 GB.
\<close>

definition sbrk_ok :: "'w calls \<Rightarrow> ('w \<Rightarrow> nat) \<Rightarrow> bool" where
  "sbrk_ok k brk \<longleftrightarrow> (\<forall>w n. 0 < n \<longrightarrow> returns (c_sbrk k n w) (\<lambda>p w'. p = -1 \<and> brk w' = brk w
     \<or> p = of_nat (brk w) \<and> int (brk w') = int (brk w) + n \<and> brk w' \<le> 2 ^ 31))"

text \<open>A call of \<open>sbrk\<close> was refused.\<close>

definition refused_sbrk :: "'w calls \<Rightarrow> 'w \<Rightarrow> 'w \<Rightarrow> bool" where
  "refused_sbrk k w w' \<longleftrightarrow> (\<exists>n > 0. c_sbrk k n w = Ret (-1) w')"

definition mem_ok :: "('w \<Rightarrow> nat) \<Rightarrow> 'w ums \<Rightarrow> u32 list \<Rightarrow> bool" where
  "mem_ok brk s L \<longleftrightarrow> list_ok (brk (world s)) (hdrs s) (base s) L \<and> freep s \<in> set L"

definition free_of :: "'w ums \<Rightarrow> u32 list \<Rightarrow> nat set" where
  "free_of s L = free_bytes (hdrs s) (base s) L"

lemma list_ok_mono: "list_ok lim h b L \<Longrightarrow> lim \<le> lim' \<Longrightarrow> lim' \<le> 2 ^ 31 \<Longrightarrow> list_ok lim' h b L"
  by (auto simp: list_ok_def)

lemma list_ok_cong:
  assumes "list_ok lim h b L" "\<And>x. x \<in> set L \<Longrightarrow> h' x = h x"
  shows "list_ok lim h' b L" "free_bytes h' b L = free_bytes h b L"
proof -
  have e: "fend h' b x = fend h b x" if "x \<in> set L" for x using assms(2) [OF that] by (simp add: fend_def)
  have p: "path h' x xs y \<longleftrightarrow> path h x xs y" if "set xs \<subseteq> set L" for x xs y
    using that assms(2) by (induction xs arbitrary: x) auto
  have "sorted_wrt (\<lambda>x y. fend h b x \<le> unat y) L" using assms by (simp add: list_ok_def)
  then have "sorted_wrt (\<lambda>x y. fend h' b x \<le> unat y) L" by (rule sorted_wrt_mono_rel [rotated]) (simp add: e)
  then show "list_ok lim h' b L" using assms e p [OF order_refl] unfolding list_ok_def by simp
  show "free_bytes h' b L = free_bytes h b L" unfolding free_bytes_def using e by (intro SUP_cong) auto
qed

lemma list_ok_upd:
  assumes "list_ok lim h b L" "a \<notin> set L"
  shows "list_ok lim (h(a := v)) b L" "free_bytes (h(a := v)) b L = free_bytes h b L"
proof -
  have "(h(a := v)) x = h x" if "x \<in> set L" for x using that assms(2) by auto
  from list_ok_cong [OF assms(1) this]
  show "list_ok lim (h(a := v)) b L" "free_bytes (h(a := v)) b L = free_bytes h b L" by blast+
qed

lemma free_bytes_below: "list_ok lim h b L \<Longrightarrow> x \<in> free_bytes h b L \<Longrightarrow> unat b + 8 \<le> x \<and> x < lim"
proof -
  assume L: "list_ok lim h b L" and x: "x \<in> free_bytes h b L"
  then obtain a where a: "a \<in> set L" "a \<noteq> b" "unat a \<le> x" "x < fend h b a" by (auto simp: free_bytes_def)
  obtain ys where "L = [] @ b # ys" using list_ok_hd [OF L] by auto
  then have "fend h b b \<le> unat a" using list_ok_split(5) [of lim h b "[]" b ys a] L a by auto
  then show ?thesis using a list_okD(1) [OF L a(1)] by (simp add: fend_def)
qed

text \<open>The headers of blocks that are in use stay as they are: outside the list, below the old end.\<close>

definition keeps_headers :: "('w \<Rightarrow> nat) \<Rightarrow> 'w ums \<Rightarrow> u32 list \<Rightarrow> 'w ums \<Rightarrow> bool" where
  "keeps_headers brk s L t \<longleftrightarrow> base t = base s \<and> brk (world s) \<le> brk (world t)
     \<and> (\<forall>a. unat a < brk (world s) \<longrightarrow> a \<notin> set L \<longrightarrow> unat a \<notin> free_of s L \<longrightarrow> hdrs t a = hdrs s a)"

lemma unat_of_nat_below: "m \<le> 2 ^ 31 \<Longrightarrow> unat (of_nat m :: u32) = m"
  by (simp add: unsigned_of_nat take_bit_nat_eq_self)

text \<open>The new memory is put on the free list.\<close>

lemma grow_ok:
  fixes s :: "'w ums"
  assumes m: "mem_ok brk s L" and w: "brk w = brk (world s) + 8 * unat nu" "brk w \<le> 2 ^ 31" and nu: "0 < unat nu" "nunits \<le> nu"
  shows "returns (ufree (of_nat (brk (world s)) + 8) (upd_hdr (of_nat (brk (world s))) (\<lambda>h. h\<lparr>h_size := nu\<rparr>) (s\<lparr>world := w\<rparr>)))
     (\<lambda>_ t. freep t \<noteq> 0 \<and> (\<exists>L'. mem_ok brk t L' \<and> free_of t L' = free_of s L \<union> {brk (world s) ..< brk (world t)}
        \<and> keeps_headers brk s L t \<and> (\<exists>a \<in> set L'. nunits \<le> h_size (hdrs t a)) \<and> length L' \<le> Suc (length L)))"
proof -
  let ?b = "base s" and ?e = "brk (world s)" and ?p = "of_nat (brk (world s)) :: u32"
  let ?s = "upd_hdr ?p (\<lambda>h. h\<lparr>h_size := nu\<rparr>) (s\<lparr>world := w\<rparr>)"
  have L: "list_ok ?e (hdrs s) ?b L" "freep s \<in> set L" using m by (auto simp: mem_ok_def)
  have up: "unat ?p = ?e" using unat_of_nat_below w by simp
  have bL: "b' \<in> set L \<Longrightarrow> unat b' < ?e" for b' using list_okD(1,4) [OF L(1)] by fastforce
  then have pL: "?p \<notin> set L" using up by fastforce
  have b: "?b \<in> set L" "fend (hdrs s) ?b ?b \<le> ?e" using list_ok_hd [OF L(1)] list_okD(1) [OF L(1)] by auto
  have L': "list_ok (brk w) (hdrs ?s) ?b L" "free_bytes (hdrs ?s) ?b L = free_bytes (hdrs s) ?b L"
    using list_ok_upd(1) [OF list_ok_mono [OF L(1), of "brk w"] pL] list_ok_upd(2) [OF L(1) pL] w by simp_all
  have fe: "fend (hdrs ?s) ?b ?p = brk w" using w up pL b(1) by (auto simp: fend_def)
  have f: "fits (brk w) (hdrs ?s) ?b L ?p"
    using b(2) up fe nu(1) free_bytes_below [OF L(1)] unfolding fits_def L'(2) by (fastforce simp: fend_def disjoint_iff)
  have "returns (ufree (?p + 8) ?s) (\<lambda>_ t. \<exists>L'. list_ok (brk w) (hdrs t) ?b L' \<and> freep t \<in> set L' \<and> base t = ?b \<and> world t = w
    \<and> free_bytes (hdrs t) ?b L' = free_bytes (hdrs s) ?b L \<union> {?e ..< brk w} \<and> (\<forall>a. a \<notin> set L \<longrightarrow> a \<noteq> ?p \<longrightarrow> hdrs t a = hdrs s a)
    \<and> (\<exists>a \<in> set L'. unat a \<le> ?e \<and> brk w \<le> fend (hdrs t) ?b a) \<and> length L' \<le> Suc (length L))"
  proof (rule returns_mono [OF ufree_ok [of "brk w" ?s L ?p]])
    show "list_ok (brk w) (hdrs ?s) (base ?s) L" "freep ?s \<in> set L" "fits (brk w) (hdrs ?s) (base ?s) L ?p"
      using L'(1) L(2) f by simp_all
  qed (use fe up L'(2) in auto)
  then show ?thesis
  proof (rule returns_mono, elim exE conjE)
    fix t :: "'w ums" and L'
    assume t: "list_ok (brk w) (hdrs t) ?b L'" "freep t \<in> set L'" "base t = ?b" "world t = w"
      "free_bytes (hdrs t) ?b L' = free_bytes (hdrs s) ?b L \<union> {?e ..< brk w}"
      "\<forall>a. a \<notin> set L \<longrightarrow> a \<noteq> ?p \<longrightarrow> hdrs t a = hdrs s a"
      "\<exists>a \<in> set L'. unat a \<le> ?e \<and> brk w \<le> fend (hdrs t) ?b a" "length L' \<le> Suc (length L)"
    have "unat ?b \<le> unat (freep t)" "0 < unat ?b" using list_okD(5) [OF t(1,2)] L(1) by (auto simp: list_ok_def)
    then have z: "freep t \<noteq> 0" by auto
    obtain a where a: "a \<in> set L'" "unat a \<le> ?e" "brk w \<le> fend (hdrs t) ?b a" using t(7) by blast
    have "a \<noteq> ?b" using a(3) b(2) w(1) nu(1) by (auto simp: fend_def)
    then have "unat nu \<le> unat (h_size (hdrs t a))" using a w(1) by (simp add: fend_def)
    then have "nunits \<le> h_size (hdrs t a)" using nu(2) by (simp add: word_le_nat_alt)
    moreover have "keeps_headers brk s L t" using t(3,4,6) w up by (auto simp: keeps_headers_def)
    ultimately show "freep t \<noteq> 0 \<and> (\<exists>L'. mem_ok brk t L' \<and> free_of t L' = free_of s L \<union> {?e ..< brk (world t)}
        \<and> keeps_headers brk s L t \<and> (\<exists>a \<in> set L'. nunits \<le> h_size (hdrs t a)) \<and> length L' \<le> Suc (length L))"
      using z t a(1) by (auto simp: mem_ok_def free_of_def intro!: exI [of _ L'])
  qed
qed

lemma morecore_ok:
  assumes m: "mem_ok brk s L" and k: "sbrk_ok k brk" and n: "0 < unat nunits" "unat nunits \<le> 2 ^ 27"
  shows "returns (morecore k nunits s) (\<lambda>p t.
    p = 0 \<and> mem_ok brk t L \<and> hdrs t = hdrs s \<and> base t = base s \<and> brk (world t) = brk (world s) \<and> refused_sbrk k (world s) (world t)
    \<or> p \<noteq> 0 \<and> p = freep t \<and> (\<exists>L'. mem_ok brk t L' \<and> free_of t L' = free_of s L \<union> {brk (world s) ..< brk (world t)}
        \<and> keeps_headers brk s L t \<and> (\<exists>a \<in> set L'. nunits \<le> h_size (hdrs t a)) \<and> length L' \<le> Suc (length L)))"
proof -
  define nu where "nu = (if nunits < 4096 then 4096 else nunits)"
  let ?e = "brk (world s)"
  have nu: "unat nu \<le> 2 ^ 27" "0 < unat nu" "nunits \<le> nu" using n by (auto simp: nu_def word_less_nat_alt word_le_nat_alt)
  have "unat (nu * 8) = 8 * unat nu" using nu unat_mult8 [of nu] by (simp add: mult.commute)
  then have si: "sint (nu * 8) = int (8 * unat nu)" using sint_small [of "nu * 8"] nu by simp
  have "0 < int (8 * unat nu)" using nu(2) by (simp only: of_nat_0_less_iff)
  then have sb: "returns (c_sbrk k (int (8 * unat nu)) (world s)) (\<lambda>p w'. p = -1 \<and> brk w' = ?e
     \<or> p = of_nat ?e \<and> int (brk w') = int ?e + int (8 * unat nu) \<and> brk w' \<le> 2 ^ 31)"
    using k unfolding sbrk_ok_def by blast
  have e: "?e \<le> 2 ^ 31" using m list_okD(3) by (fastforce simp: mem_ok_def)
  have ne: "(of_nat ?e :: u32) \<noteq> -1"
  proof
    assume "(of_nat ?e :: u32) = -1"
    then have "unat (of_nat ?e :: u32) = unat (-1 :: u32)" by simp
    moreover have "unat (-1 :: u32) = 4294967295" by (simp add: unsigned_minus_1_eq_mask mask_eq_exp_minus_1)
    ultimately show False using unat_of_nat_below [OF e] e by simp
  qed
  from sb obtain p w' where c: "c_sbrk k (sint (nu * 8)) (world s) = Ret p w'"
    "p = -1 \<and> brk w' = ?e \<or> p = of_nat ?e \<and> int (brk w') = int ?e + int (8 * unat nu) \<and> brk w' \<le> 2 ^ 31"
    unfolding si by (auto simp: returns_iff)
  show ?thesis
  proof (cases "p = -1")
    case True
    then have "brk w' = ?e" using c(2) ne by auto
    moreover have "refused_sbrk k (world s) w'"
      using c(1) True \<open>0 < int (8 * unat nu)\<close> unfolding refused_sbrk_def si [symmetric] by blast
    ultimately show ?thesis using c(1) m True by (simp add: morecore_def nu_def [symmetric] Let_def mem_ok_def)
  next
    case False
    then have p: "p = of_nat ?e" "int (brk w') = int ?e + int (8 * unat nu)" "brk w' \<le> 2 ^ 31" using c(2) by blast+
    have "brk w' = ?e + 8 * unat nu" using p(2) by (simp only: of_nat_add [symmetric] of_nat_eq_iff)
    then show ?thesis using p(1,3) grow_ok [OF m _ _ nu(2,3), of w'] c(1) False
      by (simp add: morecore_def nu_def [symmetric] Let_def) (erule returns_mono, simp)
  qed
qed

text \<open>Taking a block off the list, and taking the upper part of one.\<close>

lemma blocks_apart:
  assumes L: "list_ok lim h b L" and a: "a \<in> set L" "c \<in> set L" "a \<noteq> c"
  shows "{unat a ..< fend h b a} \<inter> {unat c ..< fend h b c} = {}"
proof -
  obtain us vs where s: "L = us @ a # vs" using a(1) by (meson split_list)
  have "c \<in> set us \<or> c \<in> set vs" using s a by auto
  then show ?thesis using list_ok_split(4,5) [OF L [unfolded s], of c] by fastforce
qed

lemma unlink_ok:
  assumes L: "list_ok lim h b (us @ t # p # vs)" and p: "p \<noteq> b"
  defines "h' \<equiv> h(t := (h t)\<lparr>h_ptr := h_ptr (h p)\<rparr>)"
  shows "list_ok lim h' b (us @ t # vs)"
    "free_bytes h' b (us @ t # vs) = free_bytes h b (us @ t # p # vs) - {unat p ..< fend h b p}"
proof -
  have Lp: "list_ok lim h b ((us @ [t]) @ p # vs)" using L by simp
  note T = list_ok_split [OF L] and P = list_ok_split [OF Lp]
  have ne: "t \<noteq> p" "t \<notin> set us" "t \<notin> set vs" "p \<notin> set us" "p \<notin> set vs" using T P by auto
  have fe: "fend h' b x = fend h b x" "h_size (h' x) = h_size (h x)" for x by (auto simp: h'_def fend_def)
  have "path h' b (us @ t # vs) b" using T(1) P(2) ne by (auto simp: h'_def)
  then show "list_ok lim h' b (us @ t # vs)" using L unfolding list_ok_def fe by (auto simp: sorted_wrt_append)
  have "{unat x ..< fend h b x} \<inter> {unat p ..< fend h b p} = {}" if "x \<in> set (us @ t # vs)" for x
    using blocks_apart [OF L, of x p] that ne by auto
  then have "free_bytes h b (us @ t # vs) \<inter> {unat p ..< fend h b p} = {}" unfolding free_bytes_def by blast
  moreover have "free_bytes h b (us @ t # p # vs) = free_bytes h b (us @ t # vs) \<union> {unat p ..< fend h b p}"
    using p by (auto simp: free_bytes_def)
  moreover have "free_bytes h' b (us @ t # vs) = free_bytes h b (us @ t # vs)" by (simp add: free_bytes_def fe)
  ultimately show "free_bytes h' b (us @ t # vs) = free_bytes h b (us @ t # p # vs) - {unat p ..< fend h b p}" by blast
qed

lemma shrink_ok:
  assumes L: "list_ok lim h b L" and p: "p \<in> set L" "p \<noteq> b" and n: "n < h_size (h p)"
  defines "h' \<equiv> h(p := (h p)\<lparr>h_size := h_size (h p) - n\<rparr>)" and "q \<equiv> p + 8 * (h_size (h p) - n)"
  shows "list_ok lim h' b L" "unat q + 8 * unat n = fend h b p" "unat p < unat q"
    "free_bytes h' b L = free_bytes h b L - {unat q ..< fend h b p}"
proof -
  have f: "fend h b p = unat p + 8 * unat (h_size (h p))" "fend h b p \<le> lim" "lim \<le> 2 ^ 31"
    using p list_okD(1,3) [OF L p(1)] by (auto simp: fend_def)
  have un: "unat (h_size (h p) - n) = unat (h_size (h p)) - unat n" "unat n < unat (h_size (h p))"
    using n by (auto simp: unat_sub word_less_nat_alt word_le_nat_alt)
  have "unat (8 * (h_size (h p) - n)) = 8 * (unat (h_size (h p)) - unat n)"
    unfolding un(1) [symmetric] using f un by (intro unat_mult8) simp
  then have uq: "unat q = unat p + 8 * (unat (h_size (h p)) - unat n)"
    unfolding q_def using f un by (intro unat_add_small) simp_all
  show uqe: "unat q + 8 * unat n = fend h b p" and pq: "unat p < unat q" using uq f(1) un(2) by simp_all
  have fp: "fend h' b p = unat q" using p(2) un uq by (simp add: h'_def fend_def)
  have fx: "fend h' b x = fend h b x" "h' x = h x" if "x \<noteq> p" for x using that by (auto simp: h'_def fend_def)
  have le: "fend h' b x \<le> fend h b x" for x using fp fx(1) uqe by (cases "x = p") auto
  have "h_size (h p) - n \<noteq> 0" using un by auto
  then have z: "h_size (h' x) = 0 \<longleftrightarrow> x = b" if "x \<in> set L" for x
    using list_okD(2) [OF L that] p(2) by (cases "x = p") (auto simp: h'_def)
  have "path h' x xs y \<longleftrightarrow> path h x xs y" for x xs y by (induction xs arbitrary: x) (auto simp: h'_def)
  moreover have "sorted_wrt (\<lambda>x y. fend h b x \<le> unat y) L" using L by (simp add: list_ok_def)
  then have "sorted_wrt (\<lambda>x y. fend h' b x \<le> unat y) L"
    by (rule sorted_wrt_mono_rel [rotated]) (use le order_trans in blast)
  ultimately show "list_ok lim h' b L" using L z le unfolding list_ok_def by (meson order_trans)
  have ap: "{unat x ..< fend h b x} \<inter> {unat q ..< fend h b p} = {}" if "x \<in> set L" "x \<noteq> p" for x
    using blocks_apart [OF L that(1) p(1) that(2)] pq by auto
  have "{unat x ..< fend h' b x} = {unat x ..< fend h b x} - {unat q ..< fend h b p}" if "x \<in> set L" for x
  proof (cases "x = p")
    case True
    then show ?thesis using fp pq uqe by auto
  next
    case False
    then show ?thesis using ap [OF that False] fx(1) [OF False] by (simp add: Diff_triv)
  qed
  then have "free_bytes h' b L = (\<Union>x \<in> set L - {b}. {unat x ..< fend h b x} - {unat q ..< fend h b p})"
    unfolding free_bytes_def by (intro SUP_cong) simp_all
  then show "free_bytes h' b L = free_bytes h b L - {unat q ..< fend h b p}" by (simp add: free_bytes_def)
qed

lemma in_free_bytes: "a \<in> set L \<Longrightarrow> a \<noteq> b \<Longrightarrow> {unat a ..< fend h b a} \<subseteq> free_bytes h b L"
  by (auto simp: free_bytes_def)

text \<open>
  A block that \<open>malloc\<close> hands out: its bytes were free and are no longer, its header holds its size, and
  nothing else has changed outside of the free memory.
\<close>

definition handed_out :: "('w \<Rightarrow> nat) \<Rightarrow> u32 \<Rightarrow> 'w ums \<Rightarrow> u32 list \<Rightarrow> u32 \<Rightarrow> 'w ums \<Rightarrow> bool" where
  "handed_out brk nunits s L a t \<longleftrightarrow> (\<exists>L'. mem_ok brk t L' \<and> h_size (hdrs t a) = nunits
     \<and> {unat a ..< unat a + 8 * unat nunits} \<subseteq> free_of s L
     \<and> free_of t L' = free_of s L - {unat a ..< unat a + 8 * unat nunits}
     \<and> keeps_headers brk s L t \<and> world t = world s \<and> length L' \<le> length L)"

lemma take_block_ok:
  assumes m: "mem_ok brk s L" and p: "prevp \<in> set L" "h_ptr (hdrs s prevp) = p"
    and n: "nunits \<le> h_size (hdrs s p)" "nunits \<noteq> 0" "p \<in> set L"
    and tb: "take_block nunits prevp p s = (r, t)"
  shows "handed_out brk nunits s L (r - 8) t"
proof -
  let ?h = "hdrs s" and ?b = "base s"
  have L: "list_ok (brk (world s)) ?h ?b L" using m by (simp add: mem_ok_def)
  have pb: "p \<noteq> ?b" using list_okD(2) [OF L n(3)] n(1,2) by auto
  obtain us vs0 where s0: "L = us @ prevp # vs0" using p(1) by (meson split_list)
  have "hd (vs0 @ [?b]) = p" using list_ok_split(3) [OF L [unfolded s0]] p(2) by simp
  then obtain vs where s: "L = us @ prevp # p # vs" using pb s0 by (cases vs0) auto
  have fp: "fend ?h ?b p = unat p + 8 * unat (h_size (?h p))" using pb by (simp add: fend_def)
  show ?thesis
  proof (cases "h_size (?h p) = nunits")
    case True
    let ?t = "(upd_hdr prevp (\<lambda>h. h\<lparr>h_ptr := h_ptr (?h p)\<rparr>) s)\<lparr>freep := prevp\<rparr>"
    have "prevp \<noteq> p" using list_ok_split(8) [OF L [unfolded s]] by auto
    moreover have rt: "r = p + 8" "t = ?t" using tb True by (auto simp: take_block_def)
    moreover note unlink_ok [OF L [unfolded s] pb] in_free_bytes [OF n(3) pb, of ?h]
    ultimately show ?thesis using True fp p(1) unfolding handed_out_def mem_ok_def free_of_def keeps_headers_def
      by (intro exI [of _ "us @ prevp # vs"]) (auto simp: s)
  next
    case False
    then have lt: "nunits < h_size (?h p)" using n(1) by simp
    define h1 where "h1 = ?h(p := (?h p)\<lparr>h_size := h_size (?h p) - nunits\<rparr>)"
    define q where "q = p + 8 * (h_size (?h p) - nunits)"
    note S = shrink_ok [OF L n(3) pb lt, folded h1_def q_def]
    have qf: "{unat q ..< fend ?h ?b p} \<subseteq> free_bytes ?h ?b L" using in_free_bytes [OF n(3) pb, of ?h] S(3) by fastforce
    moreover have n0: "0 < unat nunits" using n(2) by (simp add: unat_gt_0)
    ultimately have q: "unat q \<in> free_bytes ?h ?b L" "q \<noteq> p" using S(2,3) by auto
    have qL: "q \<notin> set L"
    proof
      assume "q \<in> set L"
      then show False using blocks_apart [OF L _ n(3) q(2)] list_okD(4) [OF L] S(2,3) n0 by fastforce
    qed
    let ?h2 = "h1(q := (h1 q)\<lparr>h_size := nunits\<rparr>)"
    have rt: "r = q + 8" "hdrs t = ?h2" "freep t = prevp" "base t = ?b" "world t = world s"
      using tb False by (auto simp: take_block_def Let_def q_def h1_def)
    have e: "fend ?h ?b p = unat q + 8 * unat nunits" using S(2) by simp
    have k: "?h2 x = ?h x" if "x \<notin> set L" "unat x \<notin> free_bytes ?h ?b L" for x
      using that q n(3) by (auto simp: h1_def)
    show ?thesis using list_ok_upd [OF S(1) qL] S(4) qf rt p(1) k unfolding e handed_out_def mem_ok_def free_of_def keeps_headers_def
      by (intro exI [of _ L]) auto
  qed
qed

text \<open>The walk around the list: it ends at a block that is large enough, or comes back to where it began.\<close>

lemma circle:
  assumes m: "mem_ok brk s L"
  obtains ms where "path (hdrs s) (h_ptr (hdrs s (freep s))) ms (freep s)" "set ms \<union> {freep s} = set L" "freep s \<notin> set ms"
    "length L = Suc (length ms)"
proof -
  have L: "list_ok (brk (world s)) (hdrs s) (base s) L" "freep s \<in> set L" using m by (auto simp: mem_ok_def)
  obtain us vs where s: "L = us @ freep s # vs" using L(2) by (meson split_list)
  show ?thesis
  proof
    show "path (hdrs s) (h_ptr (hdrs s (freep s))) (vs @ us) (freep s)" using list_ok_split(1,2) [OF L(1) [unfolded s]] by auto
    show "freep s \<notin> set (vs @ us)" using list_ok_split(7,8) [OF L(1) [unfolded s]] by auto
    have "set L = set us \<union> {freep s} \<union> set vs" "length L = length us + 1 + length vs" by (subst s, simp)+
    then show "set (vs @ us) \<union> {freep s} = set L" "length L = Suc (length (vs @ us))" by auto
  qed
qed

lemma malloc_walk:
  assumes "path (hdrs s) p ms q" "\<forall>x \<in> set ms. \<not> nunits \<le> h_size (hdrs s x)" "freep s \<notin> set ms" "h_ptr (hdrs s prevp) = p"
  shows "\<exists>prev \<in> insert prevp (set ms). h_ptr (hdrs s prev) = q
    \<and> malloc_loop (length ms + fuel) k nunits prevp p s = malloc_loop fuel k nunits prev q s"
  using assms by (induction ms arbitrary: p prevp) auto

lemma malloc_find:
  assumes m: "mem_ok brk s L" and n: "nunits \<noteq> 0" "\<exists>a \<in> set L. nunits \<le> h_size (hdrs s a)" and fuel: "length L \<le> fuel"
  shows "returns (malloc_loop fuel k nunits (freep s) (h_ptr (hdrs s (freep s))) s) (\<lambda>r t. handed_out brk nunits s L (r - 8) t)"
proof -
  obtain ms where c: "path (hdrs s) (h_ptr (hdrs s (freep s))) ms (freep s)" "set ms \<union> {freep s} = set L" "freep s \<notin> set ms"
    "length L = Suc (length ms)" using circle [OF m] by blast
  have "\<exists>a \<in> set (ms @ [freep s]). nunits \<le> h_size (hdrs s a)" using n(2) c(2) by auto
  from split_list_first_prop [OF this] obtain as q bs
    where s: "ms @ [freep s] = as @ q # bs" "nunits \<le> h_size (hdrs s q)" "\<forall>y \<in> set as. \<not> nunits \<le> h_size (hdrs s y)" by blast
  have pq: "path (hdrs s) (h_ptr (hdrs s (freep s))) as q" "set as \<subseteq> set ms" "q \<in> set L" "length as \<le> length ms"
  proof -
    have e: "path (hdrs s) (h_ptr (hdrs s (freep s))) (ms @ [freep s]) (h_ptr (hdrs s (freep s)))" using c(1) by simp
    then show "path (hdrs s) (h_ptr (hdrs s (freep s))) as q" unfolding s(1) by auto
    have "as @ butlast (q # bs) = ms" using s(1) by (metis butlast_append butlast_snoc list.distinct(1))
    then show "set as \<subseteq> set ms" "length as \<le> length ms" by auto
    have "q \<in> set (ms @ [freep s])" unfolding s(1) by simp
    then show "q \<in> set L" using c(2) by auto
  qed
  obtain f where f: "fuel = length as + Suc f" using fuel c(4) pq(4) by (metis Suc_le_mono le_Suc_ex add_Suc_right add_Suc le_trans)
  obtain prev where prev: "prev \<in> insert (freep s) (set as)" "h_ptr (hdrs s prev) = q"
    "malloc_loop fuel k nunits (freep s) (h_ptr (hdrs s (freep s))) s = malloc_loop (Suc f) k nunits prev q s"
    using malloc_walk [OF pq(1) s(3), of "freep s" "Suc f" k] pq(2) c(3) unfolding f by blast
  obtain r t where rt: "take_block nunits prev q s = (r, t)" by force
  have "prev \<in> set L" using prev(1) pq(2) c(2) by auto
  then show ?thesis using take_block_ok [OF m _ prev(2) s(2) n(1) pq(3) rt] s(2) rt unfolding prev(3) by simp
qed

lemma malloc_none:
  assumes m: "mem_ok brk s L" and n: "\<forall>a \<in> set L. \<not> nunits \<le> h_size (hdrs s a)"
  shows "malloc_loop (length L + fuel) k nunits (freep s) (h_ptr (hdrs s (freep s))) s
    = bindK (morecore k nunits s) (\<lambda>p s. if p = 0 then Ret 0 s else malloc_loop fuel k nunits p (h_ptr (hdrs s p)) s)"
proof -
  obtain ms where c: "path (hdrs s) (h_ptr (hdrs s (freep s))) ms (freep s)" "set ms \<union> {freep s} = set L" "freep s \<notin> set ms"
    "length L = Suc (length ms)" using circle [OF m] by blast
  have nm: "\<forall>x \<in> set ms. \<not> nunits \<le> h_size (hdrs s x)" and nf: "\<not> nunits \<le> h_size (hdrs s (freep s))" using n c(2) by auto
  obtain prev where "malloc_loop (length ms + Suc fuel) k nunits (freep s) (h_ptr (hdrs s (freep s))) s
    = malloc_loop (Suc fuel) k nunits prev (freep s) s"
    using malloc_walk [OF c(1) nm c(3), of "freep s" "Suc fuel" k] by blast
  then show ?thesis using nf c(4) by simp
qed

text \<open>The contract of \<open>malloc\<close> on a list that is set up; the memory that \<open>sbrk\<close> added counts as free.\<close>

definition allocated :: "('w \<Rightarrow> nat) \<Rightarrow> u32 \<Rightarrow> 'w ums \<Rightarrow> u32 list \<Rightarrow> u32 \<Rightarrow> 'w ums \<Rightarrow> bool" where
  "allocated brk nunits s L a t \<longleftrightarrow> (\<exists>L'. mem_ok brk t L' \<and> h_size (hdrs t a) = nunits
     \<and> {unat a ..< unat a + 8 * unat nunits} \<subseteq> free_of s L \<union> {brk (world s) ..< brk (world t)}
     \<and> free_of t L' = free_of s L \<union> {brk (world s) ..< brk (world t)} - {unat a ..< unat a + 8 * unat nunits}
     \<and> keeps_headers brk s L t)"

lemma list_in_free: "mem_ok brk s L \<Longrightarrow> a \<in> set L \<Longrightarrow> a = base s \<or> unat a \<in> free_of s L"
  using in_free_bytes [of a L "base s" "hdrs s"] list_okD(4) [of _ "hdrs s" "base s" L a]
  by (auto simp: mem_ok_def free_of_def subset_iff)

lemma base_in_list: "mem_ok brk s L \<Longrightarrow> base s \<in> set L"
  using list_ok_hd by (fastforce simp: mem_ok_def)

lemma keeps_headers_grow:
  assumes m: "mem_ok brk s L" "mem_ok brk u L'" and g: "free_of u L' = free_of s L \<union> {brk (world s) ..< brk (world u)}"
    and k: "keeps_headers brk s L u" "keeps_headers brk u L' t"
  shows "keeps_headers brk s L t"
proof -
  have "hdrs t a = hdrs s a" if a: "unat a < brk (world s)" "a \<notin> set L" "unat a \<notin> free_of s L" for a
  proof -
    have "a \<notin> set L'" using list_in_free [OF m(2), of a] base_in_list [OF m(1)] k(1) g a by (auto simp: keeps_headers_def)
    then show ?thesis using k a g by (auto simp: keeps_headers_def)
  qed
  then show ?thesis using k by (auto simp: keeps_headers_def)
qed

lemma malloc_loop_ok:
  fixes s :: "'w ums"
  assumes m: "mem_ok brk s L" and k: "sbrk_ok k brk" and n: "nunits \<noteq> 0" "unat nunits \<le> 2 ^ 27" and fuel: "2 * length L + 1 \<le> fuel"
  shows "returns (malloc_loop fuel k nunits (freep s) (h_ptr (hdrs s (freep s))) s) (\<lambda>r t.
    r = 0 \<and> mem_ok brk t L \<and> hdrs t = hdrs s \<and> base t = base s \<and> brk (world t) = brk (world s) \<and> refused_sbrk k (world s) (world t)
    \<or> allocated brk nunits s L (r - 8) t)"
proof (cases "\<exists>a \<in> set L. nunits \<le> h_size (hdrs s a)")
  case True
  have "length L \<le> fuel" using fuel by simp
  then show ?thesis
    by (rule returns_mono [OF malloc_find [OF m n(1) True]]) (auto simp: handed_out_def allocated_def)
next
  case False
  obtain f where f: "fuel = length L + f" "Suc (length L) \<le> f" using fuel by (metis add.assoc le_Suc_ex mult_2 plus_1_eq_Suc add.commute le_add1)
  have n0: "0 < unat nunits" using n(1) by (simp add: unat_gt_0)
  have eq: "malloc_loop fuel k nunits (freep s) (h_ptr (hdrs s (freep s))) s
    = bindK (morecore k nunits s) (\<lambda>p s. if p = 0 then Ret 0 s else malloc_loop f k nunits p (h_ptr (hdrs s p)) s)"
    unfolding f(1) using malloc_none [OF m] False by blast
  show ?thesis unfolding eq returns_bindK
  proof (rule returns_mono [OF morecore_ok [OF m k n0 n(2)]])
    fix p and u :: "'w ums"
    assume "p = 0 \<and> mem_ok brk u L \<and> hdrs u = hdrs s \<and> base u = base s \<and> brk (world u) = brk (world s) \<and> refused_sbrk k (world s) (world u)
      \<or> p \<noteq> 0 \<and> p = freep u \<and> (\<exists>L'. mem_ok brk u L' \<and> free_of u L' = free_of s L \<union> {brk (world s) ..< brk (world u)}
        \<and> keeps_headers brk s L u \<and> (\<exists>a \<in> set L'. nunits \<le> h_size (hdrs u a)) \<and> length L' \<le> Suc (length L))"
    then consider "p = 0 \<and> mem_ok brk u L \<and> hdrs u = hdrs s \<and> base u = base s \<and> brk (world u) = brk (world s) \<and> refused_sbrk k (world s) (world u)"
      | L' where "p \<noteq> 0" "p = freep u" "mem_ok brk u L'" "free_of u L' = free_of s L \<union> {brk (world s) ..< brk (world u)}"
        "keeps_headers brk s L u" "\<exists>a \<in> set L'. nunits \<le> h_size (hdrs u a)" "length L' \<le> Suc (length L)" by blast
    then show "returns (if p = 0 then Ret 0 u else malloc_loop f k nunits p (h_ptr (hdrs u p)) u) (\<lambda>r t.
      r = 0 \<and> mem_ok brk t L \<and> hdrs t = hdrs s \<and> base t = base s \<and> brk (world t) = brk (world s) \<and> refused_sbrk k (world s) (world t)
      \<or> allocated brk nunits s L (r - 8) t)"
    proof cases
      case 1
      then show ?thesis by simp
    next
      case 2
      have "returns (malloc_loop f k nunits p (h_ptr (hdrs u p)) u) (\<lambda>r t. handed_out brk nunits u L' (r - 8) t)"
        using malloc_find [OF 2(3) n(1) 2(6), of f k] f(2) 2(2,7) by simp
      then have "returns (malloc_loop f k nunits p (h_ptr (hdrs u p)) u) (\<lambda>r t. allocated brk nunits s L (r - 8) t)"
        by (rule returns_mono) (use keeps_headers_grow [OF m 2(3,4,5)] 2(4) in \<open>auto simp: handed_out_def allocated_def\<close>)
      then show ?thesis using 2(1) by (simp, elim returns_mono) simp
    qed
  qed
qed

section \<open>A program that uses the allocator\<close>

text \<open>
  A run of a program: it calls \<open>malloc\<close> with sizes below 1 GB, gives blocks back with \<open>free\<close>, writes into
  the blocks it holds (which changes what would be read as headers there) and does anything else that
  leaves the memory of the process at least as large. \<open>A\<close> gives the size asked for each block it holds.
\<close>

definition heap_start :: "('w \<Rightarrow> nat) \<Rightarrow> 'w ums \<Rightarrow> bool" where
  "heap_start brk s \<longleftrightarrow> freep s = 0 \<and> 0 < unat (base s) \<and> unat (base s) + 8 \<le> brk (world s) \<and> brk (world s) \<le> 2 ^ 31"

inductive heap_run :: "'w calls \<Rightarrow> ('w \<Rightarrow> nat) \<Rightarrow> 'w ums \<Rightarrow> 'w ums \<Rightarrow> (u32 \<Rightarrow> u32 option) \<Rightarrow> bool"
  for k brk s0 where
  start: "heap_run k brk s0 s0 Map.empty"
| mallocd: "heap_run k brk s0 s A \<Longrightarrow> unat n \<le> 2 ^ 30 - 8 \<Longrightarrow> malloc fuel k n s = Ret r t \<Longrightarrow> r \<noteq> 0
    \<Longrightarrow> heap_run k brk s0 t (A(r \<mapsto> n))"
| refused: "heap_run k brk s0 s A \<Longrightarrow> unat n \<le> 2 ^ 30 - 8 \<Longrightarrow> malloc fuel k n s = Ret 0 t \<Longrightarrow> heap_run k brk s0 t A"
| freed: "heap_run k brk s0 s A \<Longrightarrow> A r = Some n \<Longrightarrow> ufree r s = Ret x t \<Longrightarrow> heap_run k brk s0 t (A(r := None))"
| wrote: "heap_run k brk s0 s A \<Longrightarrow> A r = Some n
    \<Longrightarrow> (\<And>x. {unat x ..< unat x + 8} \<inter> {unat r ..< unat r + unat n} = {} \<Longrightarrow> h x = hdrs s x)
    \<Longrightarrow> heap_run k brk s0 (s\<lparr>hdrs := h\<rparr>) A"
| other: "heap_run k brk s0 s A \<Longrightarrow> brk (world s) \<le> brk w \<Longrightarrow> brk w \<le> 2 ^ 31 \<Longrightarrow> heap_run k brk s0 (s\<lparr>world := w\<rparr>) A"

text \<open>The block at \<open>r\<close>, with its header.\<close>

definition blk :: "'w ums \<Rightarrow> u32 \<Rightarrow> nat set" where
  "blk s r = {unat (r - 8) ..< fend (hdrs s) (base s) (r - 8)}"

definition held_ok :: "('w \<Rightarrow> nat) \<Rightarrow> 'w ums \<Rightarrow> u32 list \<Rightarrow> (u32 \<Rightarrow> u32 option) \<Rightarrow> bool" where
  "held_ok brk s L A \<longleftrightarrow>
     (\<forall>r n. A r = Some n \<longrightarrow> fits (brk (world s)) (hdrs s) (base s) L (r - 8) \<and> unat n + 8 \<le> 8 * unat (h_size (hdrs s (r - 8))))
     \<and> (\<forall>r r'. r \<in> dom A \<longrightarrow> r' \<in> dom A \<longrightarrow> r \<noteq> r' \<longrightarrow> blk s r \<inter> blk s r' = {})"

definition heap_ok :: "('w \<Rightarrow> nat) \<Rightarrow> 'w ums \<Rightarrow> (u32 \<Rightarrow> u32 option) \<Rightarrow> bool" where
  "heap_ok brk s A \<longleftrightarrow> heap_start brk s \<and> A = Map.empty \<or> (\<exists>L. mem_ok brk s L \<and> held_ok brk s L A)"

lemma heldD:
  assumes h: "held_ok brk s L A" and m: "mem_ok brk s L" and r: "A r = Some n"
  shows "unat r = unat (r - 8) + 8" "unat (base s) + 16 \<le> unat r" "unat r + unat n \<le> brk (world s)" "r - 8 \<notin> set L"
    "{unat (r - 8) ..< unat r} \<subseteq> blk s r" "{unat r ..< unat r + unat n} \<subseteq> blk s r" "blk s r \<inter> free_of s L = {}"
    "unat (r - 8) < brk (world s)" "unat (r - 8) \<notin> free_of s L" "r \<noteq> 0"
proof -
  have f: "fits (brk (world s)) (hdrs s) (base s) L (r - 8)" "unat n + 8 \<le> 8 * unat (h_size (hdrs s (r - 8)))"
    using h r by (auto simp: held_ok_def)
  have L: "list_ok (brk (world s)) (hdrs s) (base s) L" using m by (simp add: mem_ok_def)
  have fe: "fend (hdrs s) (base s) (r - 8) = unat (r - 8) + 8 * unat (h_size (hdrs s (r - 8)))"
    "fend (hdrs s) (base s) (r - 8) \<le> brk (world s)" "unat (base s) + 8 \<le> unat (r - 8)"
    using f(1) by (auto simp: fits_def fend_def)
  have "brk (world s) \<le> 2 ^ 31" using L by (simp add: list_ok_def)
  then have "unat (r - 8 + 8) = unat (r - 8) + 8" using fe f(2) by (intro unat_add_small) auto
  then show u: "unat r = unat (r - 8) + 8" by simp
  then show "unat (base s) + 16 \<le> unat r" "unat r + unat n \<le> brk (world s)" "r \<noteq> 0" using fe f(2) by auto
  show "r - 8 \<notin> set L" using fits_order(1) [OF L f(1)] .
  show "{unat (r - 8) ..< unat r} \<subseteq> blk s r" "{unat r ..< unat r + unat n} \<subseteq> blk s r" using fe u f(2) by (auto simp: blk_def)
  show b: "blk s r \<inter> free_of s L = {}" using f(1) by (auto simp: fits_def blk_def free_of_def)
  show "unat (r - 8) < brk (world s)" using fe f(2) by simp
  have "unat (r - 8) \<in> blk s r" using fe f(2) by (simp add: blk_def)
  then show "unat (r - 8) \<notin> free_of s L" using b by blast
qed

text \<open>An operation that keeps the headers of the blocks held, and frees none of their bytes, keeps them.\<close>

lemma held_keep:
  assumes h: "held_ok brk s L A" and m: "mem_ok brk s L" and B: "B \<subseteq>\<^sub>m A" and t: "base t = base s" "brk (world s) \<le> brk (world t)"
    "\<And>r. r \<in> dom B \<Longrightarrow> hdrs t (r - 8) = hdrs s (r - 8)" "\<And>r. r \<in> dom B \<Longrightarrow> blk s r \<inter> free_of t L' = {}"
  shows "held_ok brk t L' B" "\<And>r. r \<in> dom B \<Longrightarrow> blk t r = blk s r"
proof -
  have e: "fend (hdrs t) (base t) (r - 8) = fend (hdrs s) (base s) (r - 8)" if "r \<in> dom B" for r
    using t(1) t(3) [OF that] by (simp add: fend_def)
  then show b: "\<And>r. r \<in> dom B \<Longrightarrow> blk t r = blk s r" by (simp add: blk_def)
  have BA: "A r = Some n" if "B r = Some n" for r n using B that by (metis domI map_le_def)
  have "fits (brk (world t)) (hdrs t) (base t) L' (r - 8) \<and> unat n + 8 \<le> 8 * unat (h_size (hdrs t (r - 8)))" if r: "B r = Some n" for r n
  proof -
    have d: "r \<in> dom B" using r by blast
    have "fits (brk (world s)) (hdrs s) (base s) L (r - 8)" "unat n + 8 \<le> 8 * unat (h_size (hdrs s (r - 8)))"
      using h BA [OF r] by (auto simp: held_ok_def)
    then show ?thesis using e [OF d] t(1,2) t(3) [OF d] t(4) [OF d] by (auto simp: fits_def blk_def free_of_def)
  qed
  moreover have "blk t r \<inter> blk t r' = {}" if "r \<in> dom B" "r' \<in> dom B" "r \<noteq> r'" for r r'
  proof -
    have "r \<in> dom A" "r' \<in> dom A" using BA that by blast+
    then have "blk s r \<inter> blk s r' = {}" using h that(3) unfolding held_ok_def by blast
    then show ?thesis using b that by simp
  qed
  ultimately show "held_ok brk t L' B" by (simp add: held_ok_def)
qed

definition ready :: "'w ums \<Rightarrow> 'w ums" where
  "ready s = (if freep s = 0 then (upd_hdr (base s) (\<lambda>h. h\<lparr>h_ptr := base s, h_size := 0\<rparr>) s)\<lparr>freep := base s\<rparr> else s)"

lemma ready_ok:
  assumes "heap_ok brk s A"
  obtains L where "mem_ok brk (ready s) L" "held_ok brk (ready s) L A"
proof (cases "heap_start brk s \<and> A = Map.empty")
  case True
  then have "mem_ok brk (ready s) [base s]" "held_ok brk (ready s) [base s] A"
    by (auto simp: mem_ok_def list_ok_def ready_def heap_start_def held_ok_def fend_def)
  then show ?thesis using that by blast
next
  case False
  then obtain L where L: "mem_ok brk s L" "held_ok brk s L A" using assms by (auto simp: heap_ok_def)
  then have "unat (base s) \<le> unat (freep s)" "0 < unat (base s)" using list_okD(5) by (auto simp: mem_ok_def list_ok_def)
  then have "ready s = s" by (auto simp: ready_def)
  then show ?thesis using that L by simp
qed

lemma units_of:
  assumes "unat n \<le> 2 ^ 30 - 8"
  shows "unat ((n + 8 - 1) div 8 + 1 :: u32) = (unat n + 7) div 8 + 1"
proof -
  have "unat (n + 7) = unat n + 7" using assms by (intro unat_add_small) auto
  then have "unat ((n + 7) div 8) = (unat n + 7) div 8" by (simp add: unat_div)
  then have "unat ((n + 7) div 8 + 1) = (unat n + 7) div 8 + 1" using assms by (intro trans [OF unat_add_small [OF refl]]) auto
  then show ?thesis by (simp add: algebra_simps)
qed

lemma held_alloc:
  assumes m: "mem_ok brk s L" and h: "held_ok brk s L A" and a: "allocated brk nunits s L (r - 8) t"
    and n: "unat n + 8 \<le> 8 * unat nunits"
  shows "\<exists>L'. mem_ok brk t L' \<and> held_ok brk t L' (A(r \<mapsto> n)) \<and> r \<notin> dom A"
proof -
  let ?F = "free_of s L \<union> {brk (world s) ..< brk (world t)}" and ?a = "r - 8"
  let ?N = "{unat ?a ..< unat ?a + 8 * unat nunits}"
  obtain L' where L': "mem_ok brk t L'" "h_size (hdrs t ?a) = nunits" "?N \<subseteq> ?F" "free_of t L' = ?F - ?N" "keeps_headers brk s L t"
    using a by (auto simp: allocated_def)
  have k: "base t = base s" "brk (world s) \<le> brk (world t)" using L'(5) by (auto simp: keeps_headers_def)
  have old: "hdrs t (q - 8) = hdrs s (q - 8)" "blk s q \<inter> ?F = {}" if "q \<in> dom A" for q
  proof -
    from that obtain l where q: "A q = Some l" by blast
    note H = heldD [OF h m q]
    show "hdrs t (q - 8) = hdrs s (q - 8)" using L'(5) H(4,8,9) by (auto simp: keeps_headers_def)
    have "fits (brk (world s)) (hdrs s) (base s) L (q - 8)" using h q unfolding held_ok_def by blast
    then have "blk s q \<subseteq> {..< brk (world s)}" by (auto simp: blk_def fits_def)
    then show "blk s q \<inter> ?F = {}" using H(7) by fastforce
  qed
  have A: "held_ok brk t L' A" "\<And>q. q \<in> dom A \<Longrightarrow> blk t q = blk s q"
    using held_keep [OF h m map_le_refl k, of L'] old L'(4) by blast+
  have ne: "unat ?a \<in> ?N" using n by simp
  have inF: "unat (base s) + 8 \<le> x \<and> x < brk (world t)" if "x \<in> ?F" for x
    using that free_bytes_below [of "brk (world s)" "hdrs s" "base s" L x] list_okD(1) [of "brk (world s)" "hdrs s" "base s" L "base s"] base_in_list [OF m] m k(2)
    by (auto simp: mem_ok_def free_of_def fend_def)
  have ab: "unat (base s) + 8 \<le> unat ?a" using inF ne L'(3) by blast
  have "unat ?a + 8 * unat nunits - 1 \<in> ?N" using n by auto
  then have "unat ?a + 8 * unat nunits - 1 < brk (world t)" using inF L'(3) by blast
  then have fe: "fend (hdrs t) (base t) ?a = unat ?a + 8 * unat nunits" "unat ?a + 8 * unat nunits \<le> brk (world t)"
    using L'(2) ab k(1) n by (auto simp: fend_def)
  have f: "fits (brk (world t)) (hdrs t) (base t) L' ?a"
    using ab fe k(1) L'(2,4) n unfolding fits_def free_of_def [symmetric] fe by auto
  have N: "blk t r = ?N" using fe by (simp add: blk_def)
  have new: "blk t r \<inter> blk t q = {}" if "q \<in> dom A" for q using old(2) [OF that] A(2) [OF that] N L'(3) by blast
  have "r \<notin> dom A" using new [of r] N ne by blast
  then show ?thesis using L'(1,2) A(1) f n new by (intro exI [of _ L']) (auto simp: held_ok_def Int_commute)
qed

lemma malloc_loop_mono:
  "malloc_loop f k nunits prevp p s = Ret r t \<Longrightarrow> malloc_loop (f + g) k nunits prevp p s = Ret r t"
proof (induction f arbitrary: prevp p s)
  case (Suc f)
  then show ?case by (cases "morecore k nunits s") (auto split: if_splits)
qed simp

lemma list_length_bound: "list_ok lim h b L \<Longrightarrow> length L \<le> 2 ^ 32"
proof -
  assume L: "list_ok lim h b L"
  then have "sorted_wrt (\<lambda>a c. fend h b a \<le> unat c) L" by (simp add: list_ok_def)
  then have "sorted_wrt (<) L"
    by (rule sorted_wrt_mono_rel [rotated]) (use list_okD(4) [OF L] in \<open>fastforce simp: word_less_nat_alt\<close>)
  then have "length L = card (set L)" by (simp add: strict_sorted_iff distinct_card)
  also have "\<dots> \<le> card (UNIV :: u32 set)" by (rule card_mono) simp_all
  finally show ?thesis by (simp add: card_word)
qed

lemma malloc_ok:
  fixes s :: "'w ums"
  assumes h: "heap_ok brk s A" and k: "sbrk_ok k brk" and n: "unat n \<le> 2 ^ 30 - 8" and fuel: "2 ^ 34 \<le> fuel"
  shows "returns (malloc fuel k n s) (\<lambda>r t. r = 0 \<and> heap_ok brk t A \<and> brk (world t) = brk (world s) \<and> refused_sbrk k (world s) (world t)
    \<or> r \<noteq> 0 \<and> r \<notin> dom A \<and> heap_ok brk t (A(r \<mapsto> n)))"
proof -
  define nunits where "nunits = (n + 8 - 1) div 8 + 1"
  have un: "unat nunits = (unat n + 7) div 8 + 1" unfolding nunits_def by (rule units_of [OF n])
  have nn: "nunits \<noteq> 0" "unat nunits \<le> 2 ^ 27" "unat n + 8 \<le> 8 * unat nunits"
  proof -
    show "nunits \<noteq> 0" using un by auto
    show "unat nunits \<le> 2 ^ 27" "unat n + 8 \<le> 8 * unat nunits" using n unfolding un by auto
  qed
  obtain L where L: "mem_ok brk (ready s) L" "held_ok brk (ready s) L A" using ready_ok [OF h] .
  have "length L \<le> 2 ^ 32" using L(1) list_length_bound by (auto simp: mem_ok_def)
  then have f: "2 * length L + 1 \<le> fuel" using fuel by simp
  have eq: "malloc fuel k n s = malloc_loop fuel k nunits (freep (ready s)) (h_ptr (hdrs (ready s) (freep (ready s)))) (ready s)"
    by (simp add: malloc_def Let_def nunits_def ready_def)
  have w: "world (ready s) = world s" by (simp add: ready_def)
  show ?thesis unfolding eq
  proof (rule returns_mono [OF malloc_loop_ok [OF L(1) k nn(1,2) f]], elim disjE conjE)
    fix r :: u32 and t :: "'w ums"
    assume t: "r = 0" "mem_ok brk t L" "hdrs t = hdrs (ready s)" "base t = base (ready s)" "brk (world t) = brk (world (ready s))" "refused_sbrk k (world (ready s)) (world t)"
    then have "held_ok brk t L A" using L(2) by (simp add: held_ok_def blk_def)
    then show "r = 0 \<and> heap_ok brk t A \<and> brk (world t) = brk (world s) \<and> refused_sbrk k (world s) (world t) \<or> r \<noteq> 0 \<and> r \<notin> dom A \<and> heap_ok brk t (A(r \<mapsto> n))"
      using t w by (auto simp: heap_ok_def)
  next
    fix r :: u32 and t :: "'w ums"
    assume "allocated brk nunits (ready s) L (r - 8) t"
    then obtain L' where L': "mem_ok brk t L'" "held_ok brk t L' (A(r \<mapsto> n))" "r \<notin> dom A"
      using held_alloc [OF L _ nn(3)] by blast
    then have "r \<noteq> 0" using heldD(10) [of brk t L' "A(r \<mapsto> n)" r n] by simp
    then show "r = 0 \<and> heap_ok brk t A \<and> brk (world t) = brk (world s) \<and> refused_sbrk k (world s) (world t) \<or> r \<noteq> 0 \<and> r \<notin> dom A \<and> heap_ok brk t (A(r \<mapsto> n))"
      using L' unfolding heap_ok_def by blast
  qed
qed

lemma malloc_Ret_ok:
  assumes h: "heap_ok brk s A" and k: "sbrk_ok k brk" and n: "unat n \<le> 2 ^ 30 - 8" and r: "malloc fuel k n s = Ret r t"
  shows "if r = 0 then heap_ok brk t A else heap_ok brk t (A(r \<mapsto> n))"
proof -
  have "malloc (fuel + 2 ^ 34) k n s = Ret r t" using r unfolding malloc_def Let_def by (rule malloc_loop_mono)
  then show ?thesis using malloc_ok [OF h k n, of "fuel + 2 ^ 34"] by auto
qed

lemma free_ok:
  fixes s :: "'w ums"
  assumes h: "heap_ok brk s A" and r: "A r = Some n"
  shows "returns (ufree r s) (\<lambda>_ t. heap_ok brk t (A(r := None)))"
proof -
  obtain L where L: "mem_ok brk s L" "held_ok brk s L A" using h r by (auto simp: heap_ok_def)
  then have l: "list_ok (brk (world s)) (hdrs s) (base s) L" "freep s \<in> set L" "fits (brk (world s)) (hdrs s) (base s) L (r - 8)"
    using r by (auto simp: mem_ok_def held_ok_def)
  have "returns (ufree (r - 8 + 8) s) (\<lambda>_ t. heap_ok brk t (A(r := None)))"
  proof (rule returns_mono [OF ufree_ok [OF l]], elim exE conjE)
    fix t :: "'w ums" and L'
    assume t: "list_ok (brk (world s)) (hdrs t) (base s) L'" "freep t \<in> set L'" "base t = base s" "world t = world s"
      "free_bytes (hdrs t) (base s) L' = free_bytes (hdrs s) (base s) L \<union> {unat (r - 8) ..< fend (hdrs s) (base s) (r - 8)}"
      "\<forall>a. a \<notin> set L \<longrightarrow> a \<noteq> r - 8 \<longrightarrow> hdrs t a = hdrs s a"
    let ?B = "A(r := None)"
    have F: "free_of t L' = free_of s L \<union> blk s r" using t(3,5) by (simp add: free_of_def blk_def)
    have q: "hdrs t (q - 8) = hdrs s (q - 8) \<and> blk s q \<inter> free_of t L' = {}" if "q \<in> dom ?B" for q
    proof -
      obtain l where ql: "A q = Some l" "q \<noteq> r" using \<open>q \<in> dom ?B\<close> by (auto split: if_splits)
      have "blk s q \<inter> blk s r = {}" using L(2) ql r unfolding held_ok_def by blast
      then show ?thesis using heldD(4,7) [OF L(2,1) ql(1)] t(6) ql(2) F by auto
    qed
    have "held_ok brk t L' ?B" by (rule held_keep(1) [OF L(2,1)]) (use t q in \<open>auto simp: map_le_def\<close>)
    moreover have "mem_ok brk t L'" using t by (simp add: mem_ok_def)
    ultimately show "heap_ok brk t ?B" by (auto simp: heap_ok_def)
  qed
  then show ?thesis by simp
qed

lemma held_free: "held_ok brk s L A \<Longrightarrow> mem_ok brk s L \<Longrightarrow> r \<in> dom A \<Longrightarrow> blk s r \<inter> free_of s L = {}"
  using heldD(7) by blast

lemma write_ok:
  assumes h: "heap_ok brk s A" and r: "A r = Some n"
    and w: "\<And>x. {unat x ..< unat x + 8} \<inter> {unat r ..< unat r + unat n} = {} \<Longrightarrow> h' x = hdrs s x"
  shows "heap_ok brk (s\<lparr>hdrs := h'\<rparr>) A"
proof -
  let ?t = "s\<lparr>hdrs := h'\<rparr>"
  obtain L where L: "mem_ok brk s L" "held_ok brk s L A" using h r by (auto simp: heap_ok_def)
  then have l: "list_ok (brk (world s)) (hdrs s) (base s) L" by (simp add: mem_ok_def)
  note R = heldD [OF L(2,1) r]
  have lx: "h' x = hdrs s x" if x: "x \<in> set L" for x
  proof (cases "x = base s")
    case True
    then show ?thesis using R(2) by (intro w) auto
  next
    case False
    then have "0 < unat (h_size (hdrs s x))" using list_okD(2) [OF l x] by (simp add: unat_gt_0)
    then have "{unat x ..< unat x + 8} \<subseteq> {unat x ..< fend (hdrs s) (base s) x}" using False by (auto simp: fend_def)
    then have "{unat x ..< unat x + 8} \<subseteq> free_of s L" using in_free_bytes [OF x False, of "hdrs s"] unfolding free_of_def by blast
    then show ?thesis using R(6,7) by (intro w) blast
  qed
  note l' = list_ok_cong [OF l lx]
  have hx: "h' (q - 8) = hdrs s (q - 8)" if "q \<in> dom A" for q
  proof (cases "q = r")
    case True
    have "{unat (r - 8) ..< unat (r - 8) + 8} \<inter> {unat r ..< unat r + unat n} = {}" using R(1) by auto
    then show ?thesis unfolding True by (rule w)
  next
    case False
    obtain l where q: "A q = Some l" using \<open>q \<in> dom A\<close> by blast
    have "blk s q \<inter> blk s r = {}" using L(2) q r False unfolding held_ok_def by blast
    moreover have "{unat (q - 8) ..< unat (q - 8) + 8} \<subseteq> blk s q" using heldD(1,5) [OF L(2,1) q] by simp
    ultimately show ?thesis using R(6) by (intro w) blast
  qed
  have F: "free_of ?t L = free_of s L" using l'(2) by (simp add: free_of_def)
  have "held_ok brk ?t L A"
    by (rule held_keep(1) [OF L(2,1) map_le_refl]) (use hx F held_free [OF L(2,1)] in simp_all)
  moreover have "mem_ok brk ?t L" using L(1) l'(1) by (simp add: mem_ok_def)
  ultimately show ?thesis by (auto simp: heap_ok_def)
qed

lemma other_ok:
  assumes "heap_ok brk s A" "brk (world s) \<le> brk w" "brk w \<le> 2 ^ 31"
  shows "heap_ok brk (s\<lparr>world := w\<rparr>) A"
proof (cases "heap_start brk s \<and> A = Map.empty")
  case True
  then show ?thesis using assms by (simp add: heap_ok_def heap_start_def)
next
  case False
  then obtain L where L: "mem_ok brk s L" "held_ok brk s L A" using assms(1) by (auto simp: heap_ok_def)
  have "mem_ok brk (s\<lparr>world := w\<rparr>) L" using L(1) assms(2,3) list_ok_mono by (auto simp: mem_ok_def)
  moreover have "held_ok brk (s\<lparr>world := w\<rparr>) L A"
    by (rule held_keep(1) [OF L(2,1) map_le_refl]) (use assms(2) held_free [OF L(2,1)] in \<open>simp_all add: free_of_def\<close>)
  ultimately show ?thesis by (auto simp: heap_ok_def)
qed

lemma heap_run_ok:
  assumes k: "sbrk_ok k brk" and s0: "heap_start brk s0" and run: "heap_run k brk s0 s A"
  shows "heap_ok brk s A"
  using run
proof induction
  case start
  then show ?case using s0 by (simp add: heap_ok_def)
next
  case (mallocd s A n fuel r t)
  then show ?case using malloc_Ret_ok [OF mallocd(5) k mallocd(2,3)] by (simp del: fun_upd_apply)
next
  case (refused s A n fuel t)
  then show ?case using malloc_Ret_ok [OF refused(4) k refused(2,3)] by simp
next
  case (freed s A r n x t)
  then show ?case using free_ok [OF freed(4,2)] by (simp del: fun_upd_apply)
next
  case (wrote s A r n h)
  show ?case by (rule write_ok [OF wrote(4,2,3)])
next
  case (other s A w)
  show ?case by (rule other_ok [OF other(4,2,3)])
qed

text \<open>
  C25. A program that uses the allocator as intended (it asks for less than 1 GB at a time, frees only
  blocks that it holds, writes only into them, and starts with the allocator's list not yet set up) never
  gets overlapping blocks: two blocks that it holds have no byte in common, each lies above the allocator's
  static header and below the end of the memory of the process, and \<open>malloc\<close> has given it all the bytes
  asked for. The one assumption on the system is what \<open>sbrk\<close> does.
\<close>

theorem malloc_blocks_disjoint:
  assumes "sbrk_ok k brk" and "heap_start brk s0" and "heap_run k brk s0 s A"
    and "A r = Some n" and "A r' = Some n'" and "r \<noteq> r'"
  shows "{unat r ..< unat r + unat n} \<inter> {unat r' ..< unat r' + unat n'} = {}
    \<and> unat (base s) + 16 \<le> unat r \<and> unat r + unat n \<le> brk (world s)"
proof -
  have "heap_ok brk s A" using heap_run_ok assms(1-3) .
  then obtain L where L: "mem_ok brk s L" "held_ok brk s L A" using assms(4) by (auto simp: heap_ok_def)
  have "blk s r \<inter> blk s r' = {}" using L(2) assms(4-6) unfolding held_ok_def by blast
  then show ?thesis using heldD(2,3,6) [OF L(2,1) assms(4)] heldD(6) [OF L(2,1) assms(5)] by blast
qed


section \<open>A concrete heap\<close>

text \<open>A process of one page, whose memory may grow to 1 MB; its world is the size. It asks for two blocks.\<close>

definition toy_calls :: "nat calls" where
  "toy_calls = no_calls\<lparr>c_sbrk := \<lambda>n w. if w + nat n \<le> 2 ^ 20 then Ret (of_nat w) (w + nat n) else Ret (-1) w\<rparr>"

definition toy_heap :: "nat ums" where
  "toy_heap = \<lparr>hdrs = \<lambda>_. \<lparr>h_ptr = 0, h_size = 0\<rparr>, freep = 0, base = 256, world = 4096\<rparr>"

lemma toy_sbrk: "sbrk_ok toy_calls (\<lambda>w. w)"
  by (auto simp: sbrk_ok_def toy_calls_def)

lemma toy_start: "heap_start (\<lambda>w. w) toy_heap"
  by (simp add: heap_start_def toy_heap_def)

lemmas malloc_eval = malloc_def morecore_def ufree_def free_find.simps free_link_def upd_hdr_def take_block_def Let_def

lemma toy_run:
  "\<exists>t. heap_run toy_calls (\<lambda>w. w) toy_heap t [36848 \<mapsto> 10, 36816 \<mapsto> 20] \<and> base t = 256 \<and> world t = 36864"
proof -
  have "\<exists>s t. malloc 3 toy_calls 10 toy_heap = Ret 36848 s \<and> malloc 3 toy_calls 20 s = Ret 36816 t \<and> base t = 256 \<and> world t = 36864"
    by (simp add: malloc_eval toy_heap_def toy_calls_def numeral_3_eq_3)
  then obtain s t where "malloc 3 toy_calls 10 toy_heap = Ret 36848 s" "malloc 3 toy_calls 20 s = Ret 36816 t" "base t = 256" "world t = 36864"
    by blast
  moreover from this(1) have "heap_run toy_calls (\<lambda>w. w) toy_heap s [36848 \<mapsto> 10]"
    by (rule heap_run.mallocd [OF heap_run.start, rotated]) simp_all
  ultimately show ?thesis using heap_run.mallocd [of toy_calls "\<lambda>w. w" toy_heap s "[36848 \<mapsto> 10]" 20 3 36816 t] by auto
qed

theorem malloc_blocks_disjoint_witness:
  "\<exists>t. heap_run toy_calls (\<lambda>w. w) toy_heap t [36848 \<mapsto> 10, 36816 \<mapsto> 20]
     \<and> {36848 ..< 36848 + 10} \<inter> {36816 ..< 36816 + (20 :: nat)} = {} \<and> unat (base t) + 16 \<le> 36848 \<and> 36848 + 10 \<le> world t"
proof -
  obtain t where t: "heap_run toy_calls (\<lambda>w. w) toy_heap t [36848 \<mapsto> 10, 36816 \<mapsto> 20]" using toy_run by blast
  have "([36848 \<mapsto> 10, 36816 \<mapsto> 20] :: u32 \<Rightarrow> u32 option) 36848 = Some 10"
    "([36848 \<mapsto> 10, 36816 \<mapsto> 20] :: u32 \<Rightarrow> u32 option) 36816 = Some 20" "(36848 :: u32) \<noteq> 36816" by simp_all
  from malloc_blocks_disjoint [OF toy_sbrk toy_start t this] show ?thesis using t by auto
qed


text \<open>
  The size computation has no check against overflow: a program that asks for almost 4 GB gets a block of
  one unit, of which no byte may be used.
\<close>

lemma malloc_size_wraps: "returns (malloc 3 toy_calls 0xFFFFFFFF toy_heap) (\<lambda>r t. r \<noteq> 0 \<and> h_size (hdrs t (r - 8)) = 1)"
  by (simp add: malloc_eval toy_heap_def toy_calls_def numeral_3_eq_3)

end
