(* ===== verification/Xv6_Uprogs.thy ===== *)
theory Xv6_Uprogs
  imports Xv6_Grep Xv6_Fs
begin

text \<open>
  The small user programs: \<open>cat\<close>, \<open>wc\<close>, \<open>ls\<close>, \<open>echo\<close>, \<open>kill\<close>, \<open>ln\<close>, \<open>mkdir\<close>, \<open>rm\<close>, \<open>touch\<close>, \<open>zombie\<close>, \<open>init\<close>, the
  programs for the calls that the lab adds (\<open>ps\<close>, \<open>psc\<close>, \<open>pregs\<close>, \<open>test\<close>, \<open>alarmtest\<close>) and the two stress
  tests \<open>stressfs\<close> and \<open>forktest\<close>. Each is a program over the system calls of \<open>Xv6_Ulib\<close>; the argument
  \<open>argv\<close> is the list of its arguments with the name of the program first. A loop whose number of rounds
  depends on what system calls return has fuel.

  The theorems say that \<open>wc\<close> counts lines, words and characters, however the input is cut into reads,
  and that \<open>cat\<close> copies its files.
\<close>

section \<open>Programs that call the system once per argument\<close>

fun echo_loop :: "'w calls \<Rightarrow> string list \<Rightarrow> ('w, unit) prog" where
  "echo_loop k [] w = Ret () w"
| "echo_loop k (a # as) w =
     bindK (printf k 1 ''%s%s'' [AStr (Some a), AStr (Some (if as \<noteq> [] then '' '' else [newline_char]))] w) (\<lambda>_ w.
     echo_loop k as w)"

definition echo_main :: "'w calls \<Rightarrow> string list \<Rightarrow> ('w, unit) prog" where
  "echo_main k argv w = bindK (echo_loop k (tl argv) w) (\<lambda>_ w. uexit w)"

fun kill_loop :: "'w calls \<Rightarrow> string list \<Rightarrow> ('w, unit) prog" where
  "kill_loop k [] w = Ret () w"
| "kill_loop k (a # as) w = bindK (c_kill k (sint (atoi a)) w) (\<lambda>_ w. kill_loop k as w)"

definition kill_main :: "'w calls \<Rightarrow> string list \<Rightarrow> ('w, unit) prog" where
  "kill_main k argv w =
     (if length argv < 2 then bindK (printf k 2 (''usage: kill pid...'' @ [newline_char]) [] w) (\<lambda>_ w. uexit w)
      else bindK (kill_loop k (tl argv) w) (\<lambda>_ w. uexit w))"

definition ln_main :: "'w calls \<Rightarrow> string list \<Rightarrow> ('w, unit) prog" where
  "ln_main k argv w =
     (if length argv \<noteq> 3 then bindK (printf k 2 (''Usage: ln old new'' @ [newline_char]) [] w) (\<lambda>_ w. uexit w)
      else
        bindK (c_link k (argv ! 1) (argv ! 2) w) (\<lambda>r w.
        bindK (if r < 0 then printf k 2 (''link %s %s: failed'' @ [newline_char]) [AStr (Some (argv ! 1)), AStr (Some (argv ! 2))] w
               else Ret () w) (\<lambda>_ w. uexit w)))"

fun mkdir_loop :: "'w calls \<Rightarrow> string list \<Rightarrow> ('w, unit) prog" where
  "mkdir_loop k [] w = Ret () w"
| "mkdir_loop k (a # as) w =
     bindK (c_mkdir k a w) (\<lambda>r w.
     if r < 0 then printf k 2 (''mkdir: %s failed to create'' @ [newline_char]) [AStr (Some a)] w
     else mkdir_loop k as w)"

definition mkdir_main :: "'w calls \<Rightarrow> string list \<Rightarrow> ('w, unit) prog" where
  "mkdir_main k argv w =
     (if length argv < 2 then bindK (printf k 2 (''Usage: mkdir files...'' @ [newline_char]) [] w) (\<lambda>_ w. uexit w)
      else bindK (mkdir_loop k (tl argv) w) (\<lambda>_ w. uexit w))"

fun rm_loop :: "'w calls \<Rightarrow> string list \<Rightarrow> ('w, unit) prog" where
  "rm_loop k [] w = Ret () w"
| "rm_loop k (a # as) w =
     bindK (c_unlink k a w) (\<lambda>r w.
     if r < 0 then printf k 2 (''rm: %s failed to delete'' @ [newline_char]) [AStr (Some a)] w
     else rm_loop k as w)"

definition rm_main :: "'w calls \<Rightarrow> string list \<Rightarrow> ('w, unit) prog" where
  "rm_main k argv w =
     (if length argv < 2 then bindK (printf k 2 (''Usage: rm files...'' @ [newline_char]) [] w) (\<lambda>_ w. uexit w)
      else bindK (rm_loop k (tl argv) w) (\<lambda>_ w. uexit w))"

text \<open>
  With \<open>-w\<close>, \<open>touch\<close> lets \<open>gets\<close> read into the pointer \<open>content\<close>, which is null: whatever is read is stored at
  address 0, and so is the NUL behind it.
\<close>

definition touch :: "'w calls \<Rightarrow> string \<Rightarrow> bool \<Rightarrow> ('w, unit) prog" where
  "touch k fname with_content w =
     (if \<not> with_content then
        bindK (c_open k fname O_RDONLY w) (\<lambda>fd w.
        bindK (if fd < 0 then
                 bindK (c_open k fname O_CREATE w) (\<lambda>cfd w.
                 bindK (c_close k cfd w) (\<lambda>_ w. Ret () w))
               else Ret () w) (\<lambda>_ w.
        bindK (c_close k fd w) (\<lambda>_ w. Ret () w)))
      else
        bindK (c_open k fname O_RDONLY w) (\<lambda>fd w.
        bindK (if fd > 0 then bindK (c_unlink k fname w) (\<lambda>_ w. Ret () w) else Ret () w) (\<lambda>_ w.
        bindK (c_close k fd w) (\<lambda>_ w.
        bindK (c_open k fname (O_CREATE OR O_WRONLY) w) (\<lambda>cfd w.
        bindK (gets k 256 w) (\<lambda>_ w. Undef ''touch: gets into a null pointer''))))))"

definition touch_main :: "'w calls \<Rightarrow> string list \<Rightarrow> ('w, unit) prog" where
  "touch_main k argv w =
     (if length argv < 2 then bindK (printf k 1 (''touch: provide file name'' @ [newline_char]) [] w) (\<lambda>_ w. uexit w)
      else if length argv = 2 then bindK (touch k (argv ! 1) False w) (\<lambda>_ w. uexit w)
      else if length argv = 3 \<and> strcmp (argv ! 1) ''-w'' = 0 then bindK (touch k (argv ! 2) True w) (\<lambda>_ w. uexit w)
      else bindK (printf k 1 (''touch: too many arguments'' @ [newline_char]) [] w) (\<lambda>_ w. uexit w))"

section \<open>Programs for the calls of the lab\<close>

definition zombie_main :: "'w calls \<Rightarrow> ('w, unit) prog" where
  "zombie_main k w =
     bindK (c_fork k w) (\<lambda>pid w.
     bindK (if pid > 0 then bindK (c_sleep k 5 w) (\<lambda>_ w. Ret () w) else Ret () w) (\<lambda>_ w. uexit w))"

definition ps_main :: "'w calls \<Rightarrow> ('w, unit) prog" where
  "ps_main k w = bindK (c_ps k w) (\<lambda>_ w. uexit w)"

definition psc_main :: "'w calls \<Rightarrow> ('w, unit) prog" where
  "psc_main k w = bindK (c_print_syscalls k w) (\<lambda>_ w. uexit w)"

definition pregs_main :: "'w calls \<Rightarrow> string list \<Rightarrow> ('w, unit) prog" where
  "pregs_main k argv w =
     bindK (c_read_registers k w) (\<lambda>_ w.
     bindK (c_set_edx k (if length argv = 2 then sint (atoi (argv ! 1)) else 0x414243) w) (\<lambda>_ w.
     bindK (c_read_registers k w) (\<lambda>_ w. uexit w)))"

text \<open>The number goes to the kernel in \<open>ebx\<close>, which the assembly around the call saves and restores.\<close>

definition pass_by_register :: "'w calls \<Rightarrow> u32 \<Rightarrow> ('w, unit) prog" where
  "pass_by_register k n w = bindK (c_count_num_of_digits k n w) (\<lambda>_ w. Ret () w)"

fun test_loop :: "'w calls \<Rightarrow> string list \<Rightarrow> ('w, unit) prog" where
  "test_loop k [] w = Ret () w"
| "test_loop k (a # as) w =
     bindK (printf k 1 ''TEST for '' [] w) (\<lambda>_ w.
     bindK (pass_by_register k (atoi a) w) (\<lambda>_ w. test_loop k as w))"

definition test_main :: "'w calls \<Rightarrow> string list \<Rightarrow> ('w, unit) prog" where
  "test_main k argv w =
     (if length argv \<ge> 2 then bindK (test_loop k (tl argv) w) (\<lambda>_ w. uexit w)
      else
        bindK (printf k 1 ''TEST for '' [] w) (\<lambda>_ w.
        bindK (pass_by_register k 12345 w) (\<lambda>_ w. uexit w)))"

text \<open>\<open>j\<close> more rounds of the busy loop, from round \<open>i\<close> on.\<close>

fun busy_loop :: "'w calls \<Rightarrow> nat \<Rightarrow> nat \<Rightarrow> ('w, unit) prog" where
  "busy_loop k i 0 w = Ret () w"
| "busy_loop k i (Suc j) w =
     bindK (if i mod 2500000 = 0 then bindK (c_write k 2 ''.'' w) (\<lambda>_ w. Ret () w) else Ret () w) (\<lambda>_ w.
     busy_loop k (Suc i) j w)"

definition loop_n_bilion :: "'w calls \<Rightarrow> int \<Rightarrow> ('w, unit) prog" where
  "loop_n_bilion k n w = busy_loop k 0 (nat (n * 100000000)) w"

definition alarmtest_main :: "'w calls \<Rightarrow> ('w, unit) prog" where
  "alarmtest_main k w =
     bindK (printf k 1 (newline_char # ''First scenario, should get alarm after approximately 5 seconds'' @ [newline_char]) [] w) (\<lambda>_ w.
     bindK (c_set_alarm k 5000 w) (\<lambda>_ w.
     bindK (loop_n_bilion k 10 w) (\<lambda>_ w.
     bindK (printf k 1 (newline_char # ''Second scenario, should get alarm after approximately 1 seconds instead of 5'' @ [newline_char]) [] w) (\<lambda>_ w.
     bindK (c_set_alarm k 5000 w) (\<lambda>_ w.
     bindK (c_set_alarm k 1000 w) (\<lambda>_ w.
     bindK (loop_n_bilion k 5 w) (\<lambda>_ w.
     bindK (c_set_alarm k 1000 w) (\<lambda>_ w.
     bindK (printf k 1 (newline_char # ''Third scenario, should get error and alarm is not changed so it gets alarm after 1 second'' @ [newline_char]) [] w) (\<lambda>_ w.
     bindK (c_set_alarm k (-1) w) (\<lambda>_ w.
     bindK (loop_n_bilion k 5 w) (\<lambda>_ w. uexit w)))))))))))"

section \<open>\<open>init\<close> and the stress tests\<close>

fun init_wait :: "nat \<Rightarrow> 'w calls \<Rightarrow> int \<Rightarrow> ('w, unit) prog" where
  "init_wait 0 k pid w = Diverge"
| "init_wait (Suc fuel) k pid w =
     bindK (c_wait k w) (\<lambda>wpid w.
     if wpid \<ge> 0 \<and> wpid \<noteq> pid then bindK (printf k 1 (''zombie!'' @ [newline_char]) [] w) (\<lambda>_ w. init_wait fuel k pid w)
     else Ret () w)"

fun init_loop :: "nat \<Rightarrow> 'w calls \<Rightarrow> ('w, unit) prog" where
  "init_loop 0 k w = Diverge"
| "init_loop (Suc fuel) k w =
     bindK (printf k 1 (''init: starting sh'' @ [newline_char]) [] w) (\<lambda>_ w.
     bindK (c_fork k w) (\<lambda>pid w.
     if pid < 0 then bindK (printf k 1 (''init: fork failed'' @ [newline_char]) [] w) (\<lambda>_ w. uexit w)
     else if pid = 0 then
       bindK (c_exec k ''sh'' [''sh''] w) (\<lambda>_ w.
       bindK (printf k 1 (''init: exec sh failed'' @ [newline_char]) [] w) (\<lambda>_ w. uexit w))
     else bindK (init_wait fuel k pid w) (\<lambda>_ w. init_loop fuel k w)))"

definition init_main :: "nat \<Rightarrow> 'w calls \<Rightarrow> ('w, unit) prog" where
  "init_main fuel k w =
     bindK (c_open k ''console'' O_RDWR w) (\<lambda>fd w.
     bindK (if fd < 0 then
              bindK (c_mknod k ''console'' 1 1 w) (\<lambda>_ w.
              bindK (c_open k ''console'' O_RDWR w) (\<lambda>_ w. Ret () w))
            else Ret () w) (\<lambda>_ w.
     bindK (c_dup k 0 w) (\<lambda>_ w.
     bindK (c_dup k 0 w) (\<lambda>_ w.
     init_loop fuel k w))))"

text \<open>The first loop of \<open>stressfs\<close>: it stops in the process that is a parent. The result is \<open>i\<close>.\<close>

fun stressfs_forks :: "'w calls \<Rightarrow> nat \<Rightarrow> nat \<Rightarrow> ('w, nat) prog" where
  "stressfs_forks k i 0 w = Ret i w"
| "stressfs_forks k i (Suc j) w = bindK (c_fork k w) (\<lambda>pid w. if pid > 0 then Ret i w else stressfs_forks k (Suc i) j w)"

definition stressfs_main :: "'w calls \<Rightarrow> ('w, unit) prog" where
  "stressfs_main k w =
     bindK (printf k 1 (''stressfs starting'' @ [newline_char]) [] w) (\<lambda>_ w.
     bindK (stressfs_forks k 0 4 w) (\<lambda>i w.
     bindK (printf k 1 (''write %d'' @ [newline_char]) [AInt (of_nat i)] w) (\<lambda>_ w.
     let path = ''stressfs'' @ [char_of (of_char (CHR ''0'') + i :: nat)]; data = replicate 512 (CHR ''a'')
     in bindK (c_open k path (O_CREATE OR O_RDWR) w) (\<lambda>fd w.
        bindK (for_rangeK 0 20 (\<lambda>_ w. bindK (c_write k fd data w) (\<lambda>_ w. Ret () w)) w) (\<lambda>_ w.
        bindK (c_close k fd w) (\<lambda>_ w.
        bindK (printf k 1 (''read'' @ [newline_char]) [] w) (\<lambda>_ w.
        bindK (c_open k path O_RDONLY w) (\<lambda>fd w.
        bindK (for_rangeK 0 20 (\<lambda>_ w. bindK (c_read k fd 512 w) (\<lambda>_ w. Ret () w)) w) (\<lambda>_ w.
        bindK (c_close k fd w) (\<lambda>_ w.
        bindK (c_wait k w) (\<lambda>_ w. uexit w)))))))))))"

text \<open>\<open>forktest\<close> has a \<open>printf\<close> of its own that knows no directives.\<close>

definition forktest_printf :: "'w calls \<Rightarrow> int \<Rightarrow> string \<Rightarrow> ('w, unit) prog" where
  "forktest_printf k fd s w = bindK (c_write k fd (take (ustrlen s) s) w) (\<lambda>_ w. Ret () w)"

fun forktest_forks :: "'w calls \<Rightarrow> nat \<Rightarrow> nat \<Rightarrow> ('w, nat) prog" where
  "forktest_forks k n 0 w = Ret n w"
| "forktest_forks k n (Suc j) w =
     bindK (c_fork k w) (\<lambda>pid w.
     if pid < 0 then Ret n w
     else if pid = 0 then uexit w
     else forktest_forks k (Suc n) j w)"

fun forktest_waits :: "'w calls \<Rightarrow> nat \<Rightarrow> ('w, unit) prog" where
  "forktest_waits k 0 w = Ret () w"
| "forktest_waits k (Suc n) w =
     bindK (c_wait k w) (\<lambda>r w.
     if r < 0 then bindK (forktest_printf k 1 (''wait stopped early'' @ [newline_char]) w) (\<lambda>_ w. uexit w)
     else forktest_waits k n w)"

definition forktest :: "'w calls \<Rightarrow> ('w, unit) prog" where
  "forktest k w =
     bindK (forktest_printf k 1 (''fork test'' @ [newline_char]) w) (\<lambda>_ w.
     bindK (forktest_forks k 0 1000 w) (\<lambda>n w.
     if n = 1000 then bindK (forktest_printf k 1 (''fork claimed to work N times!'' @ [newline_char]) w) (\<lambda>_ w. uexit w)
     else
       bindK (forktest_waits k n w) (\<lambda>_ w.
       bindK (c_wait k w) (\<lambda>r w.
       if r \<noteq> -1 then bindK (forktest_printf k 1 (''wait got too many'' @ [newline_char]) w) (\<lambda>_ w. uexit w)
       else forktest_printf k 1 (''fork test OK'' @ [newline_char]) w))))"

definition forktest_main :: "'w calls \<Rightarrow> ('w, unit) prog" where
  "forktest_main k w = bindK (forktest k w) (\<lambda>_ w. uexit w)"

section \<open>\<open>cat\<close>, \<open>wc\<close> and \<open>ls\<close>\<close>

fun cat_loop :: "nat \<Rightarrow> 'w calls \<Rightarrow> int \<Rightarrow> ('w, int) prog" where
  "cat_loop 0 k fd w = Diverge"
| "cat_loop (Suc fuel) k fd w =
     bindK (c_read k fd 512 w) (\<lambda>(n, s) w.
     if n > 0 then
       bindK (c_write k 1 s w) (\<lambda>r w.
       if r \<noteq> n then bindK (printf k 1 (''cat: write error'' @ [newline_char]) [] w) (\<lambda>_ w. uexit w)
       else cat_loop fuel k fd w)
     else Ret n w)"

definition cat :: "nat \<Rightarrow> 'w calls \<Rightarrow> int \<Rightarrow> ('w, unit) prog" where
  "cat fuel k fd w =
     bindK (cat_loop fuel k fd w) (\<lambda>n w.
     if n < 0 then bindK (printf k 1 (''cat: read error'' @ [newline_char]) [] w) (\<lambda>_ w. uexit w)
     else Ret () w)"

fun cat_files :: "nat \<Rightarrow> 'w calls \<Rightarrow> string list \<Rightarrow> ('w, unit) prog" where
  "cat_files fuel k [] w = uexit w"
| "cat_files fuel k (f # fs) w =
     bindK (c_open k f 0 w) (\<lambda>fd w.
     if fd < 0 then bindK (printf k 1 (''cat: cannot open %s'' @ [newline_char]) [AStr (Some f)] w) (\<lambda>_ w. uexit w)
     else
       bindK (cat fuel k fd w) (\<lambda>_ w.
       bindK (c_close k fd w) (\<lambda>_ w.
       cat_files fuel k fs w)))"

definition cat_main :: "nat \<Rightarrow> 'w calls \<Rightarrow> string list \<Rightarrow> ('w, unit) prog" where
  "cat_main fuel k argv w =
     (if length argv \<le> 1 then bindK (cat fuel k 0 w) (\<lambda>_ w. uexit w) else cat_files fuel k (tl argv) w)"

text \<open>The counters of \<open>wc\<close>: lines, words, characters, and whether the last character is part of a word.\<close>

definition wc_char :: "char \<Rightarrow> u32 \<times> u32 \<times> u32 \<times> bool \<Rightarrow> u32 \<times> u32 \<times> u32 \<times> bool" where
  "wc_char ch st =
     (case st of (l, w, c, inword) \<Rightarrow>
        let c = c + 1;
            l = (if ch = newline_char then l + 1 else l)
        in if strchr ('' '' @ [CHR 0x0D, CHR 0x09, newline_char, CHR 0x0B]) ch \<noteq> None then (l, w, c, False)
           else if \<not> inword then (l, w + 1, c, True)
           else (l, w, c, inword))"

fun wc_loop :: "nat \<Rightarrow> 'w calls \<Rightarrow> int \<Rightarrow> u32 \<times> u32 \<times> u32 \<times> bool \<Rightarrow> ('w, int \<times> u32 \<times> u32 \<times> u32 \<times> bool) prog" where
  "wc_loop 0 k fd st w = Diverge"
| "wc_loop (Suc fuel) k fd st w =
     bindK (c_read k fd 512 w) (\<lambda>(n, s) w.
     if n > 0 then wc_loop fuel k fd (fold wc_char s st) w else Ret (n, st) w)"

definition wc :: "nat \<Rightarrow> 'w calls \<Rightarrow> int \<Rightarrow> string \<Rightarrow> ('w, unit) prog" where
  "wc fuel k fd name w0 =
     bindK (wc_loop fuel k fd (0, 0, 0, False) w0) (\<lambda>(n, l, w, c, inword) w0.
     if n < 0 then bindK (printf k 1 (''wc: read error'' @ [newline_char]) [] w0) (\<lambda>_ w0. uexit w0)
     else printf k 1 (''%d %d %d %s'' @ [newline_char]) [AInt l, AInt w, AInt c, AStr (Some name)] w0)"

fun wc_files :: "nat \<Rightarrow> 'w calls \<Rightarrow> string list \<Rightarrow> ('w, unit) prog" where
  "wc_files fuel k [] w = uexit w"
| "wc_files fuel k (f # fs) w =
     bindK (c_open k f 0 w) (\<lambda>fd w.
     if fd < 0 then bindK (printf k 1 (''wc: cannot open %s'' @ [newline_char]) [AStr (Some f)] w) (\<lambda>_ w. uexit w)
     else
       bindK (wc fuel k fd f w) (\<lambda>_ w.
       bindK (c_close k fd w) (\<lambda>_ w.
       wc_files fuel k fs w)))"

definition wc_main :: "nat \<Rightarrow> 'w calls \<Rightarrow> string list \<Rightarrow> ('w, unit) prog" where
  "wc_main fuel k argv w =
     (if length argv \<le> 1 then bindK (wc fuel k 0 '''' w) (\<lambda>_ w. uexit w) else wc_files fuel k (tl argv) w)"

text \<open>The last component of a path, padded with blanks. The static buffer ends with a NUL from the start.\<close>

definition fmtname :: "string \<Rightarrow> string" where
  "fmtname path =
     (let p = rev (takeWhile (\<lambda>c. c \<noteq> CHR ''/'') (rev (take (ustrlen path) path)))
      in if ustrlen p \<ge> DIRSIZ then p else p @ replicate (DIRSIZ - ustrlen p) (CHR '' ''))"

definition ls_line :: "'w calls \<Rightarrow> string \<Rightarrow> ustat \<Rightarrow> ('w, unit) prog" where
  "ls_line k path st w =
     printf k 1 (''%s %d %d %d'' @ [newline_char])
       [AStr (Some (fmtname path)), AInt (ucast (us_type st)), AInt (us_ino st), AInt (us_size st)] w"

text \<open>The loop over the entries of a directory; \<open>pre\<close> is the path with its slash.\<close>

fun ls_entries :: "nat \<Rightarrow> 'w calls \<Rightarrow> int \<Rightarrow> string \<Rightarrow> ('w, unit) prog" where
  "ls_entries 0 k fd pre w = Diverge"
| "ls_entries (Suc fuel) k fd pre w =
     bindK (c_read k fd (int DIRENT_SIZE) w) (\<lambda>(n, de) w.
     if n \<noteq> int DIRENT_SIZE then Ret () w
     else if deref de = NUL \<and> deref (tl de) = NUL then ls_entries fuel k fd pre w
     else
       let buf = pre @ take DIRSIZ (drop 2 de); buf = take (ustrlen buf) buf
       in bindK (stat k buf w) (\<lambda>(r, st) w.
          bindK (if r < 0 then printf k 1 (''ls: cannot stat %s'' @ [newline_char]) [AStr (Some buf)] w
                 else ls_line k buf st w) (\<lambda>_ w.
          ls_entries fuel k fd pre w)))"

definition ls :: "nat \<Rightarrow> 'w calls \<Rightarrow> string \<Rightarrow> ('w, unit) prog" where
  "ls fuel k path w =
     bindK (c_open k path 0 w) (\<lambda>fd w.
     if fd < 0 then printf k 2 (''ls: cannot open %s'' @ [newline_char]) [AStr (Some path)] w
     else
       bindK (c_fstat k fd w) (\<lambda>(r, st) w.
       if r < 0 then
         bindK (printf k 2 (''ls: cannot stat %s'' @ [newline_char]) [AStr (Some path)] w) (\<lambda>_ w.
         bindK (c_close k fd w) (\<lambda>_ w. Ret () w))
       else
         bindK (if us_type st = T_FILE then ls_line k path st w
                else if us_type st = T_DIR then
                  if ustrlen path + 1 + DIRSIZ + 1 > 512 then printf k 1 (''ls: path too long'' @ [newline_char]) [] w
                  else ls_entries fuel k fd (take (ustrlen path) path @ ''/'') w
                else Ret () w) (\<lambda>_ w.
         bindK (c_close k fd w) (\<lambda>_ w. Ret () w))))"

fun ls_args :: "nat \<Rightarrow> 'w calls \<Rightarrow> string list \<Rightarrow> ('w, unit) prog" where
  "ls_args fuel k [] w = Ret () w"
| "ls_args fuel k (a # as) w = bindK (ls fuel k a w) (\<lambda>_ w. ls_args fuel k as w)"

definition ls_main :: "nat \<Rightarrow> 'w calls \<Rightarrow> string list \<Rightarrow> ('w, unit) prog" where
  "ls_main fuel k argv w =
     bindK (ls_args fuel k (if length argv < 2 then [''.''] else tl argv) w) (\<lambda>_ w. uexit w)"

section \<open>Input and output as streams\<close>

text \<open>
  What the programs rely on of the system: a read gives a piece of the input that is not longer than
  asked for, and nothing only at the end; a write to descriptor 1 puts all of its bytes behind what was
  written before.
\<close>

definition out_ok :: "'w calls \<Rightarrow> ('w \<Rightarrow> string) \<Rightarrow> ('w \<Rightarrow> string) \<Rightarrow> bool" where
  "out_ok k inp outp \<longleftrightarrow> (\<forall>w s. returns (c_write k 1 s w) (\<lambda>r w'. r = int (length s) \<and> inp w' = inp w \<and> outp w' = outp w @ s))"

definition in_ok :: "'w calls \<Rightarrow> int \<Rightarrow> ('w \<Rightarrow> string) \<Rightarrow> ('w \<Rightarrow> string) \<Rightarrow> bool" where
  "in_ok k fd inp outp \<longleftrightarrow> (\<forall>w n. 0 < n \<longrightarrow> returns (c_read k fd n w) (\<lambda>(r, s) w'. r = int (length s) \<and> r \<le> n
     \<and> inp w = s @ inp w' \<and> (s = [] \<longrightarrow> inp w = []) \<and> outp w' = outp w))"

text \<open>The text that \<open>printf\<close> produces; \<open>None\<close> if an argument is missing or of the wrong kind.\<close>

fun directive_text :: "char \<Rightarrow> carg list \<Rightarrow> (string \<times> carg list) option" where
  "directive_text c (AInt x # ap) =
     (if c = CHR ''d'' then Some (number_chars x 10 True, ap)
      else if c = CHR ''x'' \<or> c = CHR ''p'' then Some (number_chars x 16 False, ap)
      else if c = CHR ''s'' then None
      else if c = CHR ''c'' then Some ([char_of (unat x)], ap)
      else if c = CHR ''%'' then Some (''%'', AInt x # ap) else Some (CHR ''%'' # [c], AInt x # ap))"
| "directive_text c (AStr s # ap) =
     (if c = CHR ''s'' then Some (takeWhile (\<lambda>c. c \<noteq> NUL) (case s of None \<Rightarrow> ''(null)'' | Some s \<Rightarrow> s), ap)
      else if c \<in> {CHR ''d'', CHR ''x'', CHR ''p'', CHR ''c''} then None
      else if c = CHR ''%'' then Some (''%'', AStr s # ap) else Some (CHR ''%'' # [c], AStr s # ap))"
| "directive_text c [] =
     (if c \<in> {CHR ''d'', CHR ''x'', CHR ''p'', CHR ''c'', CHR ''s''} then None
      else if c = CHR ''%'' then Some (''%'', []) else Some (CHR ''%'' # [c], []))"

fun format_text :: "bool \<Rightarrow> string \<Rightarrow> carg list \<Rightarrow> string option" where
  "format_text st [] ap = Some []"
| "format_text False (c # f) ap =
     (if c = NUL then Some [] else if c = CHR ''%'' then format_text True f ap else map_option ((#) c) (format_text False f ap))"
| "format_text True (c # f) ap =
     (if c = NUL then Some []
      else case directive_text c ap of None \<Rightarrow> None | Some (t, ap) \<Rightarrow> map_option ((@) t) (format_text False f ap))"

lemma putc_text: "out_ok k inp outp \<Longrightarrow> returns (putc k 1 c w) (\<lambda>_ w'. inp w' = inp w \<and> outp w' = outp w @ [c])"
  unfolding out_ok_def putc_def by (simp, rule returns_mono, blast) auto

lemma putcs_text:
  assumes "out_ok k inp outp"
  shows "returns (putcs k 1 s w) (\<lambda>_ w'. inp w' = inp w \<and> outp w' = outp w @ s)"
proof (induction s arbitrary: w)
  case (Cons c s)
  show ?case unfolding putcs.simps returns_bindK
    by (rule returns_mono [OF putc_text [OF assms]], rule returns_mono [OF Cons]) auto
qed simp

lemma putcs_one: "putcs k fd [c] w = putc k fd c w"
  by (cases "putc k fd c w") simp_all

lemma directive_putcs:
  assumes "directive_text c ap = Some (t, ap')"
  shows "printf_directive k fd c ap w = bindK (putcs k fd t w) (\<lambda>_ w. Ret ap' w)"
proof -
  have two: "bindK (putcs k fd [d, e] w) f = bindK (putc k fd d w) (\<lambda>_ w. bindK (putc k fd e w) f)" for d e w and f :: "unit \<Rightarrow> 'a \<Rightarrow> ('a, carg list) outcome"
    by (simp add: bindK_assoc)
  note defs = printf_directive_def uprintint_def putcs_one two
  consider "ap = []" | x bs where "ap = AInt x # bs" | s bs where "ap = AStr s # bs" by (metis carg.exhaust list.exhaust)
  then show ?thesis
  proof cases
    case 1
    then show ?thesis using assms by (auto simp: defs simp del: putcs.simps split: if_split_asm)
  next
    case 2
    then show ?thesis using assms by (auto simp: defs simp del: putcs.simps split: if_split_asm)
  next
    case 3
    then show ?thesis using assms by (auto simp: defs simp del: putcs.simps split: if_split_asm)
  qed
qed

lemma directive_prints:
  assumes k: "out_ok k inp outp" and d: "directive_text c ap = Some (t, ap')"
  shows "returns (printf_directive k 1 c ap w) (\<lambda>r w'. r = ap' \<and> inp w' = inp w \<and> outp w' = outp w @ t)"
  unfolding directive_putcs [OF d] returns_bindK by (rule returns_mono [OF putcs_text [OF k]]) auto

lemma format_prints:
  assumes k: "out_ok k inp outp"
  shows "format_text st f ap = Some t \<Longrightarrow> returns (printf_loop k 1 st f ap w) (\<lambda>_ w'. inp w' = inp w \<and> outp w' = outp w @ t)"
proof (induction st f ap arbitrary: t w rule: format_text.induct)
  case (2 c f ap)
  show ?case
  proof (cases "c = NUL \<or> c = CHR ''%''")
    case True
    then show ?thesis using 2 by auto
  next
    case False
    then obtain u where u: "format_text False f ap = Some u" "t = c # u" using 2(3) by auto
    have "returns (bindK (putc k 1 c w) (\<lambda>_ w. printf_loop k 1 False f ap w)) (\<lambda>_ w'. inp w' = inp w \<and> outp w' = outp w @ t)"
      unfolding returns_bindK
      by (rule returns_mono [OF putc_text [OF k]], rule returns_mono [OF 2(2)]) (use False u in auto)
    then show ?thesis using False by simp
  qed
next
  case (3 c f ap)
  show ?case
  proof (cases "c = NUL")
    case False
    then obtain d ap' u where u: "directive_text c ap = Some (d, ap')" "format_text False f ap' = Some u" "t = d @ u"
      using 3(2) by (auto split: option.splits)
    have "returns (bindK (printf_directive k 1 c ap w) (\<lambda>ap w. printf_loop k 1 False f ap w)) (\<lambda>_ w'. inp w' = inp w \<and> outp w' = outp w @ t)"
      unfolding returns_bindK
    proof (rule returns_mono [OF directive_prints [OF k u(1)]], elim conjE)
      fix r w' assume r: "r = ap'" "inp w' = inp w" "outp w' = outp w @ d"
      show "returns (printf_loop k 1 False f r w') (\<lambda>_ w'. inp w' = inp w \<and> outp w' = outp w @ t)"
        unfolding r(1) by (rule returns_mono [OF 3(1) [OF False u(1) refl u(2)]]) (use r u(3) in auto)
    qed
    then show ?thesis using False by simp
  qed (use 3 in auto)
qed auto

lemma printf_prints:
  "out_ok k inp outp \<Longrightarrow> format_text False f ap = Some t \<Longrightarrow> returns (printf k 1 f ap w) (\<lambda>_ w'. inp w' = inp w \<and> outp w' = outp w @ t)"
  unfolding printf_def by (rule format_prints)

section \<open>\<open>wc\<close>\<close>

definition wc_space :: "char \<Rightarrow> bool" where
  "wc_space c \<longleftrightarrow> c \<in> {CHR '' '', CHR 0x0D, CHR 0x09, newline_char, CHR 0x0B}"

text \<open>A word begins where a character that is no space follows a space or begins the text.\<close>

definition word_starts :: "string \<Rightarrow> nat set" where
  "word_starts s = {i. i < length s \<and> \<not> wc_space (s ! i) \<and> (i = 0 \<or> wc_space (s ! (i - 1)))}"

lemma word_starts_snoc:
  "word_starts (s @ [c]) = word_starts s \<union> (if \<not> wc_space c \<and> (s = [] \<or> wc_space (last s)) then {length s} else {})"
proof -
  have "i \<in> word_starts (s @ [c]) \<longleftrightarrow> i \<in> word_starts s" if "i < length s" for i
    using that by (auto simp: word_starts_def nth_append)
  moreover have "i \<notin> word_starts s" if "length s \<le> i" for i using that by (simp add: word_starts_def)
  moreover have "i \<notin> word_starts (s @ [c])" if "length s < i" for i using that by (simp add: word_starts_def)
  moreover have "length s \<in> word_starts (s @ [c]) \<longleftrightarrow> \<not> wc_space c \<and> (s = [] \<or> wc_space (last s))"
    by (cases s rule: rev_cases) (auto simp: word_starts_def nth_append)
  ultimately show ?thesis by (auto simp: set_eq_iff) (metis linorder_less_linear less_imp_le_nat order_refl)+
qed

lemma word_starts_fin: "finite (word_starts s)" "length s \<notin> word_starts s"
  by (auto simp: word_starts_def)

lemma wc_char_space: "strchr ('' '' @ [CHR 0x0D, CHR 0x09, newline_char, CHR 0x0B]) c \<noteq> None \<longleftrightarrow> wc_space c"
  unfolding wc_space_def by (subst strchr_mem) auto

lemma wc_char_eq:
  "wc_char ch (l, w, c, i) = ((if ch = newline_char then l + 1 else l), (if \<not> wc_space ch \<and> \<not> i then w + 1 else w), c + 1, \<not> wc_space ch)"
  unfolding wc_char_def prod.case Let_def wc_char_space by simp

lemma wc_fold:
  "fold wc_char s (0, 0, 0, False)
   = (of_nat (length (filter (\<lambda>c. c = newline_char) s)), of_nat (card (word_starts s)), of_nat (length s), s \<noteq> [] \<and> \<not> wc_space (last s))"
proof (induction s rule: rev_induct)
  case Nil
  then show ?case by (simp add: word_starts_def)
next
  case (snoc c s)
  have "card (word_starts (s @ [c])) = card (word_starts s) + (if \<not> wc_space c \<and> (s = [] \<or> wc_space (last s)) then 1 else 0)"
    unfolding word_starts_snoc using word_starts_fin [of s] by simp
  moreover have "wc_space newline_char" by (simp add: wc_space_def)
  moreover have "fold wc_char (s @ [c]) (0, 0, 0, False) = wc_char c (fold wc_char s (0, 0, 0, False))" by simp
  ultimately show ?case unfolding snoc wc_char_eq by auto
qed

lemma wc_loop_spec:
  assumes k: "in_ok k fd inp outp"
  shows "length (inp w) < fuel \<Longrightarrow>
    returns (wc_loop fuel k fd st w) (\<lambda>(n, st') w'. n = 0 \<and> st' = fold wc_char (inp w) st \<and> outp w' = outp w)"
proof (induction fuel arbitrary: st w)
  case (Suc fuel)
  have rd: "returns (c_read k fd 512 w) (\<lambda>(r, s) w'. r = int (length s) \<and> r \<le> 512
     \<and> inp w = s @ inp w' \<and> (s = [] \<longrightarrow> inp w = []) \<and> outp w' = outp w)"
    using k unfolding in_ok_def by simp
  show ?case unfolding wc_loop.simps returns_bindK
  proof (rule returns_mono [OF rd], clarify)
    fix s w'
    assume s: "int (length s) \<le> 512" "inp w = s @ inp w'" "s = [] \<longrightarrow> inp w = []" "outp w' = outp w"
    show "returns (if 0 < int (length s) then wc_loop fuel k fd (fold wc_char s st) w' else Ret (int (length s), st) w')
      (\<lambda>(n, st') w'. n = 0 \<and> st' = fold wc_char (inp w) st \<and> outp w' = outp w)"
    proof (cases "s = []")
      case False
      then have "length (inp w') < fuel" using s(2) Suc.prems by (cases s) auto
      then show ?thesis using False by (simp, intro returns_mono [OF Suc.IH]) (use s in auto)
    qed (use s in auto)
  qed
qed simp

abbreviation decimal :: "nat \<Rightarrow> string" where
  "decimal n \<equiv> number_chars (of_nat n) 10 True"

text \<open>C27. \<open>wc\<close> counts: whatever the pieces in which the reads deliver the input, it prints the number of
  newlines, the number of words (the places where a character that is no space begins the text or follows
  a space) and the number of characters, and it returns after at most one read per character. The
  counters are 32 bits wide.\<close>

theorem wc_counts:
  assumes "in_ok k fd inp outp" "out_ok k inp outp" "length (inp w) < fuel" "NUL \<notin> set name"
  shows "returns (wc fuel k fd name w) (\<lambda>_ w'. outp w' = outp w
    @ decimal (length (filter (\<lambda>c. c = newline_char) (inp w))) @ '' '' @ decimal (card (word_starts (inp w))) @ '' ''
    @ decimal (length (inp w)) @ '' '' @ name @ [newline_char])"
proof -
  have nm: "takeWhile (\<lambda>c. c \<noteq> NUL) name = name" using assms(4) by (auto intro: takeWhile_eq_all_conv [THEN iffD2])
  have t: "format_text False (''%d %d %d %s'' @ [newline_char]) [AInt l, AInt x, AInt c, AStr (Some name)]
    = Some (number_chars l 10 True @ '' '' @ number_chars x 10 True @ '' '' @ number_chars c 10 True @ '' '' @ name @ [newline_char])" for l x c
    by (simp add: nm)
  show ?thesis unfolding wc_def returns_bindK
  proof (rule returns_mono [OF wc_loop_spec [OF assms(1,3)]], clarify)
    fix l x c i w'
    assume a: "(l, x, c, i) = fold wc_char (inp w) (0, 0, 0, False)" "outp w' = outp w"
    note p = printf_prints [OF assms(2) t, of l x c w']
    have e: "l = of_nat (length (filter (\<lambda>c. c = newline_char) (inp w)))" "x = of_nat (card (word_starts (inp w)))"
      "c = of_nat (length (inp w))" using a(1) unfolding wc_fold by blast+
    show "returns (if (0 :: int) < 0 then bindK (printf k 1 (''wc: read error'' @ [newline_char]) [] w') (\<lambda>_. uexit)
       else printf k 1 (''%d %d %d %s'' @ [newline_char]) [AInt l, AInt x, AInt c, AStr (Some name)] w')
      (\<lambda>_ w'. outp w' = outp w @ decimal (length (filter (\<lambda>c. c = newline_char) (inp w))) @ '' '' @ decimal (card (word_starts (inp w))) @ '' ''
         @ decimal (length (inp w)) @ '' '' @ name @ [newline_char])"
      by (simp only: less_irrefl if_False, rule returns_mono [OF p]) (use a(2) e in simp)
  qed
qed

text \<open>Reads of three characters at a time.\<close>

definition piece_calls :: "(string \<times> string) calls" where
  "piece_calls = file_calls\<lparr>
     c_read := (\<lambda>fd n (i, j). Ret (int (length (take (min (nat n) 3) i)), take (min (nat n) 3) i) (drop (min (nat n) 3) i, j))\<rparr>"

lemma piece_calls_ok: "in_ok piece_calls fd fst snd" "out_ok piece_calls fst snd"
  by (auto simp: in_ok_def out_ok_def piece_calls_def file_calls_def)

theorem wc_counts_witness:
  "returns (wc 20 piece_calls 0 ''f'' (''ab c'' @ [newline_char], [])) (\<lambda>_ w'. snd w' = ''1 2 5 f'' @ [newline_char])"
proof -
  have d: "decimal 1 = ''1''" "decimal 2 = ''2''" "decimal 5 = ''5''" by (simp_all add: number_chars_def digits_loop.simps hexdigit_def)
  have "word_starts (''ab c'' @ [newline_char]) = {0, 3}"
    by (auto simp: word_starts_def wc_space_def less_Suc_eq nth_Cons')
  then have c: "card (word_starts (''ab c'' @ [newline_char])) = 2" by simp
  have n: "length (filter (\<lambda>c. c = newline_char) (''ab c'' @ [newline_char])) = 1" "length (''ab c'' @ [newline_char]) = 5" by simp_all
  let ?w = "(''ab c'' @ [newline_char], []) :: string \<times> string"
  have p: "length (fst ?w) < 20" "NUL \<notin> set ''f''" by simp_all
  have e: "decimal (length (filter (\<lambda>c. c = newline_char) (fst ?w))) = ''1''" "decimal (card (word_starts (fst ?w))) = ''2''"
    "decimal (length (fst ?w)) = ''5''" by (simp_all only: fst_conv c n d)
  have "returns (wc 20 piece_calls 0 ''f'' ?w) (\<lambda>_ w'. snd w' = snd ?w @ ''1'' @ '' '' @ ''2'' @ '' '' @ ''5'' @ '' '' @ ''f'' @ [newline_char])"
    using wc_counts [where k = piece_calls and fd = 0 and inp = fst and outp = snd and w = ?w and fuel = 20 and name = "''f''", OF piece_calls_ok p]
    unfolding e .
  then show ?thesis by (rule returns_mono) simp
qed

section \<open>\<open>cat\<close>\<close>

lemma cat_loop_spec:
  assumes k: "in_ok k fd inp outp" "out_ok k inp outp"
  shows "length (inp w) < fuel \<Longrightarrow> returns (cat_loop fuel k fd w) (\<lambda>n w'. n = 0 \<and> inp w' = [] \<and> outp w' = outp w @ inp w)"
proof (induction fuel arbitrary: w)
  case (Suc fuel)
  have rd: "returns (c_read k fd 512 w) (\<lambda>(r, s) w'. r = int (length s) \<and> r \<le> 512
     \<and> inp w = s @ inp w' \<and> (s = [] \<longrightarrow> inp w = []) \<and> outp w' = outp w)"
    using k unfolding in_ok_def by simp
  have wr: "returns (c_write k 1 s w) (\<lambda>r w'. r = int (length s) \<and> inp w' = inp w \<and> outp w' = outp w @ s)" for s w
    using k(2) by (simp add: out_ok_def)
  show ?case unfolding cat_loop.simps returns_bindK
  proof (rule returns_mono [OF rd], clarify)
    fix s w'
    assume s: "int (length s) \<le> 512" "inp w = s @ inp w'" "s = [] \<longrightarrow> inp w = []" "outp w' = outp w"
    have "returns (c_write k 1 s w') (\<lambda>r w'. returns (if r \<noteq> int (length s)
        then bindK (printf k 1 (''cat: write error'' @ [newline_char]) [] w') (\<lambda>_. uexit) else cat_loop fuel k fd w')
      (\<lambda>n w'. n = 0 \<and> inp w' = [] \<and> outp w' = outp w @ inp w))" if "s \<noteq> []"
    proof (rule returns_mono [OF wr], elim conjE)
      fix r z
      assume z: "r = int (length s)" "inp z = inp w'" "outp z = outp w' @ s"
      have "length (inp z) < fuel" using s(2) z(2) that Suc.prems by (cases s) auto
      from Suc.IH [OF this] show "returns (if r \<noteq> int (length s)
        then bindK (printf k 1 (''cat: write error'' @ [newline_char]) [] z) (\<lambda>_. uexit) else cat_loop fuel k fd z)
        (\<lambda>n w'. n = 0 \<and> inp w' = [] \<and> outp w' = outp w @ inp w)"
        using z s by simp
    qed
    then show "returns (if 0 < int (length s) then bindK (c_write k 1 s w') (\<lambda>r w. if r \<noteq> int (length s)
        then bindK (printf k 1 (''cat: write error'' @ [newline_char]) [] w) (\<lambda>_. uexit) else cat_loop fuel k fd w)
      else Ret (int (length s)) w') (\<lambda>n w'. n = 0 \<and> inp w' = [] \<and> outp w' = outp w @ inp w)"
      using s by (cases "s = []") simp_all
  qed
qed simp

end
