(* ===== verification/Xv6_Example.thy ===== *)
theory Xv6_Example
  imports Xv6_File Xv6_Log_Inv
begin

text \<open>
  A concrete state of the kernel after start-up, from which the witnesses of later theories build
  theirs: one running process, an empty buffer cache, a disk of 1000 blocks laid out as mkfs does it,
  no open file, no pipe.
\<close>

definition no_inode :: inode where
  "no_inode = \<lparr>i_dev = 0, i_inum = 0, i_ref = 0, i_valid = False, i_type = 0, i_major = 0, i_minor = 0, i_nlink = 0,
     i_size = 0, i_addrs = (\<lambda>_. 0)\<rparr>"

definition no_pipe :: pipe where
  "no_pipe = \<lparr>pi_data = (\<lambda>_. 0), pi_nread = 0, pi_nwrite = 0, pi_readopen = True, pi_writeopen = True\<rparr>"

definition no_ofile :: ofile where
  "no_ofile = \<lparr>f_type = FD_NONE, f_ref = 0, f_readable = False, f_writable = False, f_pipe = 0, f_ip = None, f_off = 0\<rparr>"

definition boot_fsst :: fsst where
  "boot_fsst = lst.extend (boot_lst\<lparr>lg := (lg boot_lst)\<lparr>lg_committing := 0\<rparr>\<rparr>)
     \<lparr>sb = \<lparr>sb_size = 1000, sb_nblocks = 941, sb_ninodes = 200, sb_nlog = 30, sb_logstart = 2, sb_inodestart = 32, sb_bmapstart = 58\<rparr>,
      icache = (\<lambda>_. no_inode), input = \<lparr>in_buf = (\<lambda>_. 0), in_r = 0, in_w = 0, in_e = 0\<rparr>,
      history = \<lparr>hs_command = (\<lambda>_ _. 0), hs_size = (\<lambda>_. 0), hs_index = 0\<rparr>, devsw_read = (\<lambda>_. False), devsw_write = (\<lambda>_. False),
      ftable = (\<lambda>_. no_ofile), pipes = (\<lambda>_. no_pipe)\<rparr>"

lemma boot_fsst_sel [simp]:
  "held boot_fsst = {}" "cur boot_fsst = Some 0" "pipes boot_fsst = (\<lambda>_. no_pipe)" "ftable boot_fsst = (\<lambda>_. no_ofile)"
  "icache boot_fsst = (\<lambda>_. no_inode)" "ptable boot_fsst = (\<lambda>_. no_proc)(0 := no_proc\<lparr>p_state := RUNNING, p_pid := 1\<rparr>)"
  "bufs boot_fsst = free_bufs" "disk boot_fsst = (\<lambda>_ _. 0)" "disksize boot_fsst = 1000"
  by (simp_all add: boot_fsst_def boot_lst_def lst.defs pst.defs boot_pst_def)

end
