(* ===== verification/Xv6_Pipe_Inv.thy ===== *)
theory Xv6_Pipe_Inv
  imports Xv6_Example
begin

text \<open>
  What pipes promise (src/pipe.c). The ring of \<open>PIPESIZE\<close> bytes with its two counters implements a queue
  of bytes; the counters run freely through 32 bits and are reduced modulo the size only when the ring
  is indexed, so the proofs show that their wrap-around does no harm. The locale \<open>byte_fifo\<close> is the contract
  of such a ring. The theorems say what \<open>pipewrite\<close> and \<open>piperead\<close> do to the queue and to the processes
  that wait for it, when they return and when they go to sleep.
\<close>

section \<open>The contract of a queue of bounded size\<close>

locale byte_fifo =
  fixes put :: "'c \<Rightarrow> 'q \<Rightarrow> 'q" and front :: "'q \<Rightarrow> 'c" and pop :: "'q \<Rightarrow> 'q"
    and full :: "'q \<Rightarrow> bool" and empty :: "'q \<Rightarrow> bool" and contents :: "'q \<Rightarrow> 'c list" and inv :: "'q \<Rightarrow> bool" and cap :: nat
  assumes put_contents: "inv q \<Longrightarrow> \<not> full q \<Longrightarrow> contents (put c q) = contents q @ [c]"
    and put_inv: "inv q \<Longrightarrow> \<not> full q \<Longrightarrow> inv (put c q)"
    and front_pop: "inv q \<Longrightarrow> \<not> empty q \<Longrightarrow> contents q = front q # contents (pop q)"
    and pop_inv: "inv q \<Longrightarrow> \<not> empty q \<Longrightarrow> inv (pop q)"
    and full_iff: "inv q \<Longrightarrow> full q \<longleftrightarrow> length (contents q) = cap"
    and empty_iff: "inv q \<Longrightarrow> empty q \<longleftrightarrow> contents q = []"
    and within: "inv q \<Longrightarrow> length (contents q) \<le> cap"
begin

lemma puts:
  "inv q \<Longrightarrow> length (contents q) + length cs \<le> cap \<Longrightarrow> contents (fold put cs q) = contents q @ cs \<and> inv (fold put cs q)"
proof (induction cs arbitrary: q)
  case (Cons c cs)
  then have "\<not> full q" using full_iff by auto
  then show ?case using Cons.IH [of "put c q"] Cons.prems put_contents [of q c] put_inv [of q c] by simp
qed simp

lemma pops:
  "inv q \<Longrightarrow> k \<le> length (contents q) \<Longrightarrow> contents ((pop ^^ k) q) = drop k (contents q) \<and> inv ((pop ^^ k) q)"
proof (induction k arbitrary: q)
  case (Suc k)
  then have "\<not> empty q" using empty_iff by auto
  then have q: "contents q = front q # contents (pop q)" "inv (pop q)" using Suc.prems(1) front_pop pop_inv by blast+
  then have "k \<le> length (contents (pop q))" using Suc.prems(2) by (metis Suc_le_mono length_Cons)
  from Suc.IH [OF q(2) this] show ?case unfolding funpow_Suc_right o_apply by (subst q(1)) simp
qed simp

end

section \<open>The ring of a pipe\<close>

definition pipe_pop :: "pipe \<Rightarrow> pipe" where
  "pipe_pop q = q\<lparr>pi_nread := pi_nread q + 1\<rparr>"

definition pipe_len :: "pipe \<Rightarrow> nat" where
  "pipe_len q = unat (pi_nwrite q - pi_nread q)"

definition pipe_queue :: "pipe \<Rightarrow> u8 list" where
  "pipe_queue q = map (\<lambda>i. pi_data q (unat (pi_nread q + of_nat i) mod PIPESIZE)) [0 ..< pipe_len q]"

definition pipe_ok :: "pipe \<Rightarrow> bool" where
  "pipe_ok q \<longleftrightarrow> pipe_len q \<le> PIPESIZE"

lemma pipe_queue_length [simp]: "length (pipe_queue q) = pipe_len q"
  by (simp add: pipe_queue_def)

text \<open>The size of the ring divides \<open>2 ^ 32\<close>, so the ring index is a function of the sum modulo \<open>2 ^ 32\<close>.\<close>

lemma ring_index: "unat (a + of_nat i :: u32) mod PIPESIZE = (unat a + i) mod PIPESIZE"
proof -
  have d: "(512 :: nat) dvd 2 ^ 32" by (simp add: dvd_def)
  have "unat (a + of_nat i) = (unat a + unat (of_nat i :: u32)) mod 2 ^ 32" by (simp add: unat_word_ariths)
  also have "\<dots> = (unat a + i mod 2 ^ 32) mod 2 ^ 32" by (simp add: unsigned_of_nat take_bit_eq_mod)
  also have "\<dots> = (unat a + i) mod 2 ^ 32" by (simp add: mod_add_right_eq)
  finally show ?thesis unfolding PIPESIZE_def by (simp only: mod_mod_cancel [OF d])
qed

lemma ring_distinct: "i < j \<Longrightarrow> j - i < PIPESIZE \<Longrightarrow> (a + i) mod PIPESIZE \<noteq> (a + j) mod PIPESIZE" for a i j :: nat
proof
  assume "i < j" "j - i < PIPESIZE" "(a + i) mod PIPESIZE = (a + j) mod PIPESIZE"
  then have "PIPESIZE dvd (a + j) - (a + i)" by (metis mod_eq_dvd_iff_nat add_le_mono1 less_imp_le_nat nat_add_left_cancel_le)
  then have "PIPESIZE dvd j - i" by simp
  then show False using \<open>i < j\<close> \<open>j - i < PIPESIZE\<close> by (auto dest: dvd_imp_le)
qed

lemma pipe_nwrite: "pi_nwrite q = pi_nread q + of_nat (pipe_len q)"
  by (simp add: pipe_len_def)

lemma pipe_full_len: "pipe_ok q \<Longrightarrow> pipe_full q \<longleftrightarrow> pipe_len q = PIPESIZE"
proof -
  assume "pipe_ok q"
  have "pipe_full q \<longleftrightarrow> pi_nwrite q - pi_nread q = of_nat PIPESIZE" by (auto simp: pipe_full_def algebra_simps)
  also have "\<dots> \<longleftrightarrow> pipe_len q = PIPESIZE" by (simp add: pipe_len_def word_unat_eq_iff PIPESIZE_def)
  finally show ?thesis .
qed

lemma pipe_empty_len: "pi_nread q = pi_nwrite q \<longleftrightarrow> pipe_len q = 0"
  by (auto simp: pipe_len_def unat_eq_0)

lemma pipe_put_len: "pipe_ok q \<Longrightarrow> pipe_len (pipe_put c q) = Suc (pipe_len q)"
proof -
  assume "pipe_ok q"
  then have "pipe_len q + 1 < 2 ^ 32" by (simp add: pipe_ok_def PIPESIZE_def)
  then have "unat ((pi_nwrite q - pi_nread q) + 1) = pipe_len q + 1" by (simp add: pipe_len_def unat_word_ariths)
  moreover have "pi_nwrite (pipe_put c q) - pi_nread (pipe_put c q) = (pi_nwrite q - pi_nread q) + 1" by (simp add: pipe_put_def)
  ultimately show ?thesis by (simp only: pipe_len_def Suc_eq_plus1)
qed

lemma pipe_pop_len: "pipe_len q \<noteq> 0 \<Longrightarrow> pipe_len (pipe_pop q) = pipe_len q - 1"
proof -
  assume "pipe_len q \<noteq> 0"
  then have "1 \<le> pi_nwrite q - pi_nread q" by (simp add: pipe_len_def word_le_nat_alt)
  from unat_sub [OF this] show ?thesis by (simp add: pipe_len_def pipe_pop_def algebra_simps)
qed

lemma pipe_put_queue:
  assumes "pipe_ok q" "\<not> pipe_full q"
  shows "pipe_queue (pipe_put c q) = pipe_queue q @ [c]"
proof -
  have n: "pipe_len q < PIPESIZE" using assms pipe_full_len by (auto simp: pipe_ok_def)
  have w: "unat (pi_nwrite q) mod PIPESIZE = (unat (pi_nread q) + pipe_len q) mod PIPESIZE"
    unfolding pipe_nwrite [of q] by (rule ring_index)
  have "pi_data (pipe_put c q) ((unat (pi_nread q) + i) mod PIPESIZE) = (if i = pipe_len q then c else pi_data q ((unat (pi_nread q) + i) mod PIPESIZE))"
    if "i \<le> pipe_len q" for i
    using ring_distinct [of i "pipe_len q" "unat (pi_nread q)"] that n w by (auto simp: pipe_put_def)
  then show ?thesis unfolding pipe_queue_def pipe_put_len [OF assms(1)] ring_index
    by (simp add: pipe_put_def ring_index)
qed

lemma pipe_pop_queue:
  assumes "pipe_len q \<noteq> 0"
  shows "pipe_queue q = pipe_front q # pipe_queue (pipe_pop q)"
proof (rule nth_equalityI)
  show "length (pipe_queue q) = length (pipe_front q # pipe_queue (pipe_pop q))" using assms by (simp add: pipe_pop_len)
  fix i assume "i < length (pipe_queue q)"
  then have i: "i < pipe_len q" by simp
  show "pipe_queue q ! i = (pipe_front q # pipe_queue (pipe_pop q)) ! i"
  proof (cases i)
    case 0
    then show ?thesis using assms by (simp add: pipe_queue_def pipe_front_def)
  next
    case (Suc j)
    then have "j < pipe_len (pipe_pop q)" using i pipe_pop_len [OF assms] by simp
    then have "pipe_queue (pipe_pop q) ! j = pi_data (pipe_pop q) (unat (pi_nread (pipe_pop q) + of_nat j) mod PIPESIZE)"
      by (simp add: pipe_queue_def)
    then show ?thesis using Suc i by (simp add: pipe_queue_def pipe_pop_def add.assoc)
  qed
qed

interpretation pf: byte_fifo pipe_put pipe_front pipe_pop pipe_full "\<lambda>q. pi_nread q = pi_nwrite q" pipe_queue pipe_ok PIPESIZE
proof unfold_locales
  fix q c
  assume q: "pipe_ok q"
  show "pipe_full q \<longleftrightarrow> length (pipe_queue q) = PIPESIZE" using pipe_full_len [OF q] by simp
  show "length (pipe_queue q) \<le> PIPESIZE" using q by (simp add: pipe_ok_def)
  show "pi_nread q = pi_nwrite q \<longleftrightarrow> pipe_queue q = []" using pipe_empty_len [of q] pipe_queue_length [of q] by (metis length_0_conv)
  { assume f: "\<not> pipe_full q"
    show "pipe_queue (pipe_put c q) = pipe_queue q @ [c]" using pipe_put_queue q f .
    show "pipe_ok (pipe_put c q)" using q f pipe_full_len [OF q] by (simp add: pipe_ok_def pipe_put_len) }
  { assume e: "\<not> pi_nread q = pi_nwrite q"
    then have n: "pipe_len q \<noteq> 0" using pipe_empty_len by blast
    show "pipe_queue q = pipe_front q # pipe_queue (pipe_pop q)" using pipe_pop_queue [OF n] .
    show "pipe_ok (pipe_pop q)" using q n by (simp add: pipe_ok_def pipe_pop_len) }
qed

section \<open>Writing\<close>

lemma upd_pipe_sel [simp]:
  "pipes (upd_pipe p f s) = (pipes s)(p := f (pipes s p))" "held (upd_pipe p f s) = held s" "cur (upd_pipe p f s) = cur s"
  "ptable (upd_pipe p f s) = ptable s" "pages (upd_pipe p f s) = pages s" "cr3 (upd_pipe p f s) = cr3 s"
  by (simp_all add: upd_pipe_def)

lemma upd_proc_pipes [simp]: "pipes (upd_proc i f s) = pipes s" "cr3 (upd_proc i f s) = cr3 s"
  by (simp_all add: upd_proc_def)

lemma upd_pipe_twice: "upd_pipe p f (upd_pipe p g s) = upd_pipe p (f \<circ> g) s"
  by (simp add: upd_pipe_def)

text \<open>The full pipe: the branch of the loop in which the writer gives up or sleeps.\<close>

definition pipewrite_blocked :: "u32 \<Rightarrow> nat \<Rightarrow> 'z fsst_scheme \<Rightarrow> ('z fsst_scheme, bool) outcome" where
  "pipewrite_blocked p i s =
     myprocK s (\<lambda>q.
     if \<not> pi_readopen (pipes s p) \<or> p_killed (ptable s q) then Ret False s
     else
       bindK (wakeup (ch_nread p) s) (\<lambda>_ s.
       sleep i (ch_nwrite p) (pipe_lock p) s))"

lemma pipewrite_loop_eq:
  assumes "pipe_ok (pipes s p)" "\<forall>j < length cs. load8 addr (i + j) s = Ret (cs ! j) s"
  shows "pipewrite_loop p addr i (length cs) s =
    (let m = min (length cs) (PIPESIZE - pipe_len (pipes s p)); t = upd_pipe p (fold pipe_put (take m cs)) s
     in if m = length cs then Ret True t else pipewrite_blocked p (i + m) t)"
  using assms
proof (induction cs arbitrary: i s)
  case Nil
  show ?case by (simp add: upd_pipe_def id_def)
next
  case (Cons c cs)
  let ?q = "pipes s p"
  show ?case
  proof (cases "pipe_full ?q")
    case True
    then have "pipe_len ?q = PIPESIZE" using pipe_full_len Cons.prems(1) by blast
    then show ?thesis using True by (simp add: pipewrite_blocked_def upd_pipe_def id_def)
  next
    case False
    then have n: "pipe_len ?q < PIPESIZE" using pipe_full_len [OF Cons.prems(1)] Cons.prems(1) by (simp add: pipe_ok_def)
    have l: "load8 addr i s = Ret c s" using Cons.prems(2) by force
    let ?s = "upd_pipe p (pipe_put c) s"
    have ok: "pipe_ok (pipes ?s p)" using pf.put_inv [OF Cons.prems(1) False] by simp
    have ld: "\<forall>j < length cs. load8 addr (i + 1 + j) ?s = Ret (cs ! j) ?s"
    proof (intro allI impI)
      fix j assume "j < length cs"
      then have "load8 addr (i + Suc j) s = Ret ((c # cs) ! Suc j) s" using Cons.prems(2) by (metis Suc_less_eq length_Cons)
      then show "load8 addr (i + 1 + j) ?s = Ret (cs ! j) ?s" using load8_transfer [of addr "i + Suc j" s "cs ! j" ?s] by simp
    qed
    have m: "min (length (c # cs)) (PIPESIZE - pipe_len ?q) = Suc (min (length cs) (PIPESIZE - pipe_len (pipes ?s p)))"
      using n pipe_put_len [OF Cons.prems(1), of c] by simp
    have eq: "pipewrite_loop p addr i (length (c # cs)) s = pipewrite_loop p addr (i + 1) (length cs) ?s" using False l by simp
    show ?thesis unfolding eq Cons.IH [OF ok ld] m Let_def by (simp add: upd_pipe_twice comp_def)
  qed
qed

text \<open>An outcome that is a return or a switch to another thread.\<close>

primrec ends :: "('s, 'a) outcome \<Rightarrow> ('a \<Rightarrow> 's \<Rightarrow> bool) \<Rightarrow> (nat \<Rightarrow> 's \<Rightarrow> bool) \<Rightarrow> bool" where
  "ends (Ret x s) P Q = P x s"
| "ends (Panic m) P Q = False"
| "ends (Undef m) P Q = False"
| "ends (Swtch k s) P Q = Q k s"
| "ends Diverge P Q = False"

definition nobody_waits :: "chan \<Rightarrow> 'z pst_scheme \<Rightarrow> bool" where
  "nobody_waits ch s \<longleftrightarrow> (\<forall>i < NPROC. \<not> (p_state (ptable s i) = SLEEPING \<and> p_chan (ptable s i) = Some ch))"

lemma wake_all_waits: "i < NPROC \<Longrightarrow> p_state (wake_all ch tbl i) = SLEEPING \<Longrightarrow> p_chan (tbl i) \<noteq> Some ch"
  by (auto simp: wake_all_def wake_def split: if_splits)

lemma wake_all_killed [simp]: "p_killed (wake_all ch tbl i) = p_killed (tbl i)" "p_chan (wake_all ch tbl i) = p_chan (tbl i)"
  by (simp_all add: wake_all_def wake_def)

text \<open>The rest of \<open>pipewrite\<close> from byte \<open>i\<close> on, with the lock of the pipe held.\<close>

definition wrote :: "u32 \<Rightarrow> nat \<Rightarrow> int \<Rightarrow> u8 list \<Rightarrow> nat \<Rightarrow> 'z fsst_scheme \<Rightarrow> ('z fsst_scheme, int) outcome \<Rightarrow> bool" where
  "wrote p me n bs i s m \<longleftrightarrow> ends m
     (\<lambda>r t. pipe_ok (pipes t p) \<and> held t = {} \<and>
        (r = n \<and> pipe_queue (pipes t p) = pipe_queue (pipes s p) @ drop i bs \<and> nobody_waits (ch_nread p) t
         \<or> r = - 1 \<and> (\<not> pi_readopen (pipes s p) \<or> p_killed (ptable s me)) \<and> pipe_len (pipes t p) = PIPESIZE))
     (\<lambda>j t. i \<le> j \<and> j < length bs \<and> pipe_queue (pipes t p) = pipe_queue (pipes s p) @ take (j - i) (drop i bs)
        \<and> pipe_len (pipes t p) = PIPESIZE \<and> pi_readopen (pipes t p) \<and> held t = {LPtable} \<and> nobody_waits (ch_nread p) t
        \<and> p_state (ptable t me) = SLEEPING \<and> p_chan (ptable t me) = Some (ch_nwrite p))"

lemma fold_pipe_put_open [simp]: "pi_readopen (fold pipe_put cs q) = pi_readopen q"
  by (induction cs arbitrary: q) (simp_all add: pipe_put_def)

lemma pipewrite_rest:
  fixes s :: "'z fsst_scheme"
  assumes ok: "pipe_ok (pipes s p)" and h: "held s = {pipe_lock p}" "cur s = Some me" and i: "i \<le> length bs"
    and ld: "\<forall>j < length bs. load8 addr j s = Ret (bs ! j) s" and n: "length bs = nat (sint n)"
  shows "wrote p me (sint n) bs i s (bindK (pipewrite_loop p addr i (length bs - i) s) (\<lambda>ok s. pipewrite_end p n ok s))"
proof -
  let ?cs = "drop i bs" and ?L = "pipe_len (pipes s p)"
  define m where "m = min (length ?cs) (PIPESIZE - ?L)"
  define t where "t = upd_pipe p (fold pipe_put (take m ?cs)) s"
  have ld': "\<forall>j < length ?cs. load8 addr (i + j) s = Ret (?cs ! j) s" using ld i by auto
  have eq: "pipewrite_loop p addr i (length bs - i) s = (if m = length ?cs then Ret True t else pipewrite_blocked p (i + m) t)"
    using pipewrite_loop_eq [OF ok ld'] by (simp add: m_def t_def Let_def)
  have "length (pipe_queue (pipes s p)) + length (take m ?cs) \<le> PIPESIZE" using ok by (auto simp: m_def pipe_ok_def)
  from pf.puts [OF ok this] have q: "pipe_queue (pipes t p) = pipe_queue (pipes s p) @ take m ?cs" "pipe_ok (pipes t p)"
    by (simp_all add: t_def)
  have t: "held t = {pipe_lock p}" "cur t = Some me" "ptable t = ptable s" "pi_readopen (pipes t p) = pi_readopen (pipes s p)"
    using h by (simp_all add: t_def)
  show ?thesis
  proof (cases "m = length ?cs")
    case True
    then show ?thesis using q t unfolding eq
      by (simp add: wrote_def pipewrite_end_def wakeup_eq release_def nobody_waits_def wake_all_waits)
  next
    case False
    then have full: "pipe_len (pipes t p) = PIPESIZE" "i + m < length bs"
      using arg_cong [OF q(1), of length] ok unfolding m_def by (auto simp: pipe_ok_def min_def split: if_splits)
    have "nobody_waits (ch_nread p) (upd_proc me (\<lambda>q. q\<lparr>p_chan := Some (ch_nwrite p), p_state := SLEEPING\<rparr>)
       (t\<lparr>ptable := wake_all (ch_nread p) (ptable t)\<rparr>))"
      unfolding nobody_waits_def using wake_all_waits by (auto simp: upd_proc_def)
    then show ?thesis using q t full False unfolding eq
      by (auto simp: wrote_def pipewrite_blocked_def pipewrite_end_def myprocK_def wakeup_eq release_def acquire_def sleep_def sched_def nobody_waits_def)
  qed
qed


text \<open>A writer that is switched in again goes on with the byte at which it stopped.\<close>

lemma pipewrite_resume_fifo:
  assumes "pipe_ok (pipes s p)" "held s = {LPtable}" "cur s = Some me" "i \<le> length bs"
    and "load_bytes addr 0 (nat (sint n)) s = Ret bs s"
  shows "wrote p me (sint n) bs i s (pipewrite_resume p addr n i s)"
proof -
  let ?s = "(upd_proc me (p_chan_update (\<lambda>_. None)) s)\<lparr>held := {pipe_lock p}\<rparr>"
  have l: "length bs = nat (sint n)" "\<forall>j < length bs. load8 addr j ?s = Ret (bs ! j) ?s"
    using load_bytes_nth [OF assms(5)] load8_transfer [of addr _ s _ ?s] by (auto simp: upd_proc_def)
  have "pipewrite_resume p addr n i s = bindK (pipewrite_loop p addr i (length bs - i) ?s) (\<lambda>ok s. pipewrite_end p n ok s)"
    using assms(2,3) l(1) by (simp add: pipewrite_resume_def sleep_resume_def myprocK_def Let_def acquire_def release_def)
  moreover have "wrote p me (sint n) bs i ?s \<dots>" using assms l by (intro pipewrite_rest) (simp_all add: upd_proc_def)
  ultimately show ?thesis by (simp add: wrote_def upd_proc_def)
qed

section \<open>Reading\<close>

lemma bindK_cong: "(\<And>x t. m = Ret x t \<Longrightarrow> f x t = g x t) \<Longrightarrow> bindK m f = bindK m g"
  by (cases m) auto

lemma store8_pipes: "store8 m i v s = Ret x u \<Longrightarrow> pipes u = pipes s"
  by (auto simp: store8_def wr8_def split: mem.splits option.splits)

lemma store8_upd_pipe:
  "store8 m i v (upd_pipe p f s) = bindK (store8 m i v s) (\<lambda>_ u. Ret () (upd_pipe p f u))"
  by (auto simp: store8_def user_ka_def wr8_def upd_pipe_def split: mem.splits option.splits)

lemma piperead_copy_eq:
  assumes "pipe_ok (pipes s p)"
  shows "piperead_copy p addr i k s =
    (let m = min k (pipe_len (pipes s p))
     in bindK (store_bytes addr i (take m (pipe_queue (pipes s p))) (upd_pipe p (pipe_pop ^^ m) s)) (\<lambda>_ t. Ret (i + m) t))"
  using assms
proof (induction k arbitrary: i s)
  case 0
  show ?case by (simp add: upd_pipe_def id_def)
next
  case (Suc k)
  let ?q = "pipes s p"
  show ?case
  proof (cases "pipe_len ?q = 0")
    case True
    then show ?thesis using pipe_empty_len [of ?q] by (simp add: upd_pipe_def id_def pipe_queue_def)
  next
    case False
    then have ne: "pi_nread ?q \<noteq> pi_nwrite ?q" by (simp add: pipe_empty_len)
    let ?s = "upd_pipe p pipe_pop s" and ?c = "pipe_front ?q"
    let ?m = "min k (pipe_len (pipe_pop ?q))"
    have ok: "pipe_ok (pipe_pop ?q)" using pf.pop_inv [OF Suc.prems ne] .
    have m: "min (Suc k) (pipe_len ?q) = Suc ?m" using False pipe_pop_len [OF False] by simp
    have pp: "pi_nread_update (\<lambda>r. r + 1) = pipe_pop" by (rule ext, rule pipe.equality) (simp_all add: pipe_pop_def)
    have "piperead_copy p addr i (Suc k) s = bindK (store8 addr i ?c ?s) (\<lambda>_ s. piperead_copy p addr (i + 1) k s)"
      using ne by (simp add: pp)
    also have "\<dots> = bindK (store8 addr i ?c ?s) (\<lambda>_ u. bindK (store_bytes addr (i + 1) (take ?m (pipe_queue (pipe_pop ?q))) (upd_pipe p (pipe_pop ^^ ?m) u)) (\<lambda>_ t. Ret (i + Suc ?m) t))"
    proof (rule bindK_cong)
      fix x u assume "store8 addr i ?c ?s = Ret x u"
      then have "pipes u = pipes ?s" by (rule store8_pipes)
      then show "piperead_copy p addr (i + 1) k u = bindK (store_bytes addr (i + 1) (take ?m (pipe_queue (pipe_pop ?q))) (upd_pipe p (pipe_pop ^^ ?m) u)) (\<lambda>_ t. Ret (i + Suc ?m) t)"
        using Suc.IH [of u "i + 1"] ok by (simp add: Let_def)
    qed
    also have "\<dots> = bindK (store8 addr i ?c (upd_pipe p (pipe_pop ^^ ?m) ?s)) (\<lambda>_ u. bindK (store_bytes addr (i + 1) (take ?m (pipe_queue (pipe_pop ?q))) u) (\<lambda>_ t. Ret (i + Suc ?m) t))"
      by (simp add: store8_upd_pipe bindK_assoc)
    finally show ?thesis unfolding Let_def m pipe_pop_queue [OF False]
      by (simp add: upd_pipe_twice bindK_assoc funpow_swap1 comp_def funpow_Suc_right del: funpow.simps)
  qed
qed

text \<open>C29. \<open>piperead\<close> takes the oldest bytes out of the queue of a pipe. It does not panic. If the queue is
  empty and a writer exists it sleeps, or returns \<open>- 1\<close> to a process that was killed; otherwise it stores as
  many bytes from the front of the queue as are there and were asked for, in order, and returns their
  number, which is 0 at the end of the stream. No writer is left asleep.\<close>

theorem piperead_fifo:
  assumes "pipe_ok (pipes s p)" and "held s = {}" and "cur s = Some me" and "m = min (nat (sint n)) (pipe_len (pipes s p))"
    and "store_bytes addr 0 (take m (pipe_queue (pipes s p))) s = Ret () u"
  shows "ends (piperead p addr n s)
     (\<lambda>r t. pipe_ok (pipes t p) \<and> held t = {} \<and>
        (r = - 1 \<and> p_killed (ptable s me) \<and> pipe_queue (pipes s p) = [] \<and> pipes t = pipes s
         \<or> r = int m \<and> pipe_queue (pipes t p) = drop m (pipe_queue (pipes s p)) \<and> pages t = pages u
           \<and> (\<not> pi_writeopen (pipes s p) \<or> pipe_queue (pipes s p) \<noteq> []) \<and> nobody_waits (ch_nwrite p) t))
     (\<lambda>_ t. pipe_queue (pipes s p) = [] \<and> pi_writeopen (pipes s p) \<and> pipes t = pipes s \<and> held t = {LPtable}
        \<and> p_state (ptable t me) = SLEEPING \<and> p_chan (ptable t me) = Some (ch_nread p))"
proof -
  let ?q = "pipes s p" and ?s = "s\<lparr>held := {pipe_lock p}\<rparr>"
  have e: "pi_nread ?q = pi_nwrite ?q \<longleftrightarrow> pipe_queue ?q = []" using pf.empty_iff assms(1) by blast
  have acq: "piperead p addr n s = bindK (piperead_wait p ?s) (\<lambda>ok s. piperead_end p addr n ok s)"
    using assms(2) by (simp add: piperead_def acquire_def)
  show ?thesis
  proof (cases "pipe_queue ?q = [] \<and> pi_writeopen ?q")
    case True
    then show ?thesis unfolding acq using assms(1-3) e
      by (auto simp: piperead_wait_def piperead_end_def myprocK_def release_def acquire_def sleep_def sched_def)
  next
    case False
    let ?t = "upd_pipe p (pipe_pop ^^ m) ?s"
    have "store_bytes addr 0 (take m (pipe_queue ?q)) ?t = Ret () (?t\<lparr>pages := pages u\<rparr>)"
      using store_bytes_transfer [OF assms(5), of ?t] by simp
    then have c: "piperead_copy p addr 0 (nat (sint n)) ?s = Ret m (?t\<lparr>pages := pages u\<rparr>)"
      using piperead_copy_eq [of ?s p addr 0 "nat (sint n)"] assms(1,4) by (simp add: Let_def)
    have "m \<le> length (pipe_queue ?q)" using assms(4) by simp
    note q = pf.pops [OF assms(1) this]
    have w: "piperead_wait p ?s = Ret True ?s" using False e by (auto simp: piperead_wait_def)
    show ?thesis unfolding acq w using c q False
      by (auto simp: piperead_end_def wakeup_eq release_def nobody_waits_def wake_all_waits)
  qed
qed

section \<open>Witnesses\<close>

text \<open>A pipe whose counters are about to wrap around, with one byte in it and its reader open.\<close>

definition wrapping_pipe :: pipe where
  "wrapping_pipe = no_pipe\<lparr>pi_nread := 0xFFFFFFFE, pi_nwrite := 0xFFFFFFFF, pi_data := (\<lambda>_. 0)(510 := 7)\<rparr>"

definition piped :: fsst where
  "piped = boot_fsst\<lparr>pipes := (\<lambda>_. wrapping_pipe)\<rparr>"

lemma piped_sel [simp]: "held piped = {}" "cur piped = Some 0" "pipes piped = (\<lambda>_. wrapping_pipe)"
  by (simp_all add: piped_def)

lemma wrapping_pipe: "pipe_ok wrapping_pipe" "pipe_queue wrapping_pipe = [7]" "pipe_len wrapping_pipe = 1" "pi_writeopen wrapping_pipe" "pi_readopen wrapping_pipe"
  by (simp_all add: wrapping_pipe_def no_pipe_def pipe_ok_def pipe_len_def pipe_queue_def PIPESIZE_def)


theorem piperead_fifo_witness:
  "ends (piperead 0x80400000 (MLocal (\<lambda>_. 0)) 5 piped)
     (\<lambda>r t. r = 1 \<and> pipe_queue (pipes t 0x80400000) = [] \<and> held t = {}) (\<lambda>i t. False)"
proof -
  have "store_bytes (MLocal (\<lambda>_. 0)) 0 (take 1 (pipe_queue (pipes piped 0x80400000))) piped = Ret () piped"
    by (simp add: wrapping_pipe store8_def)
  from piperead_fifo [where p = "0x80400000" and me = 0 and n = 5, OF _ _ _ _ this] show ?thesis using wrapping_pipe
    by (cases "piperead 0x80400000 (MLocal (\<lambda>_. 0)) 5 piped") auto
qed

end
