(* ===== verification/Xv6_Txn.thy ===== *)
theory Xv6_Txn
  imports Xv6_Log_Inv Xv6_Inode
begin

unbundle bit_operations_syntax

text \<open>
  Block updates inside a transaction (\<open>log_write\<close> of src/log.c between \<open>begin_op\<close> and \<open>end_op\<close>). \<open>op_ok\<close> is
  the invariant of a file-system call that is under way: the buffer cache is consistent, and the pinned
  buffers are those of the blocks that the log header names. The lemmas give one rule for the pattern
  that all of src/fs.c uses, \<open>bread\<close>, change the data, \<open>log_write\<close>, \<open>brelse\<close>, in terms of \<open>blk\<close>, the content of
  the blocks as the kernel sees them; they hold while other buffers are held, as \<open>bmap\<close> needs it.
\<close>

section \<open>The invariant of an operation\<close>

definition logged_blocks :: "'z lst_scheme \<Rightarrow> u32 set" where
  "logged_blocks s = lh_block (lg_lh (lg s)) ` {..<lh_count s}"

definition op_ok :: "'z lst_scheme \<Rightarrow> bool" where
  "op_ok s \<longleftrightarrow> bio_ok s \<and> log_wf s \<and> unat (lg_size (lg s)) = LOGSIZE \<and> 0 < sint (lg_outstanding (lg s))
     \<and> lh_n (lg_lh (lg s)) = of_nat (lh_count s) \<and> entries_ok s (lh_count s) (lh_block (lg_lh (lg s))) \<and> pins s = logged_blocks s"

text \<open>Everything but the cache, sleepers and the log header is unchanged.\<close>

definition op_frame :: "'z lst_scheme \<Rightarrow> 'z lst_scheme \<Rightarrow> bool" where
  "op_frame s t \<longleftrightarrow> bio_frame (s\<lparr>lg := lg t\<rparr>) t \<and> lg t = (lg s)\<lparr>lg_lh := lg_lh (lg t)\<rparr>"

lemma lg_irrelevant [simp]:
  "bufs (s\<lparr>lg := x\<rparr>) = bufs s" "blk (s\<lparr>lg := x\<rparr>) = blk s" "in_use (s\<lparr>lg := x\<rparr>) = in_use s" "pins (s\<lparr>lg := x\<rparr>) = pins s"
  "blockno (s\<lparr>lg := x\<rparr>) = blockno s" "bdata (s\<lparr>lg := x\<rparr>) = bdata s" "bio_ok (s\<lparr>lg := x\<rparr>) = bio_ok s"
  by (simp_all add: blk_def in_use_def pins_def pinned_def blockno_def bdata_def bio_ok_def buf_ok_def caches_def owned_sleep_def fun_eq_iff
      cong: option.case_cong)

lemma bio_frame_lg_upd: "bio_frame s t \<Longrightarrow> bio_frame (s\<lparr>lg := x\<rparr>) (t\<lparr>lg := x\<rparr>)"
proof -
  assume f: "bio_frame s t"
  let ?r = "\<lambda>t. t\<lparr>bufs := bufs s, disk := disk s, dhist := dhist s, sleeplocks := sleeplocks s, ptable := ptable s\<rparr>"
  have "?r (t\<lparr>lg := x\<rparr>) = (?r t)\<lparr>lg := x\<rparr>" by (rule lst.equality) simp_all
  also have "?r t = s" using f by (simp add: bio_frame_def)
  finally show ?thesis using f by (simp add: bio_frame_def)
qed

lemma op_frame_refl [simp]: "op_frame s s"
  by (simp add: op_frame_def)

lemma op_frame_trans: "op_frame s t \<Longrightarrow> op_frame t u \<Longrightarrow> op_frame s u"
proof -
  assume a: "op_frame s t" "op_frame t u"
  have "bio_frame (s\<lparr>lg := lg t\<rparr>\<lparr>lg := lg u\<rparr>) (t\<lparr>lg := lg u\<rparr>)" using a(1) bio_frame_lg_upd by (fastforce simp: op_frame_def)
  moreover have "bio_frame (t\<lparr>lg := lg u\<rparr>) u" using a(2) by (simp add: op_frame_def)
  ultimately have "bio_frame (s\<lparr>lg := lg u\<rparr>) u" using bio_frame_trans by fastforce
  moreover have "lg u = (lg s)\<lparr>lg_lh := lg_lh (lg u)\<rparr>"
  proof -
    have "lg t = (lg s)\<lparr>lg_lh := lg_lh (lg t)\<rparr>" "lg u = (lg t)\<lparr>lg_lh := lg_lh (lg u)\<rparr>" using a by (auto simp: op_frame_def)
    then show ?thesis by (metis loginfo.update_convs(6) loginfo.surjective)
  qed
  ultimately show ?thesis by (simp add: op_frame_def)
qed

lemma bio_op_frame: "bio_frame s t \<Longrightarrow> op_frame s t"
  using bio_frame_lg [of s t] by (simp add: op_frame_def)

lemma lst_more_eq: "bst.more t = bst.more s \<Longrightarrow> lst.more t = lst.more s"
  by (cases s; cases t) auto

lemma op_frame_sel:
  assumes "op_frame s t"
  shows "held t = held s" "cur t = cur s" "disksize t = disksize s" "lst.more t = lst.more s" "lg_dev (lg t) = lg_dev (lg s)"
    "lg_start (lg t) = lg_start (lg s)" "lg_size (lg t) = lg_size (lg s)" "lg_outstanding (lg t) = lg_outstanding (lg s)" "log_area t = log_area s"
proof -
  have f: "bio_frame (s\<lparr>lg := lg t\<rparr>) t" "lg t = (lg s)\<lparr>lg_lh := lg_lh (lg t)\<rparr>" using assms by (auto simp: op_frame_def)
  show "held t = held s" "cur t = cur s" "disksize t = disksize s" using bio_frame_sel [OF f(1)] by simp_all
  show "lst.more t = lst.more s" using lst_more_eq [OF bio_frame_sel(4) [OF f(1)]] by simp
  show l: "lg_dev (lg t) = lg_dev (lg s)" "lg_start (lg t) = lg_start (lg s)" "lg_size (lg t) = lg_size (lg s)"
    "lg_outstanding (lg t) = lg_outstanding (lg s)" by (subst f(2), simp)+
  show "log_area t = log_area s" using l(2,3) by (simp add: log_area_def log_cap_def)
qed

section \<open>Logging a block\<close>

definition add_entry :: "u32 \<Rightarrow> logheader \<Rightarrow> nat \<Rightarrow> logheader" where
  "add_entry n h k = (if n \<in> lh_block h ` {..<k} then h else h\<lparr>lh_block := (lh_block h)(k := n), lh_n := lh_n h + 1\<rparr>)"

lemma op_okD:
  assumes "op_ok s"
  shows "bio_ok s" "log_wf s" "lh_count s \<le> LOGSIZE" "sint (lh_n (lg_lh (lg s))) = int (lh_count s)" "card (pins s) = lh_count s"
    "held s = {}" "pins s = logged_blocks s"
proof -
  show b: "bio_ok s" "log_wf s" and p: "pins s = logged_blocks s" using assms by (auto simp: op_ok_def)
  then show "held s = {}" using bio_ok_idle by blast
  have e: "entries_ok s (lh_count s) (lh_block (lg_lh (lg s)))" using assms by (simp add: op_ok_def)
  then show l: "lh_count s \<le> LOGSIZE" by (simp add: entries_ok_def)
  have "lh_n (lg_lh (lg s)) = of_nat (lh_count s)" using assms by (simp add: op_ok_def)
  then show "sint (lh_n (lg_lh (lg s))) = int (lh_count s)" using l sint_of_nat32 [of "lh_count s"] by (simp add: LOGSIZE_def MAXOPBLOCKS_def)
  show "card (pins s) = lh_count s" unfolding p logged_blocks_def using e card_image by (fastforce simp: entries_ok_def)
qed

lemma log_write_eq:
  assumes ok: "op_ok s" and room: "Suc (lh_count s) < LOGSIZE"
  shows "log_write b s = Ret () (pin b (s\<lparr>lg := (lg s)\<lparr>lg_lh := add_entry (blockno s b) (lg_lh (lg s)) (lh_count s)\<rparr>\<rparr>))"
proof -
  let ?h = "lg_lh (lg s)" and ?k = "lh_count s" and ?n = "blockno s b"
  have n: "sint (lh_n ?h) = int ?k" "lh_n ?h = of_nat ?k" "held s = {}" using op_okD [OF ok] ok by (auto simp: op_ok_def)
  have sz: "sint (lg_size (lg s) - 1) = int LOGSIZE - 1"
  proof -
    have "unat (lg_size (lg s)) = LOGSIZE" using ok by (simp add: op_ok_def)
    then have "lg_size (lg s) = of_nat LOGSIZE" by (simp add: word_unat_eq_iff LOGSIZE_def MAXOPBLOCKS_def)
    then show ?thesis by (simp add: LOGSIZE_def MAXOPBLOCKS_def)
  qed
  have o: "\<not> sint (lg_outstanding (lg s)) < 1" using ok by (simp add: op_ok_def)
  let ?s = "s\<lparr>held := {LLog}\<rparr>"
  have acq: "log_write b s = (let i = log_slot ?n ?s; u = upd_lh (lh_block_update (\<lambda>f. f(i := ?n))) ?s;
      u = (if of_nat i = lh_n (lg_lh (lg u)) then upd_lh (lh_n_update (\<lambda>n. n + 1)) u else u)
    in release LLog (upd_buf b (b_flags_update (\<lambda>f. f OR B_DIRTY)) u))"
    using n sz o room by (simp add: log_write_def acquire_def blockno_def)
  have slot: "log_slot ?n ?s = (case find_from (\<lambda>i. lh_block ?h i = ?n) 0 ?k of Some i \<Rightarrow> i | None \<Rightarrow> ?k)"
    by (simp add: log_slot_def lh_count_def cong: option.case_cong)
  have upd: "upd_lh g ?s = ?s\<lparr>lg := (lg s)\<lparr>lg_lh := g ?h\<rparr>\<rparr>" for g by (simp add: upd_lh_def upd_lg_def)
  have upd2: "upd_lh g (?s\<lparr>lg := x\<rparr>) = ?s\<lparr>lg := x\<lparr>lg_lh := g (lg_lh x)\<rparr>\<rparr>" for g x by (simp add: upd_lh_def upd_lg_def)
  have rel: "release LLog (upd_buf b f (?s\<lparr>lg := x\<rparr>)) = Ret () (upd_buf b f (s\<lparr>lg := x\<rparr>))" for f x
    using n(3) by (simp add: release_def upd_buf_def)
  show ?thesis
  proof (cases "?n \<in> lh_block ?h ` {..<?k}")
    case True
    then have "find_from (\<lambda>i. lh_block ?h i = ?n) 0 ?k \<noteq> None" by (auto simp: find_from_None)
    then obtain i where i: "find_from (\<lambda>i. lh_block ?h i = ?n) 0 ?k = Some i" by blast
    then have i': "i < ?k" "lh_block ?h i = ?n" by (auto simp: find_from_Some)
    have ne: "of_nat i \<noteq> (of_nat ?k :: u32)" using i'(1) room unat_of_nat32 [of i] unat_of_nat32 [of ?k]
      by (auto simp: word_unat_eq_iff LOGSIZE_def MAXOPBLOCKS_def)
    have "lh_block_update (\<lambda>f. f(i := ?n)) ?h = ?h" using i'(2) by (intro logheader.equality) (auto simp: fun_upd_idem)
    then show ?thesis unfolding acq Let_def slot i option.case upd using True ne n(2,3) by (simp add: rel add_entry_def pin_def)
  next
    case False
    then have "lh_block ?h i \<noteq> ?n" if "i < ?k" for i using that by (metis imageI lessThan_iff)
    then have f: "find_from (\<lambda>i. lh_block ?h i = ?n) 0 ?k = None" by (simp add: find_from_None)
    have e: "lh_n_update (\<lambda>n. n + 1) (lh_block_update (\<lambda>f. f(?k := ?n)) ?h) = add_entry ?n ?h ?k"
      using False by (simp add: add_entry_def)
    show ?thesis unfolding acq Let_def slot f option.case upd using n(2) e by (simp add: upd2 rel pin_def)
  qed
qed


text \<open>What logging a block does to the state: the block is pinned, and the header names it.\<close>

lemma log_write_ok:
  assumes ok: "op_ok s" and room: "Suc (lh_count s) < LOGSIZE" and b: "b \<in> in_use s" and n: "unat (blockno s b) \<notin> log_area s"
  shows "returns (log_write b s) (\<lambda>_ t. op_ok t \<and> op_frame s t \<and> in_use t = in_use s \<and> blockno t = blockno s \<and> bdata t = bdata s
    \<and> blk t = blk s \<and> disk t = disk s \<and> dhist t = dhist s \<and> pins t = insert (blockno s b) (pins s) \<and> lh_count t \<le> Suc (lh_count s))"
proof -
  let ?n = "blockno s b" and ?h = "lg_lh (lg s)" and ?k = "lh_count s"
  let ?u = "s\<lparr>lg := (lg s)\<lparr>lg_lh := add_entry ?n ?h ?k\<rparr>\<rparr>"
  let ?t = "pin b ?u" and ?k' = "if ?n \<in> lh_block ?h ` {..<?k} then ?k else Suc ?k"
  note O = op_okD [OF ok]
  have u: "bio_ok ?u" "b \<in> in_use ?u" using O(1) b by simp_all
  note P = pin_spec [OF u]
  have kn: "lh_n ?h = of_nat ?k" using ok by (simp add: op_ok_def)
  have lg: "lg ?t = (lg s)\<lparr>lg_lh := add_entry ?n ?h ?k\<rparr>" by (simp add: pin_def upd_buf_def)
  have lt: "disksize ?t = disksize s" "log_area ?t = log_area s" "log_cap ?t = log_cap s"
    by (simp_all add: pin_def upd_buf_def log_area_def log_cap_def)
  have n': "lh_n (lg_lh (lg ?t)) = of_nat ?k'" unfolding lg using kn by (simp add: add_entry_def algebra_simps)
  have cnt: "lh_count ?t = ?k'"
  proof -
    have "lh_count ?t = nat (sint (of_nat ?k' :: u32))" unfolding n' [symmetric] by (rule lh_count_def)
    also have "sint (of_nat ?k' :: u32) = int ?k'" using room by (intro sint_of_nat32) (simp add: LOGSIZE_def MAXOPBLOCKS_def)
    finally show ?thesis by (simp only: nat_int)
  qed
  have e: "entries_ok s ?k (lh_block ?h)" using ok by (simp add: op_ok_def)
  have img: "lh_block (lg_lh (lg ?t)) ` {..<?k'} = insert ?n (lh_block ?h ` {..<?k})"
    unfolding lg by (auto simp: add_entry_def lessThan_Suc)
  have e': "entries_ok ?t ?k' (lh_block (lg_lh (lg ?t)))"
  proof (cases "?n \<in> lh_block ?h ` {..<?k}")
    case True
    then show ?thesis using e unfolding lg entries_ok_def lt by (simp add: add_entry_def)
  next
    case False
    have "?n < disksize s" using in_useD(7) [OF O(1) b] by (simp add: blockno_def)
    moreover have "?n \<noteq> lh_block ?h i" if "i < ?k" for i using False that by (metis imageI lessThan_iff)
    then have "inj_on ((lh_block ?h)(?k := ?n)) {..<Suc ?k}" using e unfolding entries_ok_def inj_on_def lessThan_Suc by fastforce
    moreover have "Suc ?k \<le> log_cap s" using ok room by (simp add: op_ok_def log_cap_def)
    ultimately show ?thesis using e n room False unfolding lg entries_ok_def lt by (auto simp: add_entry_def less_Suc_eq)
  qed
  have "op_ok ?t" unfolding op_ok_def cnt
    using P O(2,7) e' n' img ok lt lg by (simp add: logged_blocks_def cnt log_wf_def op_ok_def)
  moreover have "op_frame s ?t" using P lg by (simp add: op_frame_def)
  moreover have "bdata ?t = bdata s" by (simp add: pin_def bdata_def fun_eq_iff)
  ultimately show ?thesis using log_write_eq [OF ok room, of b] P cnt by simp
qed

section \<open>Block operations inside a transaction\<close>

text \<open>
  The relation between the states before and after a step of an operation that holds the same buffers
  before and after: the blocks have the content \<open>v\<close>, the disk is not touched, and the header grew by at
  most \<open>k\<close> entries.
\<close>

definition op_to :: "'z lst_scheme \<Rightarrow> (u32 \<Rightarrow> bytes) \<Rightarrow> nat \<Rightarrow> 'z lst_scheme \<Rightarrow> bool" where
  "op_to s v k t \<longleftrightarrow> op_ok t \<and> op_frame s t \<and> disk t = disk s \<and> dhist t = dhist s \<and> in_use t = in_use s
     \<and> (\<forall>i \<in> in_use s. blockno t i = blockno s i) \<and> blk t = v \<and> lh_count t \<le> lh_count s + k \<and> pins s \<subseteq> pins t"

lemma op_to_trans:
  assumes "op_to s v j t" "op_to t w k u"
  shows "op_to s w (j + k) u"
  using assms op_frame_trans [of s t u] unfolding op_to_def by auto

lemma op_ok_bio:
  assumes "op_ok s" "bio_ok t" "bio_frame s t" "pins t = pins s"
  shows "op_ok t" "lh_count t = lh_count s"
proof -
  have l: "lg t = lg s" by (rule bio_frame_lg [OF assms(3)])
  have d: "disksize t = disksize s" using bio_frame_sel [OF assms(3)] by simp
  show "lh_count t = lh_count s" by (simp add: lh_count_def l)
  then show "op_ok t" using assms log_wf_cong [of t s] d by (simp add: op_ok_def l logged_blocks_def)
qed

lemma op_bread:
  assumes ok: "op_ok s" and n: "n < disksize s" "n \<notin> blockno s ` in_use s" and room: "card (in_use s) + lh_count s < NBUF"
  shows "returns (bread 1 n s) (\<lambda>b t. op_ok t \<and> op_frame s t \<and> disk t = disk s \<and> dhist t = dhist s \<and> b \<notin> in_use s
    \<and> in_use t = insert b (in_use s) \<and> (\<forall>i \<in> in_use s. blockno t i = blockno s i) \<and> blockno t b = n \<and> bdata t b = blk s n
    \<and> blk t = blk s \<and> lh_count t = lh_count s \<and> pins t = pins s)"
proof -
  note O = op_okD [OF ok]
  have "card (in_use s) + card (pins s) < NBUF" using O(5) room by simp
  from bread_spec [OF O(1) n this] show ?thesis
  proof (rule returns_mono)
    fix b t
    assume t: "bio_ok t \<and> bio_frame s t \<and> b \<notin> in_use s \<and> in_use t = insert b (in_use s)
        \<and> pins t = pins s \<and> blk t = blk s \<and> disk t = disk s \<and> dhist t = dhist s \<and> blockno t b = n
        \<and> (\<forall>i \<in> in_use s. blockno t i = blockno s i)"
    have "blk t n = bdata t b" using t blk_held [of t b n] by (simp add: blockno_def bdata_def)
    then show "op_ok t \<and> op_frame s t \<and> disk t = disk s \<and> dhist t = dhist s \<and> b \<notin> in_use s
      \<and> in_use t = insert b (in_use s) \<and> (\<forall>i \<in> in_use s. blockno t i = blockno s i) \<and> blockno t b = n \<and> bdata t b = blk s n
      \<and> blk t = blk s \<and> lh_count t = lh_count s \<and> pins t = pins s"
      using t op_ok_bio [OF ok, of t] bio_op_frame [of s t] by simp
  qed
qed

lemma op_log_write:
  assumes ok: "op_ok s" and b: "b \<in> in_use s" and n: "unat (blockno s b) \<notin> log_area s" and room: "Suc (lh_count s) < LOGSIZE"
  shows "returns (log_write b (set_data b d s)) (\<lambda>_ t. op_to s ((blk s)(blockno s b := d)) 1 t \<and> blockno t = blockno s
    \<and> blockno s b \<in> pins t)"
proof -
  note O = op_okD [OF ok]
  let ?p = "put_data b d s"
  note P = put_data_spec [OF O(1) b, of d]
  have p: "op_ok ?p" "lh_count ?p = lh_count s" "op_frame s ?p" using P op_ok_bio [OF ok, of ?p] bio_op_frame [of s ?p] by auto
  have "log_area ?p = log_area s" using op_frame_sel(9) [OF p(3)] .
  then have "returns (log_write b ?p) (\<lambda>_ t. op_ok t \<and> op_frame ?p t \<and> in_use t = in_use ?p \<and> blockno t = blockno ?p \<and> bdata t = bdata ?p
    \<and> blk t = blk ?p \<and> disk t = disk ?p \<and> dhist t = dhist ?p \<and> pins t = insert (blockno ?p b) (pins ?p) \<and> lh_count t \<le> Suc (lh_count ?p))"
    using P p(2) b n room by (intro log_write_ok [OF p(1)]) simp_all
  then show ?thesis unfolding set_data_put
    by (rule returns_mono) (use P p op_frame_trans [OF p(3)] in \<open>auto simp: op_to_def\<close>)
qed

lemma op_brelse:
  assumes ok: "op_ok s" and b: "b \<in> in_use s" and c: "blockno s b \<in> pins s \<or> bdata s b = disk s (unat (blockno s b))"
  shows "returns (brelse b s) (\<lambda>_ t. op_ok t \<and> op_frame s t \<and> disk t = disk s \<and> dhist t = dhist s \<and> in_use t = in_use s - {b}
    \<and> blockno t = blockno s \<and> blk t = blk s \<and> lh_count t = lh_count s \<and> pins t = pins s)"
  by (rule returns_mono [OF brelse_spec [OF op_okD(1) [OF ok] b c]])
    (use op_ok_bio [OF ok] bio_op_frame in auto)

text \<open>Reading a block and giving the buffer back, unchanged or logged.\<close>

lemma op_peek:
  assumes ok: "op_ok s" and n: "n < disksize s" "n \<notin> blockno s ` in_use s" and room: "card (in_use s) + lh_count s < NBUF"
  shows "returns (bread 1 n s) (\<lambda>b t. op_ok t \<and> op_frame s t \<and> b_data (bufs t b) = blk s n
    \<and> returns (brelse b t) (\<lambda>_ u. op_to s (blk s) 0 u))"
proof (rule returns_mono [OF op_bread [OF assms]])
  fix b t
  assume t: "op_ok t \<and> op_frame s t \<and> disk t = disk s \<and> dhist t = dhist s \<and> b \<notin> in_use s
    \<and> in_use t = insert b (in_use s) \<and> (\<forall>i \<in> in_use s. blockno t i = blockno s i) \<and> blockno t b = n \<and> bdata t b = blk s n
    \<and> blk t = blk s \<and> lh_count t = lh_count s \<and> pins t = pins s"
  have c: "blockno t b \<in> pins t \<or> bdata t b = disk t (unat (blockno t b))"
    using bc.clean [OF op_okD(1) [OF ok], of n] n(2) t by auto
  have "returns (brelse b t) (\<lambda>_ u. op_to s (blk s) 0 u)"
    by (rule returns_mono [OF op_brelse [OF _ _ c]]) (use t op_frame_trans [of s t] in \<open>auto simp: op_to_def\<close>)
  then show "op_ok t \<and> op_frame s t \<and> b_data (bufs t b) = blk s n \<and> returns (brelse b t) (\<lambda>_ u. op_to s (blk s) 0 u)"
    using t by (simp add: bdata_def)
qed

lemma op_edit:
  assumes ok: "op_ok s" and n: "n < disksize s" "n \<notin> blockno s ` in_use s" "unat n \<notin> log_area s"
    and room: "card (in_use s) + lh_count s < NBUF" "Suc (lh_count s) < LOGSIZE"
  shows "returns (bread 1 n s) (\<lambda>b t. op_ok t \<and> op_frame s t \<and> b_data (bufs t b) = blk s n
    \<and> (\<forall>d. returns (log_write b (set_data b d t)) (\<lambda>_ u. returns (brelse b u) (\<lambda>_ v. op_to s ((blk s)(n := d)) 1 v))))"
proof (rule returns_mono [OF op_bread [OF ok n(1,2) room(1)]])
  fix b t
  assume t: "op_ok t \<and> op_frame s t \<and> disk t = disk s \<and> dhist t = dhist s \<and> b \<notin> in_use s
    \<and> in_use t = insert b (in_use s) \<and> (\<forall>i \<in> in_use s. blockno t i = blockno s i) \<and> blockno t b = n \<and> bdata t b = blk s n
    \<and> blk t = blk s \<and> lh_count t = lh_count s \<and> pins t = pins s"
  have "returns (log_write b (set_data b d t)) (\<lambda>_ u. returns (brelse b u) (\<lambda>_ v. op_to s ((blk s)(n := d)) 1 v))" for d
  proof (rule returns_mono [OF op_log_write [of t b d]])
    show "op_ok t" "b \<in> in_use t" "Suc (lh_count t) < LOGSIZE" using t room by auto
    show "unat (blockno t b) \<notin> log_area t" using t n(3) op_frame_sel(9) [of s t] by simp
    fix x u
    assume u: "op_to t ((blk t)(blockno t b := d)) 1 u \<and> blockno u = blockno t \<and> blockno t b \<in> pins u"
    show "returns (brelse b u) (\<lambda>_ v. op_to s ((blk s)(n := d)) 1 v)"
    proof (rule returns_mono [OF op_brelse [of u b]])
      show "op_ok u" "b \<in> in_use u" "blockno u b \<in> pins u \<or> bdata u b = disk u (unat (blockno u b))"
        using u t by (auto simp: op_to_def)
      fix y v
      assume v: "op_ok v \<and> op_frame u v \<and> disk v = disk u \<and> dhist v = dhist u \<and> in_use v = in_use u - {b}
        \<and> blockno v = blockno u \<and> blk v = blk u \<and> lh_count v = lh_count u \<and> pins v = pins u"
      have "op_frame s v" using t u v op_frame_trans by (metis op_to_def)
      then show "op_to s ((blk s)(n := d)) 1 v" using t u v by (auto simp: op_to_def)
    qed
  qed
  then show "op_ok t \<and> op_frame s t \<and> b_data (bufs t b) = blk s n
    \<and> (\<forall>d. returns (log_write b (set_data b d t)) (\<lambda>_ u. returns (brelse b u) (\<lambda>_ v. op_to s ((blk s)(n := d)) 1 v)))"
    using t by (simp add: bdata_def)
qed

lemma op_frame_ist:
  fixes s t :: "'z ist_scheme"
  assumes "op_frame s t"
  shows "sb t = sb s" "icache t = icache s" "ist.more t = ist.more s"
proof -
  have "lst.more t = lst.more s" by (rule op_frame_sel(4) [OF assms])
  then show "sb t = sb s" "icache t = icache s" "ist.more t = ist.more s" by (cases s; cases t; auto)+
qed

lemma op_to_sel:
  assumes "op_to s v k t"
  shows "op_ok t" "disksize t = disksize s" "log_area t = log_area s" "in_use t = in_use s" "blockno t ` in_use t = blockno s ` in_use s"
    "blk t = v" "lh_count t \<le> lh_count s + k"
  using assms op_frame_sel [of s t] by (auto simp: op_to_def)

end
