(* ===== verification/Xv6_Alloc_Inv.thy ===== *)
theory Xv6_Alloc_Inv
  imports Xv6_Txn Xv6_Example
begin

unbundle bit_operations_syntax

text \<open>
  The block allocator (\<open>balloc\<close>, \<open>bzero\<close> and \<open>bfree\<close> of src/fs.c). The abstract state of the allocator is the
  set \<open>free_blocks\<close> that the bitmap describes; the theorems say what the operations do to that set and to
  the contents of the blocks, inside a transaction and while the caller holds other buffers.
\<close>

section \<open>Bits of a bitmap block\<close>

lemma bm_free_bit: "bm_free d i \<longleftrightarrow> \<not> bit (d (i div 8)) (i mod 8)"
  by (simp add: bm_free_def bm_mask_def push_bit_of_1 and_exp_eq_0_iff_not_bit)

lemma div_mod_8: "i div 8 = j div 8 \<Longrightarrow> i mod 8 = j mod 8 \<Longrightarrow> i = (j :: nat)"
  by (metis div_mult_mod_eq)

lemma bm_set_free: "bm_free (bm_set d i) j \<longleftrightarrow> j \<noteq> i \<and> bm_free d j"
  by (auto simp: bm_free_bit bm_set_def bm_mask_def push_bit_of_1 bit_or_iff bit_exp_iff dest: div_mod_8)

lemma bm_clear_free: "bm_free (bm_clear d i) j \<longleftrightarrow> j = i \<or> bm_free d j"
  by (auto simp: bm_free_bit bm_clear_def bm_mask_def push_bit_of_1 bit_and_iff bit_not_iff bit_exp_iff dest: div_mod_8)

section \<open>The free blocks\<close>

definition block_free :: "'z ist_scheme \<Rightarrow> u32 \<Rightarrow> bool" where
  "block_free s b \<longleftrightarrow> bm_free (blk s (BBLOCK b (sb s))) (unat b mod BPB)"

definition free_blocks :: "'z ist_scheme \<Rightarrow> u32 set" where
  "free_blocks s = {b. b < sb_size (sb s) \<and> block_free s b}"

definition bitmap_blocks :: "'z ist_scheme \<Rightarrow> u32 set" where
  "bitmap_blocks s = (\<lambda>b. BBLOCK b (sb s)) ` {b. b < sb_size (sb s)}"

text \<open>
  The layout that mkfs produces: the bitmap lies on the disk, outside the log area, and marks its own
  blocks and those of the log as used. (The bound on the size is that of the \<open>int\<close> that counts blocks.)
\<close>

definition fs_wf :: "'z ist_scheme \<Rightarrow> bool" where
  "fs_wf s \<longleftrightarrow> sb_size (sb s) \<le> disksize s \<and> unat (sb_size (sb s)) + BPB < 2 ^ 31
     \<and> (\<forall>n \<in> bitmap_blocks s. n < disksize s \<and> unat n \<notin> log_area s \<and> n \<notin> free_blocks s)
     \<and> (\<forall>b \<in> free_blocks s. unat b \<notin> log_area s)"

text \<open>The buffers that the caller holds are not those of the bitmap, nor of free blocks.\<close>

definition clear_of :: "'z ist_scheme \<Rightarrow> bool" where
  "clear_of s \<longleftrightarrow> blockno s ` in_use s \<inter> (bitmap_blocks s \<union> free_blocks s) = {}"

definition alloc_ok :: "'z ist_scheme \<Rightarrow> bool" where
  "alloc_ok s \<longleftrightarrow> op_ok s \<and> fs_wf s \<and> clear_of s \<and> card (in_use s) + Suc (lh_count s) < NBUF \<and> lh_count s + 2 < LOGSIZE"

lemma unat_BPB: "unat (of_nat BPB :: u32) = BPB"
  by (rule unat_of_nat32) (simp add: BPB_def BSIZE_def)

lemma block_no_nat: "c < 2 ^ 32 \<Longrightarrow> BBLOCK (of_nat c) b = of_nat (c div BPB) + sb_bmapstart b"
proof -
  assume "c < 2 ^ 32"
  then have "unat (of_nat c :: u32) = c" by (rule unat_of_nat32)
  moreover have "unat (of_nat (c div BPB) :: u32) = c div BPB"
    by (rule unat_of_nat32) (use \<open>c < 2 ^ 32\<close> div_le_dividend le_less_trans in blast)
  ultimately have "(of_nat c :: u32) div of_nat BPB = of_nat (c div BPB)" by (simp add: word_unat_eq_iff unat_div unat_BPB)
  then show ?thesis by (simp add: BBLOCK_def)
qed

lemma same_bitmap_block:
  assumes "BBLOCK b x = BBLOCK c x" "unat b mod BPB = unat c mod BPB"
  shows "b = c"
proof -
  have "b div of_nat BPB = c div (of_nat BPB :: u32)" using assms(1) by (simp add: BBLOCK_def)
  then have "unat (b div (of_nat BPB :: u32)) = unat (c div (of_nat BPB :: u32))" by (simp only:)
  then have "unat b div BPB = unat c div BPB" by (simp only: unat_div unat_BPB)
  then have "unat b = unat c" using assms(2) by (metis div_mult_mod_eq)
  then show ?thesis by (simp add: word_unat_eq_iff)
qed

lemma alloc_cong:
  assumes "sb t = sb s" "blk t = blk s"
  shows "free_blocks t = free_blocks s" "bitmap_blocks t = bitmap_blocks s"
  using assms by (simp_all add: free_blocks_def block_free_def bitmap_blocks_def)

section \<open>Allocation\<close>

definition alloc_view :: "'z ist_scheme \<Rightarrow> u32 \<Rightarrow> u32 \<Rightarrow> bytes" where
  "alloc_view s a = (blk s)(BBLOCK a (sb s) := bm_set (blk s (BBLOCK a (sb s))) (unat a mod BPB), a := \<lambda>_. 0)"

lemma bzero_ok:
  assumes "op_ok s" "n < disksize s" "n \<notin> blockno s ` in_use s" "unat n \<notin> log_area s"
    "card (in_use s) + lh_count s < NBUF" "Suc (lh_count s) < LOGSIZE"
  shows "returns (bzero 1 n s) (\<lambda>_ t. op_to s ((blk s)(n := \<lambda>_. 0)) 1 t)"
  unfolding bzero_def returns_bindK by (rule returns_mono [OF op_edit [OF assms]]) blast

text \<open>A bit of the bitmap block that the search looks at in one round.\<close>

lemma round_bit:
  assumes "BPB dvd b" "bi < min BPB (unat (sb_size (sb s)) - b)"
  shows "bm_free (blk s (BBLOCK (of_nat b) (sb s))) bi \<longleftrightarrow> of_nat (b + bi) \<in> free_blocks s"
    "BBLOCK (of_nat (b + bi)) (sb s) = BBLOCK (of_nat b) (sb s)" "unat (of_nat (b + bi) :: u32) = b + bi" "(b + bi) mod BPB = bi"
    "(of_nat (b + bi) :: u32) < sb_size (sb s)"
proof -
  have "bi < unat (sb_size (sb s)) - b" using assms(2) by simp
  then have lt: "b + bi < unat (sb_size (sb s))" by linarith
  have l: "b + bi < 2 ^ 32" using lt unat_u32 [of "sb_size (sb s)"] by simp
  show u: "unat (of_nat (b + bi) :: u32) = b + bi" by (rule unat_of_nat32 [OF l])
  show sz: "(of_nat (b + bi) :: u32) < sb_size (sb s)" using u lt by (simp only: word_less_nat_alt)
  have bi: "bi < BPB" using assms(2) by simp
  obtain q where q: "b = BPB * q" using assms(1) by (rule dvdE)
  have d: "(b + bi) div BPB = b div BPB" unfolding q using bi by simp
  show m: "(b + bi) mod BPB = bi" unfolding q using bi by simp
  have bl: "b < 2 ^ 32" using l by simp
  show B: "BBLOCK (of_nat (b + bi)) (sb s) = BBLOCK (of_nat b) (sb s)"
    unfolding block_no_nat [OF l] block_no_nat [OF bl] d ..
  show "bm_free (blk s (BBLOCK (of_nat b) (sb s))) bi \<longleftrightarrow> of_nat (b + bi) \<in> free_blocks s"
    unfolding free_blocks_def block_free_def mem_Collect_eq B u m using sz by simp
qed

lemma nothing_below:
  assumes "\<forall>c < unat (sb_size (sb s)). of_nat c \<notin> free_blocks s"
  shows "free_blocks s = {}"
proof -
  have "a \<notin> free_blocks s" for a
    using assms [rule_format, of "unat a"] by (auto simp: free_blocks_def word_less_nat_alt)
  then show ?thesis by blast
qed

text \<open>The end of the search: the block is marked and zeroed.\<close>

lemma balloc_take:
  assumes s: "alloc_ok s" "BPB dvd b" "bi < min BPB (unat (sb_size (sb s)) - b)" "of_nat (b + bi) \<in> free_blocks s"
    and v: "op_to s ((blk s)(BBLOCK (of_nat b) (sb s) := bm_set (blk s (BBLOCK (of_nat b) (sb s))) bi)) 1 v"
  shows "returns (bzero 1 (of_nat (b + bi)) v) (\<lambda>_ t. op_to s (alloc_view s (of_nat (b + bi))) 2 t)"
proof -
  let ?a = "of_nat (b + bi) :: u32"
  note R = round_bit [OF s(2,3)] and V = op_to_sel [OF v]
  have f: "fs_wf s" "clear_of s" and c: "card (in_use s) + Suc (lh_count s) < NBUF" "lh_count s + 2 < LOGSIZE" using s(1) by (auto simp: alloc_ok_def)
  have a: "?a < disksize s" "unat ?a \<notin> log_area s" "?a \<notin> blockno s ` in_use s"
    using f s(4) R(5) by (auto simp: fs_wf_def clear_of_def)
  have "returns (bzero 1 ?a v) (\<lambda>_ t. op_to v ((blk v)(?a := \<lambda>_. 0)) 1 t)"
    by (rule bzero_ok) (use V a c in auto)
  then show ?thesis
  proof (rule returns_mono)
    fix x t
    assume t: "op_to v ((blk v)(?a := \<lambda>_. 0)) 1 t"
    have "op_to s ((blk v)(?a := \<lambda>_. 0)) (1 + 1) t" by (rule op_to_trans [OF v t])
    moreover have "(blk v)(?a := \<lambda>_. 0) = alloc_view s ?a" unfolding V(6) alloc_view_def R(2,3,4) ..
    ultimately show "op_to s (alloc_view s ?a) 2 t" by (simp only: one_add_one)
  qed
qed

lemma alloc_ok_to:
  fixes s t :: "'z ist_scheme"
  assumes "alloc_ok s" "op_to s (blk s) 0 t"
  shows "alloc_ok t" "free_blocks t = free_blocks s" "sb t = sb s" "alloc_view t = alloc_view s"
proof -
  note T = op_to_sel [OF assms(2)]
  show b: "sb t = sb s" using assms(2) op_frame_ist(1) by (auto simp: op_to_def)
  note C = alloc_cong [OF b T(6)]
  show "free_blocks t = free_blocks s" by (rule C(1))
  show "alloc_view t = alloc_view s" by (rule ext) (simp only: alloc_view_def b T(6))
  show "alloc_ok t" using assms(1) T unfolding alloc_ok_def fs_wf_def clear_of_def C b by auto
qed

lemma first_free:
  assumes b: "BPB dvd b" "\<forall>c < b. of_nat c \<notin> free_blocks s"
    and f: "find_from (bm_free (blk s (BBLOCK (of_nat b) (sb s)))) 0 (min BPB (unat (sb_size (sb s)) - b)) = Some bi"
  shows "bi < min BPB (unat (sb_size (sb s)) - b)" "of_nat (b + bi) \<in> free_blocks s" "\<forall>c < of_nat (b + bi). c \<notin> free_blocks s"
proof -
  let ?F = "bm_free (blk s (BBLOCK (of_nat b) (sb s)))" and ?m = "min BPB (unat (sb_size (sb s)) - b)"
  from f have bi: "bi < ?m" "?F bi" and least: "\<forall>l < bi. \<not> ?F l" by (auto simp: find_from_Some)
  show "bi < ?m" by (rule bi(1))
  show "of_nat (b + bi) \<in> free_blocks s" using round_bit(1) [OF b(1) bi(1)] bi(2) by simp
  show "\<forall>c < of_nat (b + bi). c \<notin> free_blocks s"
  proof (intro allI impI)
    fix c :: u32
    assume "c < of_nat (b + bi)"
    then have c: "unat c < b + bi" using round_bit(3) [OF b(1) bi(1)] by (simp only: word_less_nat_alt)
    show "c \<notin> free_blocks s"
    proof (cases "unat c < b")
      case True
      then show ?thesis using b(2) [rule_format, of "unat c"] by simp
    next
      case False
      let ?l = "unat c - b"
      have l: "?l < bi" using c False by linarith
      then have "?l < ?m" using bi(1) by linarith
      from round_bit(1) [OF b(1) this] show ?thesis using least l False by simp
    qed
  qed
qed

lemma none_free:
  assumes w: "fs_wf s" and b: "BPB dvd b" "\<forall>c < b. of_nat c \<notin> free_blocks s" "b < unat (sb_size (sb s))"
    and f: "find_from (bm_free (blk s (BBLOCK (of_nat b) (sb s)))) 0 (min BPB (unat (sb_size (sb s)) - b)) = None"
  shows "\<forall>c < b + BPB. of_nat c \<notin> free_blocks s"
proof (intro allI impI)
  fix c
  assume c: "c < b + BPB"
  let ?F = "bm_free (blk s (BBLOCK (of_nat b) (sb s)))" and ?m = "min BPB (unat (sb_size (sb s)) - b)"
  from f have none: "\<forall>l < ?m. \<not> ?F l" by (auto simp: find_from_None)
  consider "c < b" | "b \<le> c" "c < unat (sb_size (sb s))" | "unat (sb_size (sb s)) \<le> c" by linarith
  then show "of_nat c \<notin> free_blocks s"
  proof cases
    case 1
    then show ?thesis using b(2) by blast
  next
    case 2
    have l: "c - b < ?m" using 2 c by (simp add: less_diff_conv2)
    from round_bit(1) [OF b(1) l] show ?thesis using none l 2(1) by simp
  next
    case 3
    have "c < 2 ^ 32" using c b(3) w by (simp add: fs_wf_def)
    then have "unat (of_nat c :: u32) = c" by (rule unat_of_nat32)
    then show ?thesis using 3 by (simp add: free_blocks_def word_less_nat_alt)
  qed
qed

text \<open>One round of the search.\<close>

lemma balloc_round:
  assumes s: "alloc_ok s" and b: "BPB dvd b" "b < unat (sb_size (sb s))"
  shows "returns (bread 1 (BBLOCK (of_nat b) (sb s)) s) (\<lambda>bp t. b_data (bufs t bp) = blk s (BBLOCK (of_nat b) (sb s)) \<and> sb t = sb s
    \<and> (\<forall>d. returns (log_write bp (set_data bp d t))
        (\<lambda>_ u. returns (brelse bp u) (\<lambda>_ v. op_to s ((blk s)(BBLOCK (of_nat b) (sb s) := d)) 1 v)))
    \<and> returns (brelse bp t) (\<lambda>_ u. op_to s (blk s) 0 u))"
proof -
  let ?N = "BBLOCK (of_nat b) (sb s)"
  have a: "op_ok s" "fs_wf s" "clear_of s" "card (in_use s) + lh_count s < NBUF" "Suc (lh_count s) < LOGSIZE"
    using s by (auto simp: alloc_ok_def)
  have "?N \<in> bitmap_blocks s"
    unfolding bitmap_blocks_def using round_bit(5) [of b 0 s] b by (auto simp: BPB_def BSIZE_def)
  then have n: "?N < disksize s" "unat ?N \<notin> log_area s" "?N \<notin> blockno s ` in_use s"
    using a(2,3) by (auto simp: fs_wf_def clear_of_def)
  note P = returns_conj [OF op_edit [OF a(1) n(1,3,2) a(4,5)] op_peek [OF a(1) n(1,3) a(4)]]
  show ?thesis by (rule returns_mono [OF P]) (use op_frame_ist(1) in blast)
qed

lemma balloc_loop_ok:
  assumes "alloc_ok s" "BPB dvd b" "\<forall>c < b. of_nat c \<notin> free_blocks s" "unat (sb_size (sb s)) \<le> b + k * BPB"
    "b + k * BPB < unat (sb_size (sb s)) + BPB"
  shows "if free_blocks s = {} then balloc_loop k 1 b s = Panic ''balloc: out of blocks''
    else returns (balloc_loop k 1 b s) (\<lambda>a t. a \<in> free_blocks s \<and> (\<forall>c < a. c \<notin> free_blocks s) \<and> op_to s (alloc_view s a) 2 t)"
  using assms
proof (induction k arbitrary: b s)
  case 0
  then show ?case using nothing_below [of s] by auto
next
  case (Suc k)
  let ?N = "BBLOCK (of_nat b) (sb s)"
  let ?m = "min BPB (unat (sb_size (sb s)) - b)"
  have lt: "b < unat (sb_size (sb s))" using Suc.prems(5) by simp
  from balloc_round [OF Suc.prems(1,2) lt] obtain bp t where t: "bread 1 ?N s = Ret bp t" "b_data (bufs t bp) = blk s ?N" "sb t = sb s"
    and w: "\<And>d. returns (log_write bp (set_data bp d t)) (\<lambda>_ u. returns (brelse bp u) (\<lambda>_ v. op_to s ((blk s)(?N := d)) 1 v))"
    and r: "returns (brelse bp t) (\<lambda>_ u. op_to s (blk s) 0 u)"
    unfolding returns_iff [of "bread 1 ?N s"] by blast
  show ?case
  proof (cases "find_from (bm_free (blk s ?N)) 0 ?m")
    case None
    from r obtain u where u: "brelse bp t = Ret () u" "op_to s (blk s) 0 u" unfolding returns_iff by auto
    have eq: "balloc_loop (Suc k) 1 b s = balloc_loop k 1 (b + BPB) u" by (simp add: t u(1) None)
    note A = alloc_ok_to [OF Suc.prems(1) u(2)]
    have wf: "fs_wf s" using Suc.prems(1) by (simp add: alloc_ok_def)
    have "\<forall>c < b + BPB. of_nat c \<notin> free_blocks u" unfolding A(2) by (rule none_free [OF wf Suc.prems(2,3) lt None])
    from Suc.IH [OF A(1) _ this] Suc.prems(2,4,5) have ih: "if free_blocks s = {} then balloc_loop k 1 (b + BPB) u = Panic ''balloc: out of blocks''
      else returns (balloc_loop k 1 (b + BPB) u) (\<lambda>a t. a \<in> free_blocks s \<and> (\<forall>c < a. c \<notin> free_blocks s) \<and> op_to u (alloc_view s a) 2 t)"
      unfolding A(2-4) by (simp add: add_ac)
    show ?thesis
    proof (cases "free_blocks s = {}")
      case False
      then show ?thesis unfolding eq using ih op_to_trans [OF u(2)] by (auto elim!: returns_mono)
    qed (use ih eq in simp)
  next
    case (Some bi)
    note F = first_free [OF Suc.prems(2,3) Some]
    have "returns (balloc_loop (Suc k) 1 b s) (\<lambda>a t. a \<in> free_blocks s \<and> (\<forall>c < a. c \<notin> free_blocks s) \<and> op_to s (alloc_view s a) 2 t)"
      unfolding balloc_loop.simps t(1) bindK.simps t(2,3) Some option.case returns_bindK
      by (rule returns_mono [OF w], erule returns_mono, rule returns_mono [OF balloc_take [OF Suc.prems(1,2) F(1,2)]])
        (use F(2,3) in auto)
    then show ?thesis using F(2) by auto
  qed
qed

text \<open>The set of free blocks after a change of one bit.\<close>

lemma mod_same: "BBLOCK c x = BBLOCK a x \<Longrightarrow> unat c mod BPB = unat a mod BPB \<longleftrightarrow> c = a"
  using same_bitmap_block by blast

lemma free_after_alloc:
  assumes w: "fs_wf s" and a: "a \<in> free_blocks s" and t: "sb t = sb s" "blk t = alloc_view s a"
  shows "free_blocks t = free_blocks s - {a}" "bitmap_blocks t = bitmap_blocks s"
    "n \<notin> bitmap_blocks s \<Longrightarrow> n \<noteq> a \<Longrightarrow> blk t n = blk s n" "blk t a = (\<lambda>_. 0)"
proof -
  have sz: "a < sb_size (sb s)" using a by (simp add: free_blocks_def)
  have ne: "BBLOCK c (sb s) \<noteq> a" if "c < sb_size (sb s)" for c using w a that by (auto simp: fs_wf_def bitmap_blocks_def)
  have "block_free t c \<longleftrightarrow> c \<noteq> a \<and> block_free s c" if "c < sb_size (sb s)" for c
  proof (cases "BBLOCK c (sb s) = BBLOCK a (sb s)")
    case True
    then show ?thesis using ne [OF sz] mod_same [OF True] by (simp add: block_free_def t alloc_view_def bm_set_free)
  next
    case False
    then show ?thesis using ne [OF that] by (auto simp: block_free_def t alloc_view_def)
  qed
  then show "free_blocks t = free_blocks s - {a}" by (auto simp: free_blocks_def t)
  show "bitmap_blocks t = bitmap_blocks s" by (simp add: bitmap_blocks_def t)
  show "blk t n = blk s n" if "n \<notin> bitmap_blocks s" "n \<noteq> a"
    using that sz by (auto simp: t alloc_view_def bitmap_blocks_def)
  show "blk t a = (\<lambda>_. 0)" by (simp add: t alloc_view_def)
qed

lemma balloc_ok:
  assumes "alloc_ok s"
  shows "if free_blocks s = {} then balloc 1 s = Panic ''balloc: out of blocks''
    else returns (balloc 1 s) (\<lambda>a t. a \<in> free_blocks s \<and> (\<forall>c < a. c \<notin> free_blocks s) \<and> op_to s (alloc_view s a) 2 t)"
proof -
  let ?n = "unat (sb_size (sb s))"
  have "?n \<le> ((?n + BPB - 1) div BPB) * BPB" "((?n + BPB - 1) div BPB) * BPB < ?n + BPB"
    using div_mult_mod_eq [of "?n + BPB - 1" BPB] mod_less_divisor [of BPB "?n + BPB - 1"] by (simp_all add: BPB_def BSIZE_def)
  then show ?thesis unfolding balloc_def by (intro balloc_loop_ok [OF assms]) simp_all
qed

text \<open>C31. \<open>balloc\<close> inside a transaction: it panics exactly when the bitmap has no free block; otherwise it
  returns the lowest free block, which is then the only block that is no longer free, and whose content
  is zero. No block but that one and those of the bitmap changes, nothing is written to the disk, the
  caller's buffers stay held, and the log header grows by at most two blocks.\<close>

theorem balloc_allocates:
  fixes s :: "'z ist_scheme"
  assumes "alloc_ok s"
  shows "if free_blocks s = {} then balloc 1 s = Panic ''balloc: out of blocks''
    else returns (balloc 1 s) (\<lambda>a t. a \<in> free_blocks s \<and> (\<forall>c < a. c \<notin> free_blocks s) \<and> free_blocks t = free_blocks s - {a}
      \<and> blk t a = (\<lambda>_. 0) \<and> (\<forall>n. n \<notin> bitmap_blocks s \<longrightarrow> n \<noteq> a \<longrightarrow> blk t n = blk s n) \<and> op_ok t \<and> fs_wf t
      \<and> disk t = disk s \<and> in_use t = in_use s \<and> icache t = icache s \<and> lh_count t \<le> lh_count s + 2)"
proof (cases "free_blocks s = {}")
  case True
  then show ?thesis using balloc_ok [OF assms] by simp
next
  case False
  have wf: "fs_wf s" using assms by (simp add: alloc_ok_def)
  have r: "returns (balloc 1 s) (\<lambda>a t. a \<in> free_blocks s \<and> (\<forall>c < a. c \<notin> free_blocks s) \<and> op_to s (alloc_view s a) 2 t)"
    using balloc_ok [OF assms] False by simp
  have "returns (balloc 1 s) (\<lambda>a t. a \<in> free_blocks s \<and> (\<forall>c < a. c \<notin> free_blocks s) \<and> free_blocks t = free_blocks s - {a}
      \<and> blk t a = (\<lambda>_. 0) \<and> (\<forall>n. n \<notin> bitmap_blocks s \<longrightarrow> n \<noteq> a \<longrightarrow> blk t n = blk s n) \<and> op_ok t \<and> fs_wf t
      \<and> disk t = disk s \<and> in_use t = in_use s \<and> icache t = icache s \<and> lh_count t \<le> lh_count s + 2)"
  proof (rule returns_mono [OF r])
    fix a and t :: "'z ist_scheme"
    assume t: "a \<in> free_blocks s \<and> (\<forall>c < a. c \<notin> free_blocks s) \<and> op_to s (alloc_view s a) 2 t"
    then have f: "op_frame s t" "disk t = disk s" by (auto simp: op_to_def)
    note T = op_to_sel [OF conjunct2 [OF conjunct2 [OF t]]] and I = op_frame_ist [OF f(1)]
    note F = free_after_alloc [OF wf conjunct1 [OF t] I(1) T(6)]
    have "fs_wf t" using wf unfolding fs_wf_def F(1,2) I(1) T(2,3) by auto
    then show "a \<in> free_blocks s \<and> (\<forall>c < a. c \<notin> free_blocks s) \<and> free_blocks t = free_blocks s - {a}
      \<and> blk t a = (\<lambda>_. 0) \<and> (\<forall>n. n \<notin> bitmap_blocks s \<longrightarrow> n \<noteq> a \<longrightarrow> blk t n = blk s n) \<and> op_ok t \<and> fs_wf t
      \<and> disk t = disk s \<and> in_use t = in_use s \<and> icache t = icache s \<and> lh_count t \<le> lh_count s + 2"
      using t T I f F by auto
  qed
  then show ?thesis using False by simp
qed

section \<open>Freeing\<close>

lemma free_after_free:
  assumes b: "b < sb_size (sb s)" "b \<notin> bitmap_blocks s"
    and t: "sb t = sb s" "blk t = (blk s)(BBLOCK b (sb s) := bm_clear (blk s (BBLOCK b (sb s))) (unat b mod BPB))"
  shows "free_blocks t = insert b (free_blocks s)" "bitmap_blocks t = bitmap_blocks s" "n \<notin> bitmap_blocks s \<Longrightarrow> blk t n = blk s n"
proof -
  have "block_free t c \<longleftrightarrow> c = b \<or> block_free s c" if "c < sb_size (sb s)" for c
  proof (cases "BBLOCK c (sb s) = BBLOCK b (sb s)")
    case True
    then show ?thesis using mod_same [OF True] by (simp add: block_free_def t bm_clear_free)
  qed (auto simp: block_free_def t)
  then show "free_blocks t = insert b (free_blocks s)" using b(1) by (auto simp: free_blocks_def t)
  show "bitmap_blocks t = bitmap_blocks s" by (simp add: bitmap_blocks_def t)
  show "blk t n = blk s n" if "n \<notin> bitmap_blocks s" using that b(1) by (auto simp: t bitmap_blocks_def)
qed

lemma bfree_ok:
  assumes s: "alloc_ok s" and b: "b < sb_size (sb s)"
  shows "if b \<in> free_blocks s then bfree 1 b s = Panic ''freeing free block''
    else returns (bfree 1 b s)
      (\<lambda>_ t. op_to s ((blk s)(BBLOCK b (sb s) := bm_clear (blk s (BBLOCK b (sb s))) (unat b mod BPB))) 1 t)"
proof -
  let ?N = "BBLOCK b (sb s)"
  have a: "op_ok s" "fs_wf s" "clear_of s" "card (in_use s) + lh_count s < NBUF" "Suc (lh_count s) < LOGSIZE"
    using s by (auto simp: alloc_ok_def)
  have "?N \<in> bitmap_blocks s" using b by (simp add: bitmap_blocks_def)
  then have n: "?N < disksize s" "unat ?N \<notin> log_area s" "?N \<notin> blockno s ` in_use s"
    using a(2,3) by (auto simp: fs_wf_def clear_of_def)
  from op_edit [OF a(1) n(1,3,2) a(4,5)] obtain bp t where t: "bread 1 ?N s = Ret bp t" "b_data (bufs t bp) = blk s ?N"
    and w: "\<And>d. returns (log_write bp (set_data bp d t)) (\<lambda>_ u. returns (brelse bp u) (\<lambda>_ v. op_to s ((blk s)(?N := d)) 1 v))"
    unfolding returns_iff [of "bread 1 ?N s"] by blast
  have f: "b \<in> free_blocks s \<longleftrightarrow> bm_free (blk s ?N) (unat b mod BPB)" using b by (simp add: free_blocks_def block_free_def)
  show ?thesis unfolding bfree_def t(1) bindK.simps t(2) Let_def f using w by simp
qed

text \<open>C32. \<open>bfree\<close> inside a transaction: freeing a block that is free panics; any other block of the file
  system becomes free and nothing else changes, neither the other bits of the bitmap nor the content of
  any block outside it, nor the disk; the log header grows by at most one block.\<close>

theorem bfree_frees:
  fixes s :: "'z ist_scheme"
  assumes "alloc_ok s" "b < sb_size (sb s)" "b \<notin> bitmap_blocks s" "unat b \<notin> log_area s"
  shows "if b \<in> free_blocks s then bfree 1 b s = Panic ''freeing free block''
    else returns (bfree 1 b s) (\<lambda>_ t. free_blocks t = insert b (free_blocks s)
      \<and> (\<forall>n. n \<notin> bitmap_blocks s \<longrightarrow> blk t n = blk s n) \<and> op_ok t \<and> fs_wf t
      \<and> disk t = disk s \<and> in_use t = in_use s \<and> icache t = icache s \<and> lh_count t \<le> lh_count s + 1)"
proof (cases "b \<in> free_blocks s")
  case True
  then show ?thesis using bfree_ok [OF assms(1,2)] by simp
next
  case False
  have wf: "fs_wf s" using assms(1) by (simp add: alloc_ok_def)
  let ?v = "(blk s)(BBLOCK b (sb s) := bm_clear (blk s (BBLOCK b (sb s))) (unat b mod BPB))"
  have r: "returns (bfree 1 b s) (\<lambda>_ t. op_to s ?v 1 t)" using bfree_ok [OF assms(1,2)] False by simp
  have "returns (bfree 1 b s) (\<lambda>_ t. free_blocks t = insert b (free_blocks s)
      \<and> (\<forall>n. n \<notin> bitmap_blocks s \<longrightarrow> blk t n = blk s n) \<and> op_ok t \<and> fs_wf t
      \<and> disk t = disk s \<and> in_use t = in_use s \<and> icache t = icache s \<and> lh_count t \<le> lh_count s + 1)"
  proof (rule returns_mono [OF r])
    fix x and t :: "'z ist_scheme"
    assume t: "op_to s ?v 1 t"
    then have f: "op_frame s t" "disk t = disk s" by (auto simp: op_to_def)
    note T = op_to_sel [OF t] and I = op_frame_ist [OF f(1)]
    note F = free_after_free [OF assms(2,3) I(1) T(6)]
    have "fs_wf t" using wf assms(3,4) unfolding fs_wf_def F(1,2) I(1) T(2,3) by auto
    then show "free_blocks t = insert b (free_blocks s)
      \<and> (\<forall>n. n \<notin> bitmap_blocks s \<longrightarrow> blk t n = blk s n) \<and> op_ok t \<and> fs_wf t
      \<and> disk t = disk s \<and> in_use t = in_use s \<and> icache t = icache s \<and> lh_count t \<le> lh_count s + 1"
      using T I f F by auto
  qed
  then show ?thesis using False by simp
qed

section \<open>A concrete transaction\<close>

text \<open>A file system of 1000 blocks whose bitmap marks the 59 blocks that mkfs uses, in a transaction.\<close>

definition op_fsst :: fsst where
  "op_fsst = boot_fsst\<lparr>disk := (\<lambda>_ _. 0)(58 := (\<lambda>i. if i < 7 then 255 else if i = 7 then 7 else 0)),
     lg := (lg boot_fsst)\<lparr>lg_outstanding := 1\<rparr>\<rparr>"

lemma op_fsst_sel [simp]:
  "bufs op_fsst = free_bufs" "held op_fsst = {}" "cur op_fsst = Some 0" "disksize op_fsst = 1000"
  "sl_locked (sleeplocks op_fsst l) = 0" "sb_size (sb op_fsst) = 1000" "sb_bmapstart (sb op_fsst) = 58"
  "lg op_fsst = \<lparr>lg_start = 2, lg_size = 30, lg_outstanding = 1, lg_committing = 0, lg_dev = 1, lg_lh = \<lparr>lh_n = 0, lh_block = (\<lambda>_. 0)\<rparr>\<rparr>"
  "disk op_fsst = (\<lambda>_ _. 0)(58 := (\<lambda>i. if i < 7 then 255 else if i = 7 then 7 else 0))"
  by (simp_all add: op_fsst_def) (simp_all add: boot_fsst_def boot_lst_def lst.defs pst.defs)

lemma op_fsst_ok: "op_ok op_fsst" "in_use op_fsst = {}" "lh_count op_fsst = 0"
proof -
  have "bio_ok op_fsst" using free_bufs_ring
    by (auto simp: bio_ok_def buf_ok_def caches_def free_bufs_def [of _] intro!: exI [of _ "[0..<NBUF]"])
  moreover have "pins op_fsst = {}" by (auto simp: pins_def pinned_def free_bufs_def)
  moreover show "lh_count op_fsst = 0" by (simp add: lh_count_def)
  ultimately show "op_ok op_fsst"
    by (simp add: op_ok_def log_wf_def log_cap_def entries_ok_def logged_blocks_def LOGSIZE_def MAXOPBLOCKS_def)
  show "in_use op_fsst = {}" by (auto simp: in_use_def free_bufs_def)
qed

lemma bits_255: "k < 8 \<Longrightarrow> bit (255 :: u8) k" "bit (7 :: u8) k \<longleftrightarrow> k < 3"
proof -
  have m: "(255 :: u8) = mask 8" "(7 :: u8) = mask 3" by (simp_all add: mask_eq_exp_minus_1)
  show "k < 8 \<Longrightarrow> bit (255 :: u8) k" "bit (7 :: u8) k \<longleftrightarrow> k < 3" unfolding m bit_mask_iff by auto
qed

lemma op_fsst_bitmap: "b < 1000 \<Longrightarrow> BBLOCK b (sb op_fsst) = 58" "bitmap_blocks op_fsst = {58}" "free_blocks op_fsst = {b. 59 \<le> b \<and> b < 1000}"
proof -
  have u: "unat b < 1000" if "b < 1000" for b :: u32 using that by (simp add: word_less_nat_alt)
  show B: "BBLOCK b (sb op_fsst) = 58" if "b < 1000" for b
  proof -
    have "unat (b div of_nat BPB) = 0" using u [OF that] by (simp add: unat_div unat_BPB) (simp add: BPB_def BSIZE_def)
    then show ?thesis by (simp add: BBLOCK_def unat_eq_0)
  qed
  then show "bitmap_blocks op_fsst = {58}" by (auto simp: bitmap_blocks_def intro: image_eqI [of _ _ 0])
  have "blk op_fsst 58 = (\<lambda>i. if i < 7 then 255 else if i = 7 then 7 else 0)"
    by (subst blk_uncached) (simp_all add: caches_def free_bufs_def)
  then have "block_free op_fsst b \<longleftrightarrow> 59 \<le> unat b" if "b < 1000" for b
    using u [OF that] B [OF that] bits_255 [of "unat b mod 8"]
    by (auto simp: block_free_def bm_free_bit BPB_def BSIZE_def split: if_splits) presburger+
  then show "free_blocks op_fsst = {b. 59 \<le> b \<and> b < 1000}" by (auto simp: free_blocks_def word_le_nat_alt)
qed

lemma op_fsst_alloc: "alloc_ok op_fsst"
  using op_fsst_ok op_fsst_bitmap
  by (auto simp: alloc_ok_def fs_wf_def clear_of_def log_area_def log_cap_def BPB_def BSIZE_def NBUF_def LOGSIZE_def MAXOPBLOCKS_def
      word_le_nat_alt)

theorem balloc_allocates_witness:
  "returns (balloc 1 op_fsst) (\<lambda>a t. a = 59 \<and> free_blocks t = {b. 60 \<le> b \<and> b < 1000} \<and> blk t a = (\<lambda>_. 0))"
proof -
  have "59 \<in> free_blocks op_fsst" by (simp add: op_fsst_bitmap)
  then have ne: "free_blocks op_fsst \<noteq> {}" by blast
  show ?thesis
  proof (rule returns_mono [OF balloc_allocates [OF op_fsst_alloc, unfolded if_not_P [OF ne]]])
    fix a t
    assume t: "a \<in> free_blocks op_fsst \<and> (\<forall>c < a. c \<notin> free_blocks op_fsst) \<and> free_blocks t = free_blocks op_fsst - {a}
      \<and> blk t a = (\<lambda>_. 0) \<and> (\<forall>n. n \<notin> bitmap_blocks op_fsst \<longrightarrow> n \<noteq> a \<longrightarrow> blk t n = blk op_fsst n) \<and> op_ok t \<and> fs_wf t
      \<and> disk t = disk op_fsst \<and> in_use t = in_use op_fsst \<and> icache t = icache op_fsst \<and> lh_count t \<le> lh_count op_fsst + 2"
    then have a: "a = 59" using op_fsst_bitmap(3) by (auto dest: spec [of _ 59])
    moreover have "{b. 59 \<le> b \<and> b < 1000} - {59} = {b :: u32. 60 \<le> b \<and> b < 1000}" by (auto simp: word_le_nat_alt word_unat_eq_iff)
    ultimately show "a = 59 \<and> free_blocks t = {b. 60 \<le> b \<and> b < 1000} \<and> blk t a = (\<lambda>_. 0)"
      using t op_fsst_bitmap(3) by auto
  qed
qed

theorem bfree_frees_witness:
  "returns (bfree 1 40 op_fsst) (\<lambda>_ t. free_blocks t = insert 40 {b. 59 \<le> b \<and> b < 1000})
   \<and> bfree 1 100 op_fsst = Panic ''freeing free block''"
  using bfree_frees [OF op_fsst_alloc, of 40] bfree_frees [OF op_fsst_alloc, of 100]
  by (auto simp: op_fsst_bitmap log_area_def log_cap_def elim!: returns_mono)

end
