(* ===== verification/Xv6_Ide.thy ===== *)
theory Xv6_Ide
  imports Xv6_Bio_Inv
begin

unbundle bit_operations_syntax

text \<open>
  The disk driver (src/ide.c) that replaces the memory disk of src/memide.c when the kernel runs on a
  machine with an IDE controller. The machine's port instructions of src/x86.h (\<open>inb\<close>, \<open>outb\<close>, \<open>insl\<close>,
  \<open>outsl\<close>) act on hardware, which is a parameter: a record of functions on a state \<open>'d\<close> of the devices.
  The requests wait in the list that starts at \<open>idequeue\<close> and runs through \<open>qnext\<close>.
\<close>

section \<open>Ports\<close>

record 'd ports =
  inb :: "u16 \<Rightarrow> 'd \<Rightarrow> u8 \<times> 'd"
  outb :: "u16 \<Rightarrow> u8 \<Rightarrow> 'd \<Rightarrow> 'd"
  insl :: "u16 \<Rightarrow> nat \<Rightarrow> 'd \<Rightarrow> u32 list \<times> 'd"
  outsl :: "u16 \<Rightarrow> u32 list \<Rightarrow> 'd \<Rightarrow> 'd"

section \<open>The driver\<close>

definition FSSIZE :: u32 where "FSSIZE = 1000"
definition SECTOR_SIZE :: nat where "SECTOR_SIZE = 512"
definition IDE_BSY :: u8 where "IDE_BSY = 0x80"
definition IDE_DRDY :: u8 where "IDE_DRDY = 0x40"
definition IDE_DF :: u8 where "IDE_DF = 0x20"
definition IDE_ERR :: u8 where "IDE_ERR = 0x01"
definition IDE_CMD_READ :: u8 where "IDE_CMD_READ = 0x20"
definition IDE_CMD_WRITE :: u8 where "IDE_CMD_WRITE = 0x30"
definition IDE_CMD_RDMUL :: u8 where "IDE_CMD_RDMUL = 0xc4"
definition IDE_CMD_WRMUL :: u8 where "IDE_CMD_WRMUL = 0xc5"

record 'd idest = bst +
  idequeue :: "nat option"
  havedisk1 :: bool
  hw :: 'd

text \<open>The polling loop; \<open>None\<close> if the drive never becomes ready.\<close>

partial_function (option) idepoll :: "'d ports \<Rightarrow> 'd \<Rightarrow> (u8 \<times> 'd) option" where
  "idepoll P d =
     (let (r, d) = inb P 0x1f7 d
      in if r AND (IDE_BSY OR IDE_DRDY) \<noteq> IDE_DRDY then idepoll P d else Some (r, d))"

definition idewait ::
  "'d ports \<Rightarrow> bool \<Rightarrow> ('d, 'z) idest_scheme \<Rightarrow> (('d, 'z) idest_scheme, int) outcome" where
  "idewait P checkerr s =
     (case idepoll P (hw s) of
        None \<Rightarrow> Diverge
      | Some (r, d) \<Rightarrow>
          Ret (if checkerr \<and> r AND (IDE_DF OR IDE_ERR) \<noteq> 0 then - 1 else 0) (s\<lparr>hw := d\<rparr>))"

definition port_out :: "'d ports \<Rightarrow> u16 \<Rightarrow> u8 \<Rightarrow> ('d, 'z) idest_scheme \<Rightarrow> ('d, 'z) idest_scheme" where
  "port_out P p v s = s\<lparr>hw := outb P p v (hw s)\<rparr>"

text \<open>The search for disk 1, with \<open>k\<close> polls left.\<close>

fun ideprobe :: "'d ports \<Rightarrow> nat \<Rightarrow> ('d, 'z) idest_scheme \<Rightarrow> ('d, 'z) idest_scheme" where
  "ideprobe P 0 s = s"
| "ideprobe P (Suc k) s =
     (let (r, d) = inb P 0x1f7 (hw s); s = s\<lparr>hw := d\<rparr>
      in if r \<noteq> 0 then s\<lparr>havedisk1 := True\<rparr> else ideprobe P k s)"

text \<open>\<open>ioapicenable(IRQ_IDE, ncpu - 1)\<close> routes the interrupt and is the parameter \<open>route\<close>.\<close>

definition ideinit_pio ::
  "'d ports \<Rightarrow> ('d \<Rightarrow> 'd) \<Rightarrow> ('d, 'z) idest_scheme \<Rightarrow> (('d, 'z) idest_scheme, unit) outcome" where
  "ideinit_pio P route s =
     bindK (idewait P False (s\<lparr>hw := route (hw s)\<rparr>)) (\<lambda>_ s.
     let s = port_out P 0x1f6 (0xe0 OR push_bit 4 1) s;
         s = ideprobe P 1000 s
     in Ret () (port_out P 0x1f6 (0xe0 OR push_bit 4 0) s))"

text \<open>The 128 words of a block, as \<open>insl\<close> and \<open>outsl\<close> move them.\<close>

definition block_words :: "bytes \<Rightarrow> u32 list" where
  "block_words d = map (\<lambda>i. get32 d (4 * i)) [0..<BSIZE div 4]"

definition put_words :: "u32 list \<Rightarrow> bytes \<Rightarrow> bytes" where
  "put_words ws d = for_range 0 (length ws) (\<lambda>i d. put32 d (4 * i) (ws ! i)) d"

definition idestart ::
  "'d ports \<Rightarrow> nat option \<Rightarrow> ('d, 'z) idest_scheme \<Rightarrow> (('d, 'z) idest_scheme, unit) outcome" where
  "idestart P bo s =
     (case bo of
        None \<Rightarrow> Panic ''idestart''
      | Some b \<Rightarrow>
          if b_blockno (bufs s b) \<ge> FSSIZE then Panic ''incorrect blockno''
          else
            let sector_per_block = BSIZE div SECTOR_SIZE;
                sector = b_blockno (bufs s b) * of_nat sector_per_block;
                read_cmd = (if sector_per_block = 1 then IDE_CMD_READ else IDE_CMD_RDMUL);
                write_cmd = (if sector_per_block = 1 then IDE_CMD_WRITE else IDE_CMD_WRMUL)
            in if sector_per_block > 7 then Panic ''idestart''
               else
                 bindK (idewait P False s) (\<lambda>_ s.
                 let s = port_out P 0x3f6 0 s;
                     s = port_out P 0x1f2 (of_nat sector_per_block) s;
                     s = port_out P 0x1f3 (ucast (sector AND 0xff)) s;
                     s = port_out P 0x1f4 (ucast (drop_bit 8 sector AND 0xff)) s;
                     s = port_out P 0x1f5 (ucast (drop_bit 16 sector AND 0xff)) s;
                     s = port_out P 0x1f6 (ucast (0xe0 OR push_bit 4 (b_dev (bufs s b) AND 1)
                           OR (drop_bit 24 sector AND 0x0f))) s
                 in if b_flags (bufs s b) AND B_DIRTY \<noteq> 0 then
                      let s = port_out P 0x1f7 write_cmd s
                      in Ret () (s\<lparr>hw := outsl P 0x1f0 (block_words (b_data (bufs s b))) (hw s)\<rparr>)
                    else Ret () (port_out P 0x1f7 read_cmd s)))"

definition ideintr_pio ::
  "'d ports \<Rightarrow> ('d, 'z) idest_scheme \<Rightarrow> (('d, 'z) idest_scheme, unit) outcome" where
  "ideintr_pio P s =
     bindK (acquire LIde s) (\<lambda>_ s.
     case idequeue s of
       None \<Rightarrow> release LIde s
     | Some b \<Rightarrow>
         let s = s\<lparr>idequeue := b_qnext (bufs s b)\<rparr>
         in bindK (if b_flags (bufs s b) AND B_DIRTY = 0 then
                     bindK (idewait P True s) (\<lambda>r s.
                     if r \<ge> 0 then
                       let (ws, d) = insl P 0x1f0 (BSIZE div 4) (hw s)
                       in Ret () (upd_buf b (b_data_update (put_words ws)) (s\<lparr>hw := d\<rparr>))
                     else Ret () s)
                   else Ret () s) (\<lambda>_ s.
            let s = upd_buf b (b_flags_update (\<lambda>f. f OR B_VALID)) s;
                s = upd_buf b (b_flags_update (\<lambda>f. f AND NOT B_DIRTY)) s
            in bindK (wakeup (ChBuf b) s) (\<lambda>_ s.
               bindK (if idequeue s \<noteq> None then idestart P (idequeue s) s else Ret () s) (\<lambda>_ s.
               release LIde s))))"

text \<open>
  The walk to the end of the queue: \<open>pp\<close> is \<open>&idequeue\<close> (\<open>None\<close>) or the address of the field \<open>qnext\<close> of a
  buffer. It carries fuel; no queue without repetition is longer than \<open>NBUF\<close>.
\<close>

fun ide_append ::
  "nat \<Rightarrow> nat option \<Rightarrow> nat \<Rightarrow> ('d, 'z) idest_scheme \<Rightarrow> (('d, 'z) idest_scheme, unit) outcome" where
  "ide_append 0 pp b s = Diverge"
| "ide_append (Suc fuel) pp b s =
     (case (case pp of None \<Rightarrow> idequeue s | Some c \<Rightarrow> b_qnext (bufs s c)) of
        Some c \<Rightarrow> ide_append fuel (Some c) b s
      | None \<Rightarrow>
          Ret () (case pp of
              None \<Rightarrow> s\<lparr>idequeue := Some b\<rparr>
            | Some c \<Rightarrow> upd_buf c (b_qnext_update (\<lambda>_. Some b)) s))"

text \<open>The waiting loop of \<open>iderw\<close>, cut where the thread leaves the CPU.\<close>

definition iderw_wait :: "nat \<Rightarrow> ('d, 'z) idest_scheme \<Rightarrow> (('d, 'z) idest_scheme, unit) outcome" where
  "iderw_wait b s =
     (if b_flags (bufs s b) AND (B_VALID OR B_DIRTY) \<noteq> B_VALID then sleep 0 (ChBuf b) LIde s
      else release LIde s)"

definition iderw_resume :: "nat \<Rightarrow> ('d, 'z) idest_scheme \<Rightarrow> (('d, 'z) idest_scheme, unit) outcome" where
  "iderw_resume b s = bindK (sleep_resume LIde s) (\<lambda>_ s. iderw_wait b s)"

definition iderw_pio ::
  "'d ports \<Rightarrow> nat \<Rightarrow> ('d, 'z) idest_scheme \<Rightarrow> (('d, 'z) idest_scheme, unit) outcome" where
  "iderw_pio P b s =
     bindK (holdingsleep (SBuf b) s) (\<lambda>h s.
     if \<not> h then Panic ''iderw: buf not locked''
     else if b_flags (bufs s b) AND (B_VALID OR B_DIRTY) = B_VALID then Panic ''iderw: nothing to do''
     else if b_dev (bufs s b) \<noteq> 0 \<and> \<not> havedisk1 s then Panic ''iderw: ide disk 1 not present''
     else
       bindK (acquire LIde s) (\<lambda>_ s.
       bindK (ide_append (NBUF + 2) None b (upd_buf b (b_qnext_update (\<lambda>_. None)) s)) (\<lambda>_ s.
       bindK (if idequeue s = Some b then idestart P (Some b) s else Ret () s) (\<lambda>_ s.
       iderw_wait b s))))"

section \<open>The drive\<close>

text \<open>
  What the driver relies on: the behaviour that the ATA standard prescribes for the ports it uses.
  The abstraction of a device state is the content of the task file registers, the command that is
  pending (a write or not, the selected disk, the sector) and the content of the sectors.
\<close>

record 'd ata =
  reg :: "'d \<Rightarrow> u16 \<Rightarrow> u8"
  pending :: "'d \<Rightarrow> (bool \<times> bool \<times> nat) option"
  sectors :: "'d \<Rightarrow> bool \<Rightarrow> nat \<Rightarrow> u32 list"

definition lba :: "(u16 \<Rightarrow> u8) \<Rightarrow> nat" where
  "lba r = unat (r 0x1f3) + 2 ^ 8 * unat (r 0x1f4) + 2 ^ 16 * unat (r 0x1f5) + 2 ^ 24 * (unat (r 0x1f6) mod 16)"

definition selected :: "(u16 \<Rightarrow> u8) \<Rightarrow> bool" where
  "selected r = bit (r 0x1f6) 4"

definition task_file :: "u16 set" where
  "task_file = {0x3f6, 0x1f2, 0x1f3, 0x1f4, 0x1f5, 0x1f6}"

definition ata_polls :: "'d ports \<Rightarrow> 'd ata \<Rightarrow> bool" where
  "ata_polls P A \<longleftrightarrow> (\<forall>d. \<exists>r d'. idepoll P d = Some (r, d') \<and> r AND (IDE_DF OR IDE_ERR) = 0
     \<and> reg A d' = reg A d \<and> pending A d' = pending A d \<and> sectors A d' = sectors A d)"

definition ata_registers :: "'d ports \<Rightarrow> 'd ata \<Rightarrow> bool" where
  "ata_registers P A \<longleftrightarrow> (\<forall>d. \<forall>p \<in> task_file. \<forall>v.
     reg A (outb P p v d) = (reg A d)(p := v) \<and> sectors A (outb P p v d) = sectors A d)"

definition ata_commands :: "'d ports \<Rightarrow> 'd ata \<Rightarrow> bool" where
  "ata_commands P A \<longleftrightarrow> (\<forall>d. reg A d 0x1f2 = 1 \<longrightarrow>
     pending A (outb P 0x1f7 IDE_CMD_READ d) = Some (False, selected (reg A d), lba (reg A d))
     \<and> sectors A (outb P 0x1f7 IDE_CMD_READ d) = sectors A d
     \<and> pending A (outb P 0x1f7 IDE_CMD_WRITE d) = Some (True, selected (reg A d), lba (reg A d))
     \<and> sectors A (outb P 0x1f7 IDE_CMD_WRITE d) = sectors A d)"

definition ata_data :: "'d ports \<Rightarrow> 'd ata \<Rightarrow> bool" where
  "ata_data P A \<longleftrightarrow> (\<forall>d k n. length (sectors A d k n) = 128)
     \<and> (\<forall>d k n. pending A d = Some (False, k, n) \<longrightarrow>
          fst (insl P 0x1f0 128 d) = sectors A d k n \<and> sectors A (snd (insl P 0x1f0 128 d)) = sectors A d)
     \<and> (\<forall>d k n ws. pending A d = Some (True, k, n) \<and> length ws = 128 \<longrightarrow>
          sectors A (outsl P 0x1f0 ws d) = (sectors A d)(k := (sectors A d k)(n := ws)))"

definition ata_drive :: "'d ports \<Rightarrow> 'd ata \<Rightarrow> bool" where
  "ata_drive P A \<longleftrightarrow> ata_polls P A \<and> ata_registers P A \<and> ata_commands P A \<and> ata_data P A"

section \<open>Starting a request\<close>

text \<open>The disk and the sector that a buffer names.\<close>

definition unit_of :: "buf \<Rightarrow> bool" where
  "unit_of q = bit (b_dev q) 0"

lemma idewait_ready:
  assumes "ata_drive P A"
  obtains d where "\<And>c. idewait P c s = Ret 0 (s\<lparr>hw := d\<rparr>)" "reg A d = reg A (hw s)" "pending A d = pending A (hw s)"
    "sectors A d = sectors A (hw s)"
proof -
  from assms obtain r d where "idepoll P (hw s) = Some (r, d)" "r AND (IDE_DF OR IDE_ERR) = 0" "reg A d = reg A (hw s)"
    "pending A d = pending A (hw s)" "sectors A d = sectors A (hw s)"
    unfolding ata_drive_def ata_polls_def by blast
  then show ?thesis by (intro that [of d]) (simp_all add: idewait_def)
qed

text \<open>The registers hold the number of the sector and the disk.\<close>

lemma lba_split:
  assumes "n < FSSIZE" "r 0x1f3 = ucast (n AND 0xff)" "r 0x1f4 = ucast (drop_bit 8 n AND 0xff)" "r 0x1f5 = ucast (drop_bit 16 n AND 0xff)"
    "r 0x1f6 = ucast (0xe0 OR push_bit 4 (dv AND 1) OR (drop_bit 24 n AND 0x0f))"
  shows "lba r = unat n" "selected r = bit dv 0"
proof -
  have n: "unat n < 1000" using assms(1) by (simp add: FSSIZE_def word_less_nat_alt)
  have m: "unat (ucast (x AND 0xff) :: u8) = unat x mod 256" for x :: u32
  proof -
    have "x AND 0xff = take_bit 8 x" by (simp add: take_bit_eq_mask mask_eq_exp_minus_1)
    then show ?thesis by (simp add: unsigned_ucast_eq unsigned_take_bit_eq take_bit_eq_mod unat_mod)
  qed
  have d: "unat (drop_bit k n) = unat n div 2 ^ k" for k by (subst unat_drop_bit_eq) (rule drop_bit_eq_div)
  have z: "drop_bit 24 n = 0" using d [of 24] n by (simp add: word_unat_eq_iff)
  have dv: "dv AND 1 = (if bit dv 0 then 1 else 0)" by (simp add: and_one_eq bit_0 odd_iff_mod_2_eq_one)
  have r6: "r 0x1f6 = (if bit dv 0 then 0xf0 else 0xe0)" unfolding assms(5) z dv by simp
  show "selected r = bit dv 0" unfolding selected_def r6 by simp
  show "lba r = unat n" unfolding lba_def assms(2-4) r6 m d using n by simp
qed

lemma port_out_sel [simp]:
  "bufs (port_out P p v s) = bufs s" "hw (port_out P p v s) = outb P p v (hw s)" "idequeue (port_out P p v s) = idequeue s"
  by (simp_all add: port_out_def)

lemma port_out_hw: "port_out P p v (s\<lparr>hw := d\<rparr>) = s\<lparr>hw := outb P p v d\<rparr>"
  by (simp add: port_out_def)

text \<open>The state of the drive after a request for the buffer \<open>q\<close>.\<close>

definition requested :: "'d ata \<Rightarrow> buf \<Rightarrow> 'd \<Rightarrow> 'd \<Rightarrow> bool" where
  "requested A q d e \<longleftrightarrow>
     (if b_flags q AND B_DIRTY \<noteq> 0
      then sectors A e = (sectors A d)(unit_of q := (sectors A d (unit_of q))(unat (b_blockno q) := block_words (b_data q)))
      else sectors A e = sectors A d \<and> pending A e = Some (False, unit_of q, unat (b_blockno q)))"

lemma idestart_ok:
  assumes D: "ata_drive P A" and n: "b_blockno (bufs s b) < FSSIZE"
  shows "\<exists>e. idestart P (Some b) s = Ret () (s\<lparr>hw := e\<rparr>) \<and> requested A (bufs s b) (hw s) e"
proof -
  obtain d where d: "\<And>c. idewait P c s = Ret 0 (s\<lparr>hw := d\<rparr>)" "sectors A d = sectors A (hw s)" 
    using idewait_ready [OF D, of s] by metis
  let ?q = "bufs s b"
  let ?n = "b_blockno ?q"
  let ?d1 = "outb P 0x3f6 0 d"
  let ?d2 = "outb P 0x1f2 1 ?d1"
  let ?d3 = "outb P 0x1f3 (ucast (?n AND 0xff)) ?d2"
  let ?d4 = "outb P 0x1f4 (ucast (drop_bit 8 ?n AND 0xff)) ?d3"
  let ?d5 = "outb P 0x1f5 (ucast (drop_bit 16 ?n AND 0xff)) ?d4"
  let ?d6 = "outb P 0x1f6 (ucast (0xe0 OR push_bit 4 (b_dev ?q AND 1) OR (drop_bit 24 ?n AND 0x0f))) ?d5"
  have R: "reg A (outb P p v e) = (reg A e)(p := v)" "sectors A (outb P p v e) = sectors A e" if "p \<in> task_file" for p v e
    using D that by (auto simp: ata_drive_def ata_registers_def)
  have sec: "sectors A ?d6 = sectors A (hw s)" by (simp add: R task_file_def d(2))
  have regs: "reg A ?d6 = (reg A d)(0x3f6 := 0, 0x1f2 := 1, 0x1f3 := ucast (?n AND 0xff), 0x1f4 := ucast (drop_bit 8 ?n AND 0xff),
      0x1f5 := ucast (drop_bit 16 ?n AND 0xff),
      0x1f6 := ucast (0xe0 OR push_bit 4 (b_dev ?q AND 1) OR (drop_bit 24 ?n AND 0x0f)))"
    by (simp add: R task_file_def del: fun_upd_apply)
  have L: "lba (reg A ?d6) = unat ?n" "selected (reg A ?d6) = unit_of ?q"
    unfolding regs unit_of_def by (rule lba_split [OF n, where dv = "b_dev ?q"]; simp)+
  have one: "reg A ?d6 0x1f2 = 1" unfolding regs by simp
  define e where "e = ?d6"
  note E = L [folded e_def] one [folded e_def] sec [folded e_def]
  have "reg A e 0x1f2 = 1 \<longrightarrow> pending A (outb P 0x1f7 IDE_CMD_READ e) = Some (False, selected (reg A e), lba (reg A e))
     \<and> sectors A (outb P 0x1f7 IDE_CMD_READ e) = sectors A e
     \<and> pending A (outb P 0x1f7 IDE_CMD_WRITE e) = Some (True, selected (reg A e), lba (reg A e))
     \<and> sectors A (outb P 0x1f7 IDE_CMD_WRITE e) = sectors A e" using D unfolding ata_drive_def ata_commands_def by blast
  then have C: "pending A (outb P 0x1f7 IDE_CMD_READ e) = Some (False, unit_of ?q, unat ?n)"
    "sectors A (outb P 0x1f7 IDE_CMD_READ e) = sectors A (hw s)"
    "pending A (outb P 0x1f7 IDE_CMD_WRITE e) = Some (True, unit_of ?q, unat ?n)"
    "sectors A (outb P 0x1f7 IDE_CMD_WRITE e) = sectors A (hw s)"
    unfolding E by simp_all
  have "length (block_words (b_data ?q)) = 128" by (simp add: block_words_def BSIZE_def)
  then have W: "sectors A (outsl P 0x1f0 (block_words (b_data ?q)) (outb P 0x1f7 IDE_CMD_WRITE e))
      = (sectors A (hw s))(unit_of ?q := (sectors A (hw s) (unit_of ?q))(unat ?n := block_words (b_data ?q)))"
    using D C(3,4) unfolding ata_drive_def ata_data_def by metis
  let ?e = "if b_flags ?q AND B_DIRTY \<noteq> 0 then outsl P 0x1f0 (block_words (b_data ?q)) (outb P 0x1f7 IDE_CMD_WRITE e)
    else outb P 0x1f7 IDE_CMD_READ e"
  have "idestart P (Some b) s = Ret () (s\<lparr>hw := ?e\<rparr>)"
    using n d(1) by (simp add: idestart_def port_out_hw BSIZE_def SECTOR_SIZE_def linorder_not_le e_def Let_def)
  moreover have "requested A ?q (hw s) ?e" using C W by (simp add: requested_def)
  ultimately show ?thesis by blast
qed

section \<open>The queue\<close>

primrec qpath :: "(nat \<Rightarrow> nat option) \<Rightarrow> nat option \<Rightarrow> nat list \<Rightarrow> bool" where
  "qpath f p [] \<longleftrightarrow> p = None"
| "qpath f p (b # xs) \<longleftrightarrow> p = Some b \<and> qpath f (f b) xs"

lemma qpath_cong: "(\<And>i. i \<in> set xs \<Longrightarrow> f i = g i) \<Longrightarrow> qpath f p xs = qpath g p xs"
  by (induction xs arbitrary: p) auto

lemma qpath_snoc:
  "qpath f p xs \<Longrightarrow> xs \<noteq> [] \<Longrightarrow> distinct (xs @ [b]) \<Longrightarrow> f b = None \<Longrightarrow> qpath (f(last xs := Some b)) p (xs @ [b])"
proof (induction xs arbitrary: p)
  case (Cons x xs)
  show ?case
  proof (cases "xs = []")
    case False
    then have "x \<noteq> last xs" using Cons.prems(3) by auto
    then show ?thesis using Cons False by auto
  qed (use Cons.prems in auto)
qed simp

lemma ide_append_ok:
  assumes "qpath (\<lambda>i. b_qnext (bufs s i)) (case pp of None \<Rightarrow> idequeue s | Some c \<Rightarrow> b_qnext (bufs s c)) xs" "length xs < fuel"
  shows "ide_append fuel pp b s = Ret () (case (if xs = [] then pp else Some (last xs)) of
      None \<Rightarrow> s\<lparr>idequeue := Some b\<rparr> | Some c \<Rightarrow> upd_buf c (b_qnext_update (\<lambda>_. Some b)) s)"
  using assms
proof (induction xs arbitrary: fuel pp)
  case Nil
  then show ?case by (cases fuel) auto
next
  case (Cons x xs)
  then obtain f where f: "fuel = Suc f" by (cases fuel) auto
  have "qpath (\<lambda>i. b_qnext (bufs s i)) (b_qnext (bufs s x)) xs" "length xs < f" using Cons.prems f by auto
  from Cons.IH [of "Some x" f] this Cons.prems(1) f show ?case by simp
qed

definition active :: "'d ata \<Rightarrow> buf \<Rightarrow> 'd \<Rightarrow> bool" where
  "active A q d \<longleftrightarrow>
     (if b_flags q AND B_DIRTY \<noteq> 0 then sectors A d (unit_of q) (unat (b_blockno q)) = block_words (b_data q)
      else pending A d = Some (False, unit_of q, unat (b_blockno q)))"

text \<open>
  The invariant of the driver: the queue is the list \<open>xs\<close> of requests, and the drive works on the first
  of them.
\<close>

definition ide_ok :: "'d ata \<Rightarrow> ('d, 'z) idest_scheme \<Rightarrow> nat list \<Rightarrow> bool" where
  "ide_ok A s xs \<longleftrightarrow> qpath (\<lambda>i. b_qnext (bufs s i)) (idequeue s) xs \<and> distinct xs \<and> set xs \<subseteq> {..<NBUF}
     \<and> (\<forall>b \<in> set xs. b_blockno (bufs s b) < FSSIZE \<and> b_flags (bufs s b) AND (B_VALID OR B_DIRTY) \<noteq> B_VALID)
     \<and> (xs \<noteq> [] \<longrightarrow> active A (bufs s (hd xs)) (hw s))"

lemma requested_active: "requested A q d e \<Longrightarrow> active A q e"
  by (auto simp: requested_def active_def)

text \<open>Fields that neither \<open>qnext\<close> nor the hardware is part of.\<close>

lemma fits_fuel: "distinct xs \<Longrightarrow> set xs \<subseteq> {..<NBUF} \<Longrightarrow> length xs < NBUF + 2"
  using card_mono [of "{..<NBUF}" "set xs"] by (simp add: distinct_card)

text \<open>Appending a request.\<close>

definition enqueued :: "nat \<Rightarrow> nat list \<Rightarrow> ('d, 'z) idest_scheme \<Rightarrow> ('d, 'z) idest_scheme" where
  "enqueued b xs s =
     (let s = upd_buf b (b_qnext_update (\<lambda>_. None)) s
      in if xs = [] then s\<lparr>idequeue := Some b\<rparr> else upd_buf (last xs) (b_qnext_update (\<lambda>_. Some b)) s)"

lemma enqueued_sel:
  "hw (enqueued b xs s) = hw s" "held (enqueued b xs s) = held s" "cur (enqueued b xs s) = cur s" "ptable (enqueued b xs s) = ptable s"
  "b_flags (bufs (enqueued b xs s) i) = b_flags (bufs s i)" "b_blockno (bufs (enqueued b xs s) i) = b_blockno (bufs s i)"
  "b_dev (bufs (enqueued b xs s) i) = b_dev (bufs s i)" "b_data (bufs (enqueued b xs s) i) = b_data (bufs s i)"
  by (auto simp: enqueued_def Let_def upd_buf_def)

lemma enqueued_queue:
  assumes q: "qpath (\<lambda>i. b_qnext (bufs s i)) (idequeue s) xs" and d: "distinct (xs @ [b])"
  shows "qpath (\<lambda>i. b_qnext (bufs (enqueued b xs s) i)) (idequeue (enqueued b xs s)) (xs @ [b])"
    "idequeue (enqueued b xs s) = Some (hd (xs @ [b]))"
proof -
  let ?f = "(\<lambda>i. b_qnext (bufs s i))(b := None)"
  have f: "qpath ?f (idequeue s) xs" using q d by (subst qpath_cong [where g = "\<lambda>i. b_qnext (bufs s i)"]) auto
  show "qpath (\<lambda>i. b_qnext (bufs (enqueued b xs s) i)) (idequeue (enqueued b xs s)) (xs @ [b])"
  proof (cases "xs = []")
    case True
    then show ?thesis by (simp add: enqueued_def)
  next
    case False
    have "(\<lambda>i. b_qnext (bufs (enqueued b xs s) i)) = ?f(last xs := Some b)" using False by (auto simp: enqueued_def Let_def fun_eq_iff)
    moreover have "idequeue (enqueued b xs s) = idequeue s" using False by (simp add: enqueued_def upd_buf_def)
    ultimately show ?thesis using qpath_snoc [OF f False d] by simp
  qed
  show "idequeue (enqueued b xs s) = Some (hd (xs @ [b]))" using q by (cases xs) (simp_all add: enqueued_def upd_buf_def)
qed

lemma append_enqueued:
  assumes q: "qpath (\<lambda>i. b_qnext (bufs s i)) (idequeue s) xs" and d: "distinct (xs @ [b])" "set xs \<subseteq> {..<NBUF}"
  shows "ide_append (NBUF + 2) None b (upd_buf b (b_qnext_update (\<lambda>_. None)) s) = Ret () (enqueued b xs s)"
proof -
  let ?s = "upd_buf b (b_qnext_update (\<lambda>_. None)) s"
  have "qpath (\<lambda>i. b_qnext (bufs ?s i)) (idequeue s) xs" using q d(1) by (subst qpath_cong [where g = "\<lambda>i. b_qnext (bufs s i)"]) auto
  moreover have "idequeue ?s = idequeue s" by (simp add: upd_buf_def)
  ultimately show ?thesis using ide_append_ok [of ?s None xs "NBUF + 2" b] fits_fuel [of xs] d by (simp add: enqueued_def)
qed

lemma sleep_eq:
  assumes "held s = {lk}" "lk \<noteq> LPtable" "cur s = Some p"
  shows "sleep k ch lk s = Swtch k ((upd_proc p (\<lambda>q. q\<lparr>p_chan := Some ch, p_state := SLEEPING\<rparr>) s)\<lparr>held := {LPtable}\<rparr>)"
  using assms by (auto simp: sleep_def sched_def myprocK_def acquire_def release_def upd_proc_def insert_commute)

text \<open>What a caller of \<open>iderw\<close> guarantees.\<close>

definition may_request :: "('d, 'z) idest_scheme \<Rightarrow> nat \<Rightarrow> bool" where
  "may_request s b \<longleftrightarrow> held s = {} \<and> cur s \<noteq> None \<and> b < NBUF \<and> SBuf b \<in> owned_sleep s \<and> b_blockno (bufs s b) < FSSIZE
     \<and> b_flags (bufs s b) AND (B_VALID OR B_DIRTY) \<noteq> B_VALID \<and> (b_dev (bufs s b) = 0 \<or> havedisk1 s)"

lemma iderw_pio_eq:
  assumes D: "ata_drive P A" and q: "ide_ok A s xs" "b \<notin> set xs" and r: "may_request s b" and p: "cur s = Some p"
  shows "\<exists>e. iderw_pio P b s = Swtch 0 ((upd_proc p (\<lambda>q. q\<lparr>p_chan := Some (ChBuf b), p_state := SLEEPING\<rparr>)
        (enqueued b xs s\<lparr>hw := e\<rparr>))\<lparr>held := {LPtable}\<rparr>)
    \<and> (if xs = [] then requested A (bufs s b) (hw s) e else e = hw s)"
proof -
  let ?s = "s\<lparr>held := {LIde}\<rparr>"
  have q': "qpath (\<lambda>i. b_qnext (bufs ?s i)) (idequeue ?s) xs" "distinct (xs @ [b])" "set xs \<subseteq> {..<NBUF}"
    using q by (auto simp: ide_ok_def)
  let ?t = "enqueued b xs ?s"
  note S = enqueued_sel [where s = ?s]
  have hd: "idequeue ?t = Some (hd (xs @ [b]))" by (rule enqueued_queue(2) [OF q'(1,2)])
  have "\<exists>e. (if idequeue ?t = Some b then idestart P (Some b) ?t else Ret () ?t) = Ret () (?t\<lparr>hw := e\<rparr>)
      \<and> (if xs = [] then requested A (bufs s b) (hw s) e else e = hw s)"
  proof (cases "xs = []")
    case True
    have "requested A (bufs ?t b) d e = requested A (bufs s b) d e" for d e by (simp add: requested_def unit_of_def S)
    moreover have "b_blockno (bufs ?t b) < FSSIZE" using r by (simp add: S may_request_def)
    ultimately show ?thesis using idestart_ok [OF D, of ?t b] True hd by (simp add: S)
  next
    case False
    then have "hd (xs @ [b]) \<noteq> b" using q(2) by (cases xs) auto
    moreover have "?t = ?t\<lparr>hw := hw s\<rparr>" using S(1) by simp
    ultimately show ?thesis using False hd by auto
  qed
  then obtain e where e: "(if idequeue ?t = Some b then idestart P (Some b) ?t else Ret () ?t) = Ret () (?t\<lparr>hw := e\<rparr>)"
    "if xs = [] then requested A (bufs s b) (hw s) e else e = hw s" by blast
  have h: "holdingsleep (SBuf b) s = Ret True s" using holdingsleep_eq [of "SBuf b" s p] r p by (simp add: may_request_def)
  have w: "iderw_wait b (?t\<lparr>hw := e\<rparr>) = sleep 0 (ChBuf b) LIde (?t\<lparr>hw := e\<rparr>)"
    using r by (simp add: iderw_wait_def S may_request_def)
  have "iderw_pio P b s = sleep 0 (ChBuf b) LIde (?t\<lparr>hw := e\<rparr>)"
    using h r append_enqueued [OF q'] e(1) w by (auto simp: iderw_pio_def may_request_def simp del: ide_append.simps)
  also have "\<dots> = Swtch 0 ((upd_proc p (\<lambda>q. q\<lparr>p_chan := Some (ChBuf b), p_state := SLEEPING\<rparr>) (?t\<lparr>hw := e\<rparr>))\<lparr>held := {LPtable}\<rparr>)"
    by (rule sleep_eq) (simp_all add: S p)
  also have "(upd_proc p f (?t\<lparr>hw := e\<rparr>))\<lparr>held := {LPtable}\<rparr> = (upd_proc p f (enqueued b xs s\<lparr>hw := e\<rparr>))\<lparr>held := {LPtable}\<rparr>" for f
    by (simp add: enqueued_def Let_def upd_proc_def upd_buf_def)
  finally show ?thesis using e(2) by blast
qed

lemma block_words_put: "length ws = 128 \<Longrightarrow> block_words (put_words ws d) = ws"
proof -
  assume l: "length ws = 128"
  let ?P = "\<lambda>n t. \<forall>i < n. get32 t (4 * i) = ws ! i"
  have "?P (0 + length ws) (put_words ws d)"
    unfolding put_words_def by (rule for_range_inv [of ?P]) (auto simp: less_Suc_eq get32_put32_same get32_put32_other)
  then show ?thesis using l by (simp add: block_words_def BSIZE_def list_eq_iff_nth_eq)
qed

lemma data_update_const: "b_data_update f q = q\<lparr>b_data := f (b_data q)\<rparr>"
  by (rule buf.equality) simp_all

text \<open>The transfer at the end of a request: the buffer has the content of the sector.\<close>

lemma ideintr_transfer:
  assumes D: "ata_drive P A" and a: "active A (bufs s b) (hw s)"
  shows "\<exists>d x. (if b_flags (bufs s b) AND B_DIRTY = 0 then
           bindK (idewait P True s) (\<lambda>r s.
           if r \<ge> 0 then
             let (ws, d) = insl P 0x1f0 (BSIZE div 4) (hw s)
             in Ret () (upd_buf b (b_data_update (put_words ws)) (s\<lparr>hw := d\<rparr>))
           else Ret () s)
         else Ret () s) = Ret () (upd_buf b (b_data_update (\<lambda>_. x)) (s\<lparr>hw := d\<rparr>))
    \<and> sectors A d = sectors A (hw s) \<and> block_words x = sectors A (hw s) (unit_of (bufs s b)) (unat (b_blockno (bufs s b)))"
proof (cases "b_flags (bufs s b) AND B_DIRTY = 0")
  case True
  let ?k = "unit_of (bufs s b)" and ?n = "unat (b_blockno (bufs s b))"
  obtain d where d: "\<And>c. idewait P c s = Ret 0 (s\<lparr>hw := d\<rparr>)" "pending A d = pending A (hw s)" "sectors A d = sectors A (hw s)"
    using idewait_ready [OF D, of s] by metis
  obtain ws e where i: "insl P 0x1f0 128 d = (ws, e)" by fastforce
  have "pending A d = Some (False, ?k, ?n)" using a True d(2) by (simp add: active_def)
  then have w: "ws = sectors A (hw s) ?k ?n" "sectors A e = sectors A (hw s)" "length ws = 128"
    using D i d(3) unfolding ata_drive_def ata_data_def by (metis fst_conv, metis snd_conv, metis fst_conv)
  have "upd_buf b (b_data_update (put_words ws)) (s\<lparr>hw := e\<rparr>) = upd_buf b (b_data_update (\<lambda>_. put_words ws (b_data (bufs s b)))) (s\<lparr>hw := e\<rparr>)"
    by (simp add: upd_buf_def data_update_const [of "put_words ws"])
  then show ?thesis using True d(1) i w block_words_put [OF w(3)]
    by (intro exI [of _ e] exI [of _ "put_words ws (b_data (bufs s b))"]) (simp add: BSIZE_def)
next
  case False
  have "upd_buf b (b_data_update (\<lambda>_. b_data (bufs s b))) (s\<lparr>hw := hw s\<rparr>) = s" by (simp add: upd_buf_def)
  then show ?thesis using False a by (intro exI [of _ "hw s"] exI [of _ "b_data (bufs s b)"]) (simp add: active_def)
qed

definition completed :: "buf \<Rightarrow> bytes \<Rightarrow> buf" where
  "completed q x = q\<lparr>b_data := x, b_flags := (b_flags q OR B_VALID) AND NOT B_DIRTY\<rparr>"

lemma completed_eq: "b_flags_update (\<lambda>f. f AND NOT B_DIRTY) (b_flags_update (\<lambda>f. f OR B_VALID) (q\<lparr>b_data := x\<rparr>)) = completed q x"
  by (rule buf.equality) (simp_all add: completed_def)

lemma requested_cong: "sectors A d = sectors A d' \<Longrightarrow> requested A q d e = requested A q d' e"
  by (simp add: requested_def)

lemma ideintr_eq:
  assumes D: "ata_drive P A" and q: "ide_ok A s (b # xs)" and h: "held s = {}"
  shows "\<exists>d x. ideintr_pio P s = Ret () (s\<lparr>idequeue := b_qnext (bufs s b), bufs := (bufs s)(b := completed (bufs s b) x), hw := d,
        ptable := wake_all (ChBuf b) (ptable s)\<rparr>)
    \<and> block_words x = sectors A (hw s) (unit_of (bufs s b)) (unat (b_blockno (bufs s b)))
    \<and> (if xs = [] then sectors A d = sectors A (hw s) else requested A (bufs s (hd xs)) (hw s) d)"
proof -
  let ?s = "s\<lparr>held := {LIde}, idequeue := b_qnext (bufs s b)\<rparr>"
  have a: "active A (bufs ?s b) (hw ?s)" and i: "idequeue s = Some b" and qn: "qpath (\<lambda>i. b_qnext (bufs s i)) (b_qnext (bufs s b)) xs"
    using q by (auto simp: ide_ok_def)
  obtain d x where t: "(if b_flags (bufs ?s b) AND B_DIRTY = 0 then
           bindK (idewait P True ?s) (\<lambda>r s.
           if r \<ge> 0 then
             let (ws, d) = insl P 0x1f0 (BSIZE div 4) (hw s)
             in Ret () (upd_buf b (b_data_update (put_words ws)) (s\<lparr>hw := d\<rparr>))
           else Ret () s)
         else Ret () ?s) = Ret () (upd_buf b (b_data_update (\<lambda>_. x)) (?s\<lparr>hw := d\<rparr>))"
    "sectors A d = sectors A (hw s)" "block_words x = sectors A (hw s) (unit_of (bufs s b)) (unat (b_blockno (bufs s b)))"
    using ideintr_transfer [OF D a] by auto
  let ?t = "s\<lparr>held := {LIde}, idequeue := b_qnext (bufs s b), bufs := (bufs s)(b := completed (bufs s b) x), hw := d,
        ptable := wake_all (ChBuf b) (ptable s)\<rparr>"
  have "wakeup (ChBuf b) (upd_buf b (b_flags_update (\<lambda>f. f AND NOT B_DIRTY)) (upd_buf b (b_flags_update (\<lambda>f. f OR B_VALID))
      (upd_buf b (b_data_update (\<lambda>_. x)) (?s\<lparr>hw := d\<rparr>)))) = Ret () ?t"
    by (subst wakeup_eq) (simp_all add: upd_buf_def completed_eq)
  then have eq: "ideintr_pio P s = bindK (if b_qnext (bufs s b) \<noteq> None then idestart P (b_qnext (bufs s b)) ?t else Ret () ?t) (\<lambda>_ s. release LIde s)"
    using t(1) i h by (simp add: ideintr_pio_def del: upd_buf_upd)
  show ?thesis
  proof (cases xs)
    case Nil
    then have "b_qnext (bufs s b) = None" using qn by simp
    then show ?thesis using eq t(2,3) Nil h by (intro exI [of _ d] exI [of _ x]) (simp add: release_def)
  next
    case (Cons c ys)
    then have c: "b_qnext (bufs s b) = Some c" "c \<noteq> b" "b_blockno (bufs ?t c) < FSSIZE" using qn q by (auto simp: ide_ok_def)
    obtain e where e: "idestart P (Some c) ?t = Ret () (?t\<lparr>hw := e\<rparr>)" "requested A (bufs ?t c) (hw ?t) e"
      using idestart_ok [OF D c(3)] by blast
    have "requested A (bufs s c) (hw s) e" using e(2) c(2) requested_cong [OF t(2)] by simp
    then show ?thesis using eq e(1) t(3) Cons c(1) h by (intro exI [of _ e] exI [of _ x]) (simp add: release_def)
  qed
qed

section \<open>The driver as a queue of requests\<close>

lemma flag_bits: "bit B_VALID n \<longleftrightarrow> n = 1" "bit B_DIRTY n \<longleftrightarrow> n = 2"
proof -
  have v: "B_VALID = 2 ^ 1" "B_DIRTY = 2 ^ 2" by (simp_all add: B_VALID_def B_DIRTY_def)
  show "bit B_VALID n \<longleftrightarrow> n = 1" "bit B_DIRTY n \<longleftrightarrow> n = 2" unfolding v bit_exp_iff by auto
qed

lemma valid_flags: "((f OR B_VALID) AND NOT B_DIRTY) AND (B_VALID OR B_DIRTY) = B_VALID"
  by (rule bit_word_eqI) (auto simp: flag_bits bit_and_iff bit_or_iff bit_not_iff)

lemma done_flags:
  "(f OR B_VALID) AND NOT B_DIRTY = (f AND NOT B_DIRTY) OR B_VALID"
  "f AND B_DIRTY = 0 \<Longrightarrow> (f OR B_VALID) AND NOT B_DIRTY = f OR B_VALID"
proof -
  show e: "(f OR B_VALID) AND NOT B_DIRTY = (f AND NOT B_DIRTY) OR B_VALID"
    by (rule bit_word_eqI) (auto simp: flag_bits bit_and_iff bit_or_iff bit_not_iff)
  assume a: "f AND B_DIRTY = 0"
  have "f AND NOT B_DIRTY = f"
  proof (rule bit_word_eqI)
    fix n
    have "\<not> bit (f AND B_DIRTY) n" unfolding a by simp
    then show "n < LENGTH(32) \<Longrightarrow> bit (f AND NOT B_DIRTY) n = bit f n" by (auto simp: bit_and_iff bit_not_iff)
  qed
  then show "(f OR B_VALID) AND NOT B_DIRTY = f OR B_VALID" unfolding e by simp
qed

lemma ide_ok_enqueued:
  assumes q: "ide_ok A s xs" "b \<notin> set xs" "may_request s b" and e: "if xs = [] then requested A (bufs s b) (hw s) e else e = hw s"
    and t: "bufs t = bufs (enqueued b xs s)" "idequeue t = idequeue (enqueued b xs s)" "hw t = e"
  shows "ide_ok A t (xs @ [b])"
proof -
  note S = enqueued_sel [where s = s]
  have d: "distinct (xs @ [b])" using q by (simp add: ide_ok_def)
  have "qpath (\<lambda>i. b_qnext (bufs s i)) (idequeue s) xs" using q(1) by (simp add: ide_ok_def)
  note Q = enqueued_queue [OF this d]
  have cong: "active A (bufs t i) d = active A (bufs s i) d" for i d by (simp add: active_def unit_of_def t S)
  have "active A (bufs t (hd (xs @ [b]))) (hw t)"
    using e q(1) requested_active [of A "bufs s b" "hw s" e] unfolding cong t(3) by (cases xs) (auto simp: ide_ok_def)
  then show ?thesis using Q d q by (auto simp: ide_ok_def may_request_def t S)
qed




section \<open>A concrete drive\<close>

record disk_state =
  ds_reg :: "u16 \<Rightarrow> u8"
  ds_cmd :: "(bool \<times> bool \<times> nat) option"
  ds_sect :: "bool \<Rightarrow> nat \<Rightarrow> nat \<Rightarrow> u32"

definition plain_ports :: "disk_state ports" where
  "plain_ports = \<lparr>inb = (\<lambda>p d. (0x40, d)),
     outb = (\<lambda>p v d. if p = 0x1f7 then d\<lparr>ds_cmd := Some (v = IDE_CMD_WRITE, selected (ds_reg d), lba (ds_reg d))\<rparr>
       else d\<lparr>ds_reg := (ds_reg d)(p := v)\<rparr>),
     insl = (\<lambda>p n d. (case ds_cmd d of Some (False, k, m) \<Rightarrow> map (ds_sect d k m) [0..<n] | _ \<Rightarrow> [], d)),
     outsl = (\<lambda>p ws d. case ds_cmd d of
       Some (True, k, m) \<Rightarrow> d\<lparr>ds_sect := (ds_sect d)(k := (ds_sect d k)(m := (\<lambda>i. ws ! i)))\<rparr> | _ \<Rightarrow> d)\<rparr>"

definition plain_ata :: "disk_state ata" where
  "plain_ata = \<lparr>reg = ds_reg, pending = ds_cmd, sectors = (\<lambda>d k n. map (ds_sect d k n) [0..<128])\<rparr>"

lemma plain_drive: "ata_drive plain_ports plain_ata"
proof -
  have "idepoll plain_ports d = Some (0x40, d)" for d
    by (subst idepoll.simps) (simp add: plain_ports_def IDE_BSY_def IDE_DRDY_def)
  then have "ata_polls plain_ports plain_ata" by (simp add: ata_polls_def IDE_DF_def IDE_ERR_def)
  moreover have "ata_registers plain_ports plain_ata"
    by (auto simp: ata_registers_def task_file_def plain_ports_def plain_ata_def)
  moreover have "ata_commands plain_ports plain_ata"
    by (simp add: ata_commands_def plain_ports_def plain_ata_def IDE_CMD_READ_def IDE_CMD_WRITE_def)
  moreover have "ata_data plain_ports plain_ata"
    by (auto simp: ata_data_def plain_ports_def plain_ata_def fun_eq_iff list_eq_iff_nth_eq)
  ultimately show ?thesis by (simp add: ata_drive_def)
qed

text \<open>A process that holds buffer 0, which has a block to write; and a read of sector 5 under way.\<close>

definition demo_buf :: buf where
  "demo_buf = \<lparr>b_flags = B_DIRTY, b_dev = 1, b_blockno = 5, b_refcnt = 1, b_prev = 0, b_next = 0, b_qnext = None, b_data = (\<lambda>_. 7)\<rparr>"

definition ide_idle :: "disk_state idest" where
  "ide_idle = pst.extend (boot_pst\<lparr>ptable := (\<lambda>_. no_proc)(0 := no_proc\<lparr>p_state := RUNNING, p_pid := 1\<rparr>), cur := Some 0\<rparr>)
     \<lparr>sleeplocks = (\<lambda>_. \<lparr>sl_locked = 1, sl_pid = 1\<rparr>), bufs = (\<lambda>_. demo_buf), disk = (\<lambda>_ _. 0), disksize = 1000, dhist = [],
      idequeue = None, havedisk1 = True, hw = \<lparr>ds_reg = (\<lambda>_. 0), ds_cmd = None, ds_sect = (\<lambda>_ _ _. 0)\<rparr>\<rparr>"

definition ide_reading :: "disk_state idest" where
  "ide_reading = ide_idle\<lparr>bufs := (\<lambda>_. demo_buf\<lparr>b_flags := 0\<rparr>), idequeue := Some 0,
     hw := \<lparr>ds_reg = (\<lambda>_. 0), ds_cmd = Some (False, True, 5), ds_sect = (\<lambda>_ n _. of_nat n)\<rparr>\<rparr>"

lemma ide_idle_sel [simp]:
  "held ide_idle = {}" "cur ide_idle = Some 0" "bufs ide_idle = (\<lambda>_. demo_buf)" "idequeue ide_idle = None" "havedisk1 ide_idle"
  "sleeplocks ide_idle = (\<lambda>_. \<lparr>sl_locked = 1, sl_pid = 1\<rparr>)" "disk ide_idle = (\<lambda>_ _. 0)" "disksize ide_idle = 1000"
  "ptable ide_idle 0 = no_proc\<lparr>p_state := RUNNING, p_pid := 1\<rparr>" "hw ide_idle = \<lparr>ds_reg = (\<lambda>_. 0), ds_cmd = None, ds_sect = (\<lambda>_ _ _. 0)\<rparr>"
  by (simp_all add: ide_idle_def pst.defs boot_pst_def)

lemma ide_idle_ok: "ide_ok plain_ata ide_idle []" "may_request ide_idle 0"
  by (simp_all add: ide_ok_def may_request_def owned_sleep_def demo_buf_def FSSIZE_def NBUF_def B_VALID_def B_DIRTY_def)




text \<open>A read that the drive reports as failed: the driver marks the buffer valid all the same.\<close>

lemma ideintr_read_error:
  assumes "idequeue s = Some b" "b_qnext (bufs s b) = None" "b_flags (bufs s b) AND B_DIRTY = 0" "held s = {}"
    and "idepoll P (hw s) = Some (r, d)" "r AND (IDE_DF OR IDE_ERR) \<noteq> 0"
  shows "\<exists>t. ideintr_pio P s = Ret () t \<and> b_flags (bufs t b) AND (B_VALID OR B_DIRTY) = B_VALID \<and> b_data (bufs t b) = b_data (bufs s b)"
proof -
  have [simp]: "idequeue (upd_buf b f u) = idequeue u" for f and u :: "('a, 'b) idest_scheme" by (simp add: upd_buf_def)
  show ?thesis using assms by (auto simp: ideintr_pio_def idewait_def wakeup_eq release_def valid_flags Let_def)
qed

end
