(* ===== verification/Xv6_Mp.thy ===== *)
theory Xv6_Mp
  imports Xv6_Ide Xv6_Log_Inv
begin

unbundle bit_operations_syntax

text \<open>
  Multiprocessor detection (src/mp.c, src/mp.h): the search for the MP floating pointer structure that
  the firmware left in low memory, the check of the configuration table, and the walk over its entries
  that fills \<open>cpus\<close>, \<open>ncpu\<close>, \<open>ioapicid\<close> and \<open>lapic\<close>. The memory that the firmware filled is an argument, a
  byte array indexed by virtual address. A pointer is a 32-bit word, so that sums of addresses wrap.
\<close>

section \<open>The tables\<close>

definition NCPU :: nat where "NCPU = 8"
definition MP_SIZE :: nat where "MP_SIZE = 16"
definition MPCONF_SIZE :: nat where "MPCONF_SIZE = 44"
definition MPPROC_SIZE :: nat where "MPPROC_SIZE = 20"
definition MPIOAPIC_SIZE :: nat where "MPIOAPIC_SIZE = 8"
definition MPPROC :: u8 where "MPPROC = 0"
definition MPBUS :: u8 where "MPBUS = 1"
definition MPIOAPIC :: u8 where "MPIOAPIC = 2"
definition MPIOINTR :: u8 where "MPIOINTR = 3"
definition MPLINTR :: u8 where "MPLINTR = 4"

text \<open>Fields of the structures, by their offsets.\<close>

definition byte_at :: "bytes \<Rightarrow> u32 \<Rightarrow> u8" where "byte_at m a = m (unat a)"
definition mp_physaddr :: "bytes \<Rightarrow> u32 \<Rightarrow> u32" where "mp_physaddr m p = get32 m (unat p + 4)"
definition mp_imcrp :: "bytes \<Rightarrow> u32 \<Rightarrow> u8" where "mp_imcrp m p = byte_at m (p + 12)"
definition mpconf_length :: "bytes \<Rightarrow> u32 \<Rightarrow> u16" where "mpconf_length m c = get16 m (unat c + 4)"
definition mpconf_version :: "bytes \<Rightarrow> u32 \<Rightarrow> u8" where "mpconf_version m c = byte_at m (c + 6)"
definition mpconf_lapicaddr :: "bytes \<Rightarrow> u32 \<Rightarrow> u32" where "mpconf_lapicaddr m c = get32 m (unat c + 36)"

definition mp_signature :: "bytes \<Rightarrow> u32 \<Rightarrow> string \<Rightarrow> bool" where
  "mp_signature m p sig \<longleftrightarrow> map (\<lambda>i. byte_at m (p + of_nat i)) [0..<length sig] = map of_char sig"

definition mp_sum :: "bytes \<Rightarrow> u32 \<Rightarrow> nat \<Rightarrow> u8" where
  "mp_sum m addr len = of_int (for_range 0 len (\<lambda>i sum. sum + uint (byte_at m (addr + of_nat i))) 0)"

section \<open>The search\<close>

text \<open>The loop of \<open>mpsearch1\<close>, with at most \<open>k\<close> rounds left.\<close>

fun mpsearch1_loop :: "nat \<Rightarrow> bytes \<Rightarrow> u32 \<Rightarrow> u32 \<Rightarrow> u32 option" where
  "mpsearch1_loop 0 m p e = None"
| "mpsearch1_loop (Suc k) m p e =
     (if p < e then
        if mp_signature m p ''_MP_'' \<and> mp_sum m p MP_SIZE = 0 then Some p
        else mpsearch1_loop k m (p + of_nat MP_SIZE) e
      else None)"

definition mpsearch1 :: "bytes \<Rightarrow> u32 \<Rightarrow> nat \<Rightarrow> u32 option" where
  "mpsearch1 m a len =
     (let addr = a + KERNBASE
      in mpsearch1_loop (len div MP_SIZE + 1) m addr (addr + of_nat len))"

definition mpsearch :: "bytes \<Rightarrow> u32 option" where
  "mpsearch m =
     (let bda = 0x400 + KERNBASE;
          b = (\<lambda>i. ucast (byte_at m (bda + i)) :: u32);
          p = push_bit 4 (push_bit 8 (b 0x0f) OR b 0x0e);
          r = (if p \<noteq> 0 then mpsearch1 m p 1024
               else mpsearch1 m ((push_bit 8 (b 0x14) OR b 0x13) * 1024 - 1024) 1024)
      in case r of Some mp \<Rightarrow> Some mp | None \<Rightarrow> mpsearch1 m 0xF0000 0x10000)"

text \<open>The configuration table, and the floating pointer that leads to it.\<close>

definition mpconfig :: "bytes \<Rightarrow> (u32 \<times> u32) option" where
  "mpconfig m =
     (case mpsearch m of
        None \<Rightarrow> None
      | Some mp \<Rightarrow>
          if mp_physaddr m mp = 0 then None
          else
            let conf = mp_physaddr m mp + KERNBASE
            in if \<not> mp_signature m conf ''PCMP'' then None
               else if mpconf_version m conf \<noteq> 1 \<and> mpconf_version m conf \<noteq> 4 then None
               else if mp_sum m conf (unat (mpconf_length m conf)) \<noteq> 0 then None
               else Some (mp, conf))"

section \<open>The entries\<close>

record 'd mpst =
  mp_cpus :: "nat \<Rightarrow> u8"
  mp_ncpu :: nat
  mp_ioapicid :: u8
  mp_lapic :: u32
  mp_hw :: 'd

text \<open>
  The loop of \<open>mpinit\<close>. An entry of unknown type leaves the \<open>switch\<close> with \<open>ismp = 0\<close> but not the loop, and
  \<open>p\<close> stays where it is. The loop carries fuel.
\<close>

fun mpinit_loop :: "nat \<Rightarrow> bytes \<Rightarrow> u32 \<Rightarrow> u32 \<Rightarrow> bool \<Rightarrow> 'd mpst \<Rightarrow> ('d mpst, bool) outcome" where
  "mpinit_loop 0 m p e ismp s = Diverge"
| "mpinit_loop (Suc fuel) m p e ismp s =
     (if p < e then
        if byte_at m p = MPPROC then
          mpinit_loop fuel m (p + of_nat MPPROC_SIZE) e ismp
            (if mp_ncpu s < NCPU
             then s\<lparr>mp_cpus := (mp_cpus s)(mp_ncpu s := byte_at m (p + 1)), mp_ncpu := mp_ncpu s + 1\<rparr> else s)
        else if byte_at m p = MPIOAPIC then
          mpinit_loop fuel m (p + of_nat MPIOAPIC_SIZE) e ismp (s\<lparr>mp_ioapicid := byte_at m (p + 1)\<rparr>)
        else if byte_at m p = MPBUS \<or> byte_at m p = MPIOINTR \<or> byte_at m p = MPLINTR then
          mpinit_loop fuel m (p + 8) e ismp s
        else mpinit_loop fuel m p e False s
      else Ret ismp s)"

definition mpinit :: "'d ports \<Rightarrow> bytes \<Rightarrow> 'd mpst \<Rightarrow> ('d mpst, unit) outcome" where
  "mpinit P m s =
     (case mpconfig m of
        None \<Rightarrow> Panic ''Expect to run on an SMP''
      | Some (mp, conf) \<Rightarrow>
          bindK (mpinit_loop (unat (mpconf_length m conf) + 1) m (conf + of_nat MPCONF_SIZE)
              (conf + ucast (mpconf_length m conf)) True (s\<lparr>mp_lapic := mpconf_lapicaddr m conf\<rparr>)) (\<lambda>ismp s.
          if \<not> ismp then Panic ''Didn't find a suitable machine''
          else if mp_imcrp m mp \<noteq> 0 then
            let d = outb P 0x22 0x70 (mp_hw s);
                (r, d) = inb P 0x23 d
            in Ret () (s\<lparr>mp_hw := outb P 0x23 (r OR 1) d\<rparr>)
          else Ret () s))"

section \<open>What the walk finds\<close>

datatype mp_entry = EProc u8 | EIoapic u8 | EOther

primrec entry_size :: "mp_entry \<Rightarrow> nat" where
  "entry_size (EProc i) = 20"
| "entry_size (EIoapic i) = 8"
| "entry_size EOther = 8"

primrec entry_at :: "bytes \<Rightarrow> u32 \<Rightarrow> mp_entry \<Rightarrow> bool" where
  "entry_at m p (EProc i) \<longleftrightarrow> byte_at m p = MPPROC \<and> byte_at m (p + 1) = i"
| "entry_at m p (EIoapic i) \<longleftrightarrow> byte_at m p = MPIOAPIC \<and> byte_at m (p + 1) = i"
| "entry_at m p EOther \<longleftrightarrow> byte_at m p \<in> {MPBUS, MPIOINTR, MPLINTR}"

text \<open>The entries \<open>es\<close> lie in memory from \<open>p\<close> to \<open>q\<close>.\<close>

primrec mp_table :: "bytes \<Rightarrow> u32 \<Rightarrow> mp_entry list \<Rightarrow> u32 \<Rightarrow> bool" where
  "mp_table m p [] q \<longleftrightarrow> p = q"
| "mp_table m p (x # xs) q \<longleftrightarrow> entry_at m p x \<and> p + of_nat (entry_size x) \<le> q \<and> p < p + of_nat (entry_size x)
     \<and> mp_table m (p + of_nat (entry_size x)) xs q"

definition proc_ids :: "mp_entry list \<Rightarrow> u8 list" where
  "proc_ids xs = concat (map (\<lambda>x. case x of EProc i \<Rightarrow> [i] | _ \<Rightarrow> []) xs)"

definition ioapic_ids :: "mp_entry list \<Rightarrow> u8 list" where
  "ioapic_ids xs = concat (map (\<lambda>x. case x of EIoapic i \<Rightarrow> [i] | _ \<Rightarrow> []) xs)"

definition mp_effect :: "mp_entry \<Rightarrow> 'd mpst \<Rightarrow> 'd mpst" where
  "mp_effect x s =
     (case x of
        EProc i \<Rightarrow> if mp_ncpu s < NCPU then s\<lparr>mp_cpus := (mp_cpus s)(mp_ncpu s := i), mp_ncpu := mp_ncpu s + 1\<rparr> else s
      | EIoapic i \<Rightarrow> s\<lparr>mp_ioapicid := i\<rparr>
      | EOther \<Rightarrow> s)"

lemmas mp_consts = MPPROC_def MPBUS_def MPIOAPIC_def MPIOINTR_def MPLINTR_def MPPROC_SIZE_def MPIOAPIC_SIZE_def

lemma mp_table_le: "mp_table m p xs q \<Longrightarrow> p \<le> q"
  by (cases xs) (auto dest: less_le_trans)

lemma mpinit_loop_step:
  assumes "entry_at m p x" "p < e"
  shows "mpinit_loop (Suc fuel) m p e ismp s = mpinit_loop fuel m (p + of_nat (entry_size x)) e ismp (mp_effect x s)"
  using assms by (cases x) (auto simp: mp_effect_def mp_consts)

lemma mpinit_loop_entries:
  assumes "mp_table m p xs q" "q \<le> e"
  shows "mpinit_loop (fuel + length xs) m p e ismp s = mpinit_loop fuel m q e ismp (fold mp_effect xs s)"
  using assms
proof (induction xs arbitrary: p s)
  case (Cons x xs)
  have "p < e" using Cons.prems by (auto dest: less_le_trans)
  have "mpinit_loop (fuel + length (x # xs)) m p e ismp s = mpinit_loop (Suc (fuel + length xs)) m p e ismp s" by (simp del: mpinit_loop.simps)
  also have "\<dots> = mpinit_loop (fuel + length xs) m (p + of_nat (entry_size x)) e ismp (mp_effect x s)"
    by (rule mpinit_loop_step) (use Cons.prems \<open>p < e\<close> in simp_all)
  also have "\<dots> = mpinit_loop fuel m q e ismp (fold mp_effect xs (mp_effect x s))" using Cons by simp
  finally show ?case by (simp only: fold_simps)
qed simp

lemma mpinit_loop_unknown:
  assumes "p < e" "byte_at m p \<notin> {MPPROC, MPBUS, MPIOAPIC, MPIOINTR, MPLINTR}"
  shows "mpinit_loop fuel m p e ismp s = Diverge"
  using assms by (induction fuel arbitrary: ismp) auto

lemma mp_effects:
  "mp_lapic (fold mp_effect xs s) = mp_lapic s" "mp_hw (fold mp_effect xs s) = mp_hw s"
  "mp_ioapicid (fold mp_effect xs s) = last (mp_ioapicid s # ioapic_ids xs)"
  by (induction xs arbitrary: s) (auto simp: mp_effect_def ioapic_ids_def split: mp_entry.splits)

definition cpu_ids :: "'d mpst \<Rightarrow> u8 list" where
  "cpu_ids s = map (mp_cpus s) [0..<mp_ncpu s]"

lemma take_take_append: "take n (take n xs @ ys) = take n (xs @ ys)"
  by (cases "n \<le> length xs") simp_all

lemma mp_effect_cpus: "mp_ncpu s \<le> NCPU \<Longrightarrow> cpu_ids (mp_effect x s) = take NCPU (cpu_ids s @ proc_ids [x]) \<and> mp_ncpu (mp_effect x s) \<le> NCPU"
  by (cases x) (auto simp: mp_effect_def cpu_ids_def proc_ids_def)

lemma mp_effects_cpus:
  "mp_ncpu s \<le> NCPU \<Longrightarrow> cpu_ids (fold mp_effect xs s) = take NCPU (cpu_ids s @ proc_ids xs)"
proof (induction xs arbitrary: s)
  case Nil
  then show ?case by (simp add: proc_ids_def cpu_ids_def)
next
  case (Cons x xs)
  have p: "proc_ids (x # xs) = proc_ids [x] @ proc_ids xs" by (simp add: proc_ids_def)
  note E = mp_effect_cpus [OF Cons.prems, of x]
  have "cpu_ids (fold mp_effect (x # xs) s) = take NCPU (cpu_ids (mp_effect x s) @ proc_ids xs)" using Cons.IH [of "mp_effect x s"] E by simp
  also have "\<dots> = take NCPU (cpu_ids s @ proc_ids (x # xs))" unfolding conjunct1 [OF E] p take_take_append append_assoc ..
  finally show ?case .
qed

lemma unat_plus_grow:
  assumes "p < p + of_nat n" "n \<le> 20"
  shows "unat (p + of_nat n :: u32) = unat p + n"
proof -
  have n: "unat (of_nat n :: u32) = n" using assms(2) by (intro unat_of_nat32) simp
  have u: "unat (p + of_nat n) = (unat p + n) mod 2 ^ 32" using n by (simp add: unat_word_ariths)
  have p: "unat p < 2 ^ 32" using unat_u32 [of p] by simp
  show ?thesis
  proof (cases "unat p + n < 2 ^ 32")
    case True
    then show ?thesis unfolding u by (rule mod_less)
  next
    case False
    then have "(unat p + n) mod 2 ^ 32 = unat p + n - 2 ^ 32" using p assms(2) by (simp add: mod_if)
    then have "unat (p + of_nat n) < unat p" unfolding u using p assms(2) False by simp
    then show ?thesis using assms(1) by (simp only: word_less_nat_alt)
  qed
qed

lemma mp_table_length: "mp_table m p xs q \<Longrightarrow> unat p + 8 * length xs \<le> unat q"
proof (induction xs arbitrary: p)
  case (Cons x xs)
  have x: "8 \<le> entry_size x" "entry_size x \<le> 20" by (cases x; simp)+
  have "p < p + of_nat (entry_size x)" using Cons.prems by simp
  then have "unat (p + of_nat (entry_size x)) = unat p + entry_size x"
    by (rule unat_plus_grow) (use x in simp_all)
  then show ?case using Cons.IH [of "p + of_nat (entry_size x)"] Cons.prems x(1) by simp
qed simp

text \<open>C36. Detection of the processors: for a valid configuration table whose entries are of known types, \<open>mpinit\<close>
  ends with the APIC ids of the first \<open>NCPU\<close> processor entries in \<open>cpus\<close>, in the order of the table, with the id of the last I/O APIC, and with the address of the local APIC. If the table has an
  entry of another type, \<open>mpinit\<close> never returns: it does not reach its panic.\<close>

theorem mpinit_entries:
  fixes s :: "'d mpst"
  assumes "mpconfig m = Some (mp, conf)" "mp_ncpu s = 0" "mp_table m (conf + of_nat MPCONF_SIZE) es q"
    and e: "e = conf + ucast (mpconf_length m conf)" "q \<le> e" "unat conf + unat (mpconf_length m conf) < 2 ^ 32"
      "MPCONF_SIZE \<le> unat (mpconf_length m conf)"
  shows "(q = e \<longrightarrow> returns (mpinit P m s) (\<lambda>_ t. cpu_ids t = take NCPU (proc_ids es) \<and> mp_ioapicid t = last (mp_ioapicid s # ioapic_ids es)
      \<and> mp_lapic t = mpconf_lapicaddr m conf))
    \<and> (q < e \<and> byte_at m q \<notin> {MPPROC, MPBUS, MPIOAPIC, MPIOINTR, MPLINTR} \<longrightarrow> mpinit P m s = Diverge)"
proof -
  let ?n = "unat (mpconf_length m conf)" and ?p = "conf + of_nat MPCONF_SIZE" and ?s = "s\<lparr>mp_lapic := mpconf_lapicaddr m conf\<rparr>"
  let ?t = "fold mp_effect es ?s"
  have ue: "unat e = unat conf + ?n"
    unfolding e(1) using e(3) by (simp add: unat_word_ariths unsigned_ucast_eq take_bit_nat_eq_self)
  have "length es \<le> ?n"
  proof -
    have "unat ?p + 8 * length es \<le> unat e" using mp_table_length [OF assms(3)] e(2) by (simp add: word_le_nat_alt)
    moreover have "unat ?p = unat conf + 44"
      using e(3,4) by (simp add: unat_word_ariths MPCONF_SIZE_def)
    ultimately show ?thesis using ue by simp
  qed
  then obtain f where f: "?n + 1 = Suc f + length es" by (metis Suc_eq_plus1 le_Suc_ex add_Suc_right add.commute)
  have loop: "mpinit_loop (?n + 1) m ?p e True ?s = mpinit_loop (Suc f) m q e True ?t"
    unfolding f by (rule mpinit_loop_entries [OF assms(3) e(2)])
  have eq: "mpinit P m s = bindK (mpinit_loop (?n + 1) m ?p e True ?s) (\<lambda>ismp s.
          if \<not> ismp then Panic ''Didn't find a suitable machine''
          else if mp_imcrp m mp \<noteq> 0 then
            let d = outb P 0x22 0x70 (mp_hw s);
                (r, d) = inb P 0x23 d
            in Ret () (s\<lparr>mp_hw := outb P 0x23 (r OR 1) d\<rparr>)
          else Ret () s)"
    using assms(1) by (simp add: mpinit_def e(1) del: mpinit_loop.simps)
  have C: "cpu_ids ?t = take NCPU (proc_ids es)" using mp_effects_cpus [of ?s es] assms(2) by (simp add: cpu_ids_def)
  have H: "cpu_ids (u\<lparr>mp_hw := d\<rparr>) = cpu_ids u" for u :: "'d mpst" and d by (simp add: cpu_ids_def)
  show ?thesis
  proof (intro conjI impI)
    assume "q = e"
    then have "mpinit_loop (?n + 1) m ?p e True ?s = Ret True ?t" unfolding loop by simp
    then show "returns (mpinit P m s) (\<lambda>_ t. cpu_ids t = take NCPU (proc_ids es) \<and> mp_ioapicid t = last (mp_ioapicid s # ioapic_ids es)
      \<and> mp_lapic t = mpconf_lapicaddr m conf)"
      unfolding eq using C by (simp add: mp_effects Let_def H split: prod.splits)
  next
    assume "q < e \<and> byte_at m q \<notin> {MPPROC, MPBUS, MPIOAPIC, MPIOINTR, MPLINTR}"
    then have "mpinit_loop (Suc f) m q e True ?t = Diverge" by (intro mpinit_loop_unknown) auto
    then show "mpinit P m s = Diverge" unfolding eq loop by (simp only: bindK.simps)
  qed
qed

text \<open>A machine with one processor, whose APIC id is 3: the tables that its firmware left in memory.\<close>

definition fp_bytes :: "u8 list" where
  "fp_bytes = [0x5f, 0x4d, 0x50, 0x5f, 0, 0xfd, 0x09, 0, 1, 4, 154, 0, 0, 0, 0, 0]"

definition conf_bytes :: "u8 list" where
  "conf_bytes = [0x50, 0x43, 0x4d, 0x50, 80, 0, 4, 145] @ replicate 28 0 @ [0, 0, 0xe0, 0xfe, 0, 0, 0, 0]
     @ [0, 3] @ replicate 18 0 @ [2, 7, 0, 0, 0, 0, 0, 0] @ [1, 0, 0, 0, 0, 0, 0, 0]"

definition mp_mem :: bytes where
  "mp_mem = overlay 0x8009fd00 conf_bytes (overlay 0x8009fc00 fp_bytes (overlay 0x8000040e [0xc0, 0x9f] (\<lambda>_. 0)))"

lemma mp_len: "length fp_bytes = 16" "length conf_bytes = 80"
  by (simp_all add: fp_bytes_def conf_bytes_def)

lemma mp_mem_low: "byte_at mp_mem 0x8000040e = 0xc0" "byte_at mp_mem 0x8000040f = 0x9f"
  by (simp_all add: byte_at_def mp_mem_def overlay_def fp_bytes_def conf_bytes_def)

lemma mp_mem_fp: "i < 16 \<Longrightarrow> byte_at mp_mem (0x8009fc00 + of_nat i) = fp_bytes ! i"
proof -
  assume i: "i < 16"
  have "unat (0x8009fc00 + of_nat i :: u32) = 0x8009fc00 + i"
    using i by (simp add: unat_word_ariths unsigned_of_nat take_bit_nat_eq_self)
  then show ?thesis using i by (simp add: byte_at_def mp_mem_def overlay_def fp_bytes_def conf_bytes_def)
qed

lemma mp_mem_conf: "i < 80 \<Longrightarrow> byte_at mp_mem (0x8009fd00 + of_nat i) = conf_bytes ! i"
proof -
  assume i: "i < 80"
  have "unat (0x8009fd00 + of_nat i :: u32) = 0x8009fd00 + i"
    using i by (simp add: unat_word_ariths unsigned_of_nat take_bit_nat_eq_self)
  then show ?thesis using i by (simp add: byte_at_def mp_mem_def overlay_def fp_bytes_def conf_bytes_def)
qed

lemma mp_sum_list: "mp_sum m a n = of_int (sum_list (map (\<lambda>i. uint (byte_at m (a + of_nat i))) [0..<n]))"
proof -
  let ?P = "\<lambda>k x. x = sum_list (map (\<lambda>i. uint (byte_at m (a + of_nat i))) [0..<k])"
  have "?P (0 + n) (for_range 0 n (\<lambda>i sum. sum + uint (byte_at m (a + of_nat i))) 0)"
    by (rule for_range_inv [of ?P]) simp_all
  then show ?thesis by (simp add: mp_sum_def)
qed

lemma mp_mem_sums: "mp_sum mp_mem 0x8009fc00 16 = 0" "mp_sum mp_mem 0x8009fd00 80 = 0"
proof -
  have "map (\<lambda>i. uint (byte_at mp_mem (0x8009fc00 + of_nat i))) [0..<16] = map uint fp_bytes"
    by (rule nth_equalityI) (simp_all add: mp_mem_fp mp_len)
  then show "mp_sum mp_mem 0x8009fc00 16 = 0" unfolding mp_sum_list by (simp add: fp_bytes_def)
  have "map (\<lambda>i. uint (byte_at mp_mem (0x8009fd00 + of_nat i))) [0..<80] = map uint conf_bytes"
    by (rule nth_equalityI) (simp_all add: mp_mem_conf mp_len)
  then show "mp_sum mp_mem 0x8009fd00 80 = 0" unfolding mp_sum_list by (simp add: conf_bytes_def sum_list_replicate)
qed

lemmas mp_mem_eval = byte_at_def mp_mem_def overlay_def fp_bytes_def conf_bytes_def nth_append

lemma mp_mem_signatures: "mp_signature mp_mem 0x8009fc00 ''_MP_''" "mp_signature mp_mem 0x8009fd00 ''PCMP''"
  by (simp_all add: mp_signature_def of_char_def mp_mem_eval)

lemma mp_mem_fields:
  "mp_physaddr mp_mem 0x8009fc00 = 0x9fd00" "mpconf_length mp_mem 0x8009fd00 = 80" "mpconf_version mp_mem 0x8009fd00 = 4"
  "mpconf_lapicaddr mp_mem 0x8009fd00 = 0xfee00000"
  by (simp_all add: mp_physaddr_def mpconf_length_def mpconf_version_def mpconf_lapicaddr_def get32_def get16_def mp_mem_eval)

lemma mpsearch1_first:
  "mp_signature m (a + KERNBASE) ''_MP_'' \<Longrightarrow> mp_sum m (a + KERNBASE) MP_SIZE = 0 \<Longrightarrow> a + KERNBASE < a + KERNBASE + of_nat len
   \<Longrightarrow> mpsearch1 m a len = Some (a + KERNBASE)"
  by (simp add: mpsearch1_def)

lemma mp_mem_config: "mpconfig mp_mem = Some (0x8009fc00, 0x8009fd00)"
proof -
  have "mpsearch1 mp_mem 0x9fc00 1024 = Some 0x8009fc00"
    using mpsearch1_first [of mp_mem "0x9fc00" 1024] mp_mem_signatures(1) mp_mem_sums(1) by (simp add: KERNBASE_def MP_SIZE_def)
  then have "mpsearch mp_mem = Some 0x8009fc00" using mp_mem_low by (simp add: mpsearch_def KERNBASE_def Let_def)
  then show ?thesis using mp_mem_fields mp_mem_signatures(2) mp_mem_sums(2) by (simp add: mpconfig_def KERNBASE_def Let_def)
qed

theorem mpinit_entries_witness:
  "returns (mpinit plain_ports mp_mem \<lparr>mp_cpus = (\<lambda>_. 0), mp_ncpu = 0, mp_ioapicid = 0, mp_lapic = 0, mp_hw = hw ide_idle\<rparr>)
    (\<lambda>_ t. cpu_ids t = [3] \<and> mp_ioapicid t = 7 \<and> mp_lapic t = 0xfee00000)"
proof -
  let ?es = "[EProc 3, EIoapic 7, EOther]" and ?q = "0x8009fd50 :: u32"
  let ?s = "\<lparr>mp_cpus = (\<lambda>_. 0), mp_ncpu = 0, mp_ioapicid = 0, mp_lapic = 0, mp_hw = hw ide_idle\<rparr>"
  have b: "byte_at mp_mem 0x8009fd2c = 0" "byte_at mp_mem 0x8009fd2d = 3" "byte_at mp_mem 0x8009fd40 = 2" "byte_at mp_mem 0x8009fd41 = 7"
    "byte_at mp_mem 0x8009fd48 = 1"
    by (simp_all add: mp_mem_eval)
  have t: "mp_table mp_mem (0x8009fd00 + of_nat MPCONF_SIZE) ?es ?q" by (simp add: b mp_consts MPCONF_SIZE_def)
  have ids: "proc_ids ?es = [3]" "ioapic_ids ?es = [7]" by (simp_all add: proc_ids_def ioapic_ids_def)
  show ?thesis
    using mpinit_entries [where P = plain_ports and s = ?s and e = ?q, OF mp_mem_config _ t] mp_mem_fields ids
    by (auto simp: MPCONF_SIZE_def NCPU_def elim!: returns_mono)
qed

end
