(* ===== verification/Xv6_Devices.thy ===== *)
theory Xv6_Devices
  imports Xv6_Mp Xv6_Trap
begin

unbundle bit_operations_syntax

text \<open>
  The other devices of the machine: the serial port (src/uart.c), the two kinds of interrupt controllers
  (src/picirq.c, src/ioapic.c, src/lapic.c) and the clock in the CMOS (src/lapic.c). Registers that are
  mapped into memory are, like the ports, functions on a state \<open>'d\<close> of the hardware that the model takes
  as an argument; a read may change that state. A loop that waits for the hardware has the value \<open>None\<close> if
  it never ends.
\<close>

record 'd mmio =
  mm_read :: "u32 \<Rightarrow> 'd \<Rightarrow> u32 \<times> 'd"
  mm_write :: "u32 \<Rightarrow> u32 \<Rightarrow> 'd \<Rightarrow> 'd"

section \<open>The I/O APIC\<close>

definition IOAPIC :: u32 where "IOAPIC = 0xfec00000"
definition REG_ID :: u32 where "REG_ID = 0"
definition REG_VER :: u32 where "REG_VER = 1"
definition REG_TABLE :: u32 where "REG_TABLE = 0x10"
definition INT_DISABLED :: u32 where "INT_DISABLED = 0x00010000"

definition ioapicread :: "'d mmio \<Rightarrow> u32 \<Rightarrow> 'd \<Rightarrow> u32 \<times> 'd" where
  "ioapicread M rn d = mm_read M (IOAPIC + 16) (mm_write M IOAPIC rn d)"

definition ioapicwrite :: "'d mmio \<Rightarrow> u32 \<Rightarrow> u32 \<Rightarrow> 'd \<Rightarrow> 'd" where
  "ioapicwrite M rn data d = mm_write M (IOAPIC + 16) data (mm_write M IOAPIC rn d)"

definition ioapic_disable :: "'d mmio \<Rightarrow> nat \<Rightarrow> 'd \<Rightarrow> 'd" where
  "ioapic_disable M n d =
     for_range 0 n (\<lambda>i d.
       ioapicwrite M (REG_TABLE + 2 * of_nat i + 1) 0
         (ioapicwrite M (REG_TABLE + 2 * of_nat i) (INT_DISABLED OR (T_IRQ0 + of_nat i)) d)) d"

definition ioapicinit ::
  "'d mmio \<Rightarrow> u8 \<Rightarrow> ('d, 'z) idest_scheme \<Rightarrow> (('d, 'z) idest_scheme, unit) outcome" where
  "ioapicinit M ioapicid s =
     (let (v, d) = ioapicread M REG_VER (hw s);
          maxintr = drop_bit 16 v AND 0xff;
          (i, d) = ioapicread M REG_ID d;
          s = s\<lparr>hw := d\<rparr>
      in bindK (if drop_bit 24 i \<noteq> ucast ioapicid
                then cprintf (''ioapicinit: id isn'' @ [CHR 0x27] @ ''t equal to ioapicid; not a MP'' @ [CHR 0x0A]) [] s
                else Ret () s) (\<lambda>_ s.
         Ret () (s\<lparr>hw := ioapic_disable M (unat maxintr + 1) (hw s)\<rparr>)))"

definition ioapicenable :: "'d mmio \<Rightarrow> u32 \<Rightarrow> u32 \<Rightarrow> 'd \<Rightarrow> 'd" where
  "ioapicenable M irq cpunum d =
     ioapicwrite M (REG_TABLE + 2 * irq + 1) (push_bit 24 cpunum)
       (ioapicwrite M (REG_TABLE + 2 * irq) (T_IRQ0 + irq) d)"

section \<open>The interrupt controllers that are not used\<close>

definition IO_PIC1 :: u16 where "IO_PIC1 = 0x20"
definition IO_PIC2 :: u16 where "IO_PIC2 = 0xA0"

definition picinit :: "'d ports \<Rightarrow> 'd \<Rightarrow> 'd" where
  "picinit P d = outb P (IO_PIC2 + 1) 0xff (outb P (IO_PIC1 + 1) 0xff d)"

section \<open>The serial port\<close>

definition COM1 :: u16 where "COM1 = 0x3f8"

definition uart_setup :: "'d ports \<Rightarrow> 'd \<Rightarrow> 'd" where
  "uart_setup P d =
     (let d = outb P (COM1 + 2) 0 d;
          d = outb P (COM1 + 3) 0x80 d;
          d = outb P (COM1 + 0) (115200 div 9600) d;
          d = outb P (COM1 + 1) 0 d;
          d = outb P (COM1 + 3) 0x03 d;
          d = outb P (COM1 + 4) 0 d
      in outb P (COM1 + 1) 0x01 d)"

definition uartinit :: "'d ports \<Rightarrow> 'd mmio \<Rightarrow> ('d, 'z) idest_scheme \<Rightarrow> ('d, 'z) idest_scheme" where
  "uartinit P M s =
     (let (r, d) = inb P (COM1 + 5) (uart_setup P (hw s))
      in if r = 0xff then s\<lparr>hw := d\<rparr>
         else
           let (_, d) = inb P (COM1 + 2) d;
               (_, d) = inb P (COM1 + 0) d;
               s = s\<lparr>uart := True, hw := ioapicenable M IRQ_COM1 0 d\<rparr>
           in fold (\<lambda>c s. uartputc (of_char c) s) (''xv6...'' @ [CHR 0x0A]) s)"

text \<open>A character from the line, or \<open>-1\<close>.\<close>

definition uartgetc :: "'d ports \<Rightarrow> ('d, 'z) idest_scheme \<Rightarrow> int \<times> ('d, 'z) idest_scheme" where
  "uartgetc P s =
     (if \<not> uart s then (- 1, s)
      else
        let (r, d) = inb P (COM1 + 5) (hw s)
        in if r AND 0x01 = 0 then (- 1, s\<lparr>hw := d\<rparr>)
           else let (c, d) = inb P (COM1 + 0) d in (uint c, s\<lparr>hw := d\<rparr>))"

section \<open>The local APIC\<close>

text \<open>The registers, as indices into an array of words.\<close>

definition LAPIC_ID :: u32 where "LAPIC_ID = 0x0020 div 4"
definition VER :: u32 where "VER = 0x0030 div 4"
definition TPR :: u32 where "TPR = 0x0080 div 4"
definition EOI :: u32 where "EOI = 0x00B0 div 4"
definition SVR :: u32 where "SVR = 0x00F0 div 4"
definition ENABLE :: u32 where "ENABLE = 0x00000100"
definition ESR :: u32 where "ESR = 0x0280 div 4"
definition ICRLO :: u32 where "ICRLO = 0x0300 div 4"
definition INIT :: u32 where "INIT = 0x00000500"
definition STARTUP :: u32 where "STARTUP = 0x00000600"
definition DELIVS :: u32 where "DELIVS = 0x00001000"
definition ASSERT :: u32 where "ASSERT = 0x00004000"
definition LEVEL :: u32 where "LEVEL = 0x00008000"
definition BCAST :: u32 where "BCAST = 0x00080000"
definition ICRHI :: u32 where "ICRHI = 0x0310 div 4"
definition TIMER :: u32 where "TIMER = 0x0320 div 4"
definition X1 :: u32 where "X1 = 0x0000000B"
definition PERIODIC :: u32 where "PERIODIC = 0x00020000"
definition PCINT :: u32 where "PCINT = 0x0340 div 4"
definition LINT0 :: u32 where "LINT0 = 0x0350 div 4"
definition LINT1 :: u32 where "LINT1 = 0x0360 div 4"
definition LAPIC_ERROR :: u32 where "LAPIC_ERROR = 0x0370 div 4"
definition MASKED :: u32 where "MASKED = 0x00010000"
definition TICR :: u32 where "TICR = 0x0380 div 4"
definition TDCR :: u32 where "TDCR = 0x03E0 div 4"
definition IRQ_ERROR :: u32 where "IRQ_ERROR = 19"

definition lapicr :: "'d mmio \<Rightarrow> u32 \<Rightarrow> u32 \<Rightarrow> 'd \<Rightarrow> u32 \<times> 'd" where
  "lapicr M lapic index d = mm_read M (lapic + 4 * index) d"

definition lapicw :: "'d mmio \<Rightarrow> u32 \<Rightarrow> u32 \<Rightarrow> u32 \<Rightarrow> 'd \<Rightarrow> 'd" where
  "lapicw M lapic index value d = snd (lapicr M lapic LAPIC_ID (mm_write M (lapic + 4 * index) value d))"

text \<open>The wait for the delivery of an interrupt to the other processors.\<close>

partial_function (option) lapic_delivered :: "'d mmio \<Rightarrow> u32 \<Rightarrow> 'd \<Rightarrow> 'd option" where
  "lapic_delivered M lapic d =
     (let (v, d) = lapicr M lapic ICRLO d
      in if v AND DELIVS \<noteq> 0 then lapic_delivered M lapic d else Some d)"

definition lapicinit :: "'d mmio \<Rightarrow> u32 \<Rightarrow> 'd \<Rightarrow> 'd option" where
  "lapicinit M lapic d =
     (if lapic = 0 then Some d
      else
        let w = lapicw M lapic;
            d = w SVR (ENABLE OR (T_IRQ0 + IRQ_SPURIOUS)) d;
            d = w TDCR X1 d;
            d = w TIMER (PERIODIC OR (T_IRQ0 + IRQ_TIMER)) d;
            d = w TICR 10000000 d;
            d = w LINT0 MASKED d;
            d = w LINT1 MASKED d;
            (v, d) = lapicr M lapic VER d;
            d = (if drop_bit 16 v AND 0xff \<ge> 4 then w PCINT MASKED d else d);
            d = w LAPIC_ERROR (T_IRQ0 + IRQ_ERROR) d;
            d = w ESR 0 d;
            d = w ESR 0 d;
            d = w EOI 0 d;
            d = w ICRHI 0 d;
            d = w ICRLO (BCAST OR INIT OR LEVEL) d
        in map_option (w TPR 0) (lapic_delivered M lapic d))"

definition lapicid :: "'d mmio \<Rightarrow> u32 \<Rightarrow> 'd \<Rightarrow> u32 \<times> 'd" where
  "lapicid M lapic d =
     (if lapic = 0 then (0, d) else let (v, d) = lapicr M lapic LAPIC_ID d in (drop_bit 24 v, d))"

definition lapiceoi :: "'d mmio \<Rightarrow> u32 \<Rightarrow> 'd \<Rightarrow> 'd" where
  "lapiceoi M lapic d = (if lapic = 0 then d else lapicw M lapic EOI 0 d)"

definition CMOS_PORT :: u16 where "CMOS_PORT = 0x70"
definition CMOS_RETURN :: u16 where "CMOS_RETURN = 0x71"

text \<open>The start of another processor; \<open>m\<close> is the kernel's memory with the warm reset vector.\<close>

definition lapicstartap ::
  "'d ports \<Rightarrow> 'd mmio \<Rightarrow> u32 \<Rightarrow> u8 \<Rightarrow> u32 \<Rightarrow> bytes \<Rightarrow> 'd \<Rightarrow> bytes \<times> 'd" where
  "lapicstartap P M lapic aid addr m d =
     (let w = lapicw M lapic;
          d = outb P CMOS_PORT 0xF d;
          d = outb P (CMOS_PORT + 1) 0x0A d;
          wrv = unat (P2V (push_bit 4 0x40 OR 0x67));
          m = put16 m wrv 0;
          m = put16 m (wrv + 2) (ucast (drop_bit 4 addr));
          d = w ICRHI (push_bit 24 (ucast aid)) d;
          d = w ICRLO (INIT OR LEVEL OR ASSERT) d;
          d = w ICRLO (INIT OR LEVEL) d
      in (m, for_range 0 2 (\<lambda>_ d. w ICRLO (STARTUP OR drop_bit 12 addr) (w ICRHI (push_bit 24 (ucast aid)) d)) d))"

section \<open>The clock\<close>

definition CMOS_STATA :: u8 where "CMOS_STATA = 0x0a"
definition CMOS_STATB :: u8 where "CMOS_STATB = 0x0b"
definition CMOS_UIP :: u8 where "CMOS_UIP = push_bit 7 1"
definition SECS :: u8 where "SECS = 0x00"
definition MINS :: u8 where "MINS = 0x02"
definition HOURS :: u8 where "HOURS = 0x04"
definition DAY :: u8 where "DAY = 0x07"
definition MONTH :: u8 where "MONTH = 0x08"
definition YEAR :: u8 where "YEAR = 0x09"

record rtcdate =
  second :: u32
  minute :: u32
  hour :: u32
  day :: u32
  month :: u32
  year :: u32

definition cmos_read :: "'d ports \<Rightarrow> u8 \<Rightarrow> 'd \<Rightarrow> u8 \<times> 'd" where
  "cmos_read P rn d = inb P CMOS_RETURN (outb P CMOS_PORT rn d)"

definition fill_rtcdate :: "'d ports \<Rightarrow> 'd \<Rightarrow> rtcdate \<times> 'd" where
  "fill_rtcdate P d =
     (let (s, d) = cmos_read P SECS d;
          (mi, d) = cmos_read P MINS d;
          (h, d) = cmos_read P HOURS d;
          (da, d) = cmos_read P DAY d;
          (mo, d) = cmos_read P MONTH d;
          (y, d) = cmos_read P YEAR d
      in (\<lparr>second = ucast s, minute = ucast mi, hour = ucast h, day = ucast da, month = ucast mo, year = ucast y\<rparr>, d))"

text \<open>Reading until two readings agree and no update was under way between them.\<close>

partial_function (option) cmos_stable :: "'d ports \<Rightarrow> 'd \<Rightarrow> (rtcdate \<times> 'd) option" where
  "cmos_stable P d =
     (let (t1, d) = fill_rtcdate P d;
          (a, d) = cmos_read P CMOS_STATA d
      in if a AND CMOS_UIP \<noteq> 0 then cmos_stable P d
         else let (t2, d) = fill_rtcdate P d in if t1 = t2 then Some (t1, d) else cmos_stable P d)"

definition CONV :: "u32 \<Rightarrow> u32" where
  "CONV x = drop_bit 4 x * 10 + (x AND 0xf)"

definition rtc_conv :: "rtcdate \<Rightarrow> rtcdate" where
  "rtc_conv t = \<lparr>second = CONV (second t), minute = CONV (minute t), hour = CONV (hour t), day = CONV (day t),
     month = CONV (month t), year = CONV (year t)\<rparr>"

definition cmostime :: "'d ports \<Rightarrow> 'd \<Rightarrow> (rtcdate \<times> 'd) option" where
  "cmostime P d =
     (let (sb, d) = cmos_read P CMOS_STATB d;
          bcd = (sb AND push_bit 2 1 = 0)
      in case cmos_stable P d of
           None \<Rightarrow> None
         | Some (t, d) \<Rightarrow>
             let t = (if bcd then rtc_conv t else t)
             in Some (t\<lparr>year := year t + 2000\<rparr>, d))"

lemma CONV_bcd:
  assumes "a < 10" "b < 10"
  shows "CONV (of_nat (16 * a + b)) = of_nat (10 * a + b)"
proof -
  let ?x = "of_nat (16 * a + b) :: u32"
  have u: "unat ?x = 16 * a + b" using assms by (intro unat_of_nat32) simp
  have D: "unat (drop_bit 4 y) = unat y div 2 ^ 4" for y :: u32 by (subst unat_drop_bit_eq) (rule drop_bit_eq_div)
  have T: "unat (take_bit 4 y) = unat y mod 2 ^ 4" for y :: u32 by (subst unsigned_take_bit_eq) (rule take_bit_eq_mod)
  have "unat (drop_bit 4 ?x) = unat (of_nat a :: u32)" unfolding D u using assms unat_of_nat32 [of a] by simp
  then have "drop_bit 4 ?x = of_nat a" by (simp only: word_unat_eq_iff)
  moreover have "unat (take_bit 4 ?x) = unat (of_nat b :: u32)" unfolding T u using assms unat_of_nat32 [of b] by simp
  then have "?x AND 0xf = of_nat b" by (simp only: word_unat_eq_iff take_bit_eq_mask) (simp add: mask_eq_exp_minus_1)
  ultimately show ?thesis by (simp only: CONV_def) simp
qed

text \<open>
  On a clock that stands still between two updates, the time is read after one round, and in BCD mode
  each field is decoded.
\<close>

definition clock_date :: "(u8 \<Rightarrow> u8) \<Rightarrow> rtcdate" where
  "clock_date v = \<lparr>second = ucast (v SECS), minute = ucast (v MINS), hour = ucast (v HOURS), day = ucast (v DAY),
     month = ucast (v MONTH), year = ucast (v YEAR)\<rparr>"

lemma fill_rtcdate_steady:
  assumes "\<And>r d. fst (cmos_read P r d) = v r"
  shows "fst (fill_rtcdate P d) = clock_date v"
proof -
  have "\<exists>e. cmos_read P r d = (v r, e)" for r d using assms [of r d] by (metis prod.collapse)
  then obtain f where "\<And>r d. cmos_read P r d = (v r, f r d)" by metis
  then show ?thesis by (simp add: fill_rtcdate_def clock_date_def)
qed

lemma cmostime_steady:
  assumes "\<And>r d. fst (cmos_read P r d) = v r" "v CMOS_STATA AND CMOS_UIP = 0"
  shows "\<exists>e. cmostime P d = Some ((let t = (if v CMOS_STATB AND push_bit 2 1 = 0 then rtc_conv (clock_date v) else clock_date v)
    in t\<lparr>year := year t + 2000\<rparr>), e)"
proof -
  have f: "fill_rtcdate P d = (clock_date v, snd (fill_rtcdate P d))" for d
    using fill_rtcdate_steady [of P v d] assms(1) by (metis prod.collapse)
  have e: "cmos_read P r d = (v r, snd (cmos_read P r d))" for r d using assms(1) [of r d] by (metis prod.collapse)
  have "\<exists>e. cmos_stable P d = Some (clock_date v, e)" for d
  proof -
    obtain d1 where 1: "fill_rtcdate P d = (clock_date v, d1)" using f by blast
    obtain d2 where 2: "cmos_read P CMOS_STATA d1 = (v CMOS_STATA, d2)" using e by blast
    obtain d3 where 3: "fill_rtcdate P d2 = (clock_date v, d3)" using f by blast
    show ?thesis by (subst cmos_stable.simps) (simp add: 1 2 3 assms(2))
  qed
  then obtain c where c: "cmos_stable P (snd (cmos_read P CMOS_STATB d)) = Some (clock_date v, c)" by blast
  show ?thesis unfolding cmostime_def by (subst e) (simp add: c Let_def)
qed

end
