(* ===== verification/Xv6_Mkfs.thy ===== *)
theory Xv6_Mkfs
  imports Xv6_Alloc_Inv Xv6_Ide
begin

unbundle bit_operations_syntax

text \<open>
  The program that builds the file system image (src/mkfs.c). It runs on the host, so the host's system
  calls are arguments of the model: \<open>io\<close> says at which sectors the host's \<open>lseek\<close>, \<open>read\<close> and \<open>write\<close>
  succeed, and the input files are given with their contents; \<open>opened\<close> is false if there is no image argument or it cannot be opened. The image is an array of sectors with
  the number of sectors written so far. \<open>exit(n)\<close> is the outcome \<open>Swtch n\<close>; a failed \<open>assert\<close> is \<open>Panic\<close>.
  A \<open>struct dinode\<close> is an \<open>inode\<close> of the kernel's model of which only the fields on the disk are used.
\<close>

section \<open>State\<close>

definition NINODES :: nat where "NINODES = 200"
definition nbitmap :: nat where "nbitmap = unat FSSIZE div (BSIZE * 8) + 1"
definition ninodeblocks :: nat where "ninodeblocks = NINODES div IPB + 1"
definition nlog :: nat where "nlog = LOGSIZE"
definition nmeta :: nat where "nmeta = 2 + nlog + ninodeblocks + nbitmap"
definition nblocks :: nat where "nblocks = unat FSSIZE - nmeta"

record mkst =
  img :: "nat \<Rightarrow> bytes"
  img_len :: nat
  freeinode :: u32
  freeblock :: u32

text \<open>Conversion to Intel byte order, on a host of the same byte order.\<close>

definition xshort :: "u16 \<Rightarrow> u16" where
  "xshort x = get16 ((\<lambda>_. 0)(0 := ucast x, 1 := ucast (drop_bit 8 x))) 0"

definition xint :: "u32 \<Rightarrow> u32" where
  "xint x = get32 ((\<lambda>_. 0)(0 := ucast x, 1 := ucast (drop_bit 8 x), 2 := ucast (drop_bit 16 x), 3 := ucast (drop_bit 24 x))) 0"

definition mk_sb :: superblock where
  "mk_sb = \<lparr>sb_size = xint FSSIZE, sb_nblocks = xint (of_nat nblocks), sb_ninodes = xint (of_nat NINODES),
     sb_nlog = xint (of_nat nlog), sb_logstart = xint 2, sb_inodestart = xint (of_nat (2 + nlog)),
     sb_bmapstart = xint (of_nat (2 + nlog + ninodeblocks))\<rparr>"

section \<open>Sectors and inodes\<close>

definition sect_pos :: "u32 \<Rightarrow> nat" where
  "sect_pos sec = unat (sec * of_nat BSIZE) div BSIZE"

definition wsect :: "(nat \<Rightarrow> bool) \<Rightarrow> u32 \<Rightarrow> bytes \<Rightarrow> mkst \<Rightarrow> (mkst, unit) outcome" where
  "wsect io sec buf s =
     (let n = sect_pos sec
      in if \<not> io n then Swtch 1 s
         else Ret () (s\<lparr>img := (img s)(n := buf), img_len := max (img_len s) (n + 1)\<rparr>))"

definition rsect :: "(nat \<Rightarrow> bool) \<Rightarrow> u32 \<Rightarrow> mkst \<Rightarrow> (mkst, bytes) outcome" where
  "rsect io sec s =
     (let n = sect_pos sec
      in if \<not> io n \<or> n \<ge> img_len s then Swtch 1 s else Ret (img s n) s)"

definition blank_inode :: inode where
  "blank_inode = \<lparr>i_dev = 0, i_inum = 0, i_ref = 0, i_valid = False, i_type = 0, i_major = 0, i_minor = 0, i_nlink = 0,
     i_size = 0, i_addrs = (\<lambda>_. 0)\<rparr>"

definition winode :: "(nat \<Rightarrow> bool) \<Rightarrow> u32 \<Rightarrow> inode \<Rightarrow> mkst \<Rightarrow> (mkst, unit) outcome" where
  "winode io inum ip s =
     (let bn = IBLOCK inum mk_sb
      in bindK (rsect io bn s) (\<lambda>buf s.
         wsect io bn (put_dinode (dinode_off inum) ip buf) s))"

definition rinode :: "(nat \<Rightarrow> bool) \<Rightarrow> u32 \<Rightarrow> mkst \<Rightarrow> (mkst, inode) outcome" where
  "rinode io inum s =
     (let bn = IBLOCK inum mk_sb
      in bindK (rsect io bn s) (\<lambda>buf s. Ret (get_dinode (dinode_off inum) buf blank_inode) s))"

definition mk_ialloc :: "(nat \<Rightarrow> bool) \<Rightarrow> u16 \<Rightarrow> mkst \<Rightarrow> (mkst, u32) outcome" where
  "mk_ialloc io type s =
     (let inum = freeinode s; s = s\<lparr>freeinode := inum + 1\<rparr>
      in bindK (winode io inum (blank_inode\<lparr>i_type := xshort type, i_nlink := xshort 1, i_size := xint 0\<rparr>) s) (\<lambda>_ s.
         Ret inum s))"

definition mk_bitmap :: "nat \<Rightarrow> bytes" where
  "mk_bitmap used = for_range 0 used (\<lambda>i buf. buf(i div 8 := buf (i div 8) OR push_bit (i mod 8) 0x1)) (\<lambda>_. 0)"

definition mk_balloc :: "(nat \<Rightarrow> bool) \<Rightarrow> nat \<Rightarrow> mkst \<Rightarrow> (mkst, unit) outcome" where
  "mk_balloc io used s =
     (if \<not> used < BSIZE * 8 then Panic ''assert''
      else wsect io (sb_bmapstart mk_sb) (mk_bitmap used) s)"

section \<open>Appending to a file\<close>

text \<open>The block of the file that holds offset \<open>off\<close>, allocated if it does not exist.\<close>

definition iappend_block :: "(nat \<Rightarrow> bool) \<Rightarrow> nat \<Rightarrow> inode \<Rightarrow> mkst \<Rightarrow> (mkst, u32 \<times> inode) outcome" where
  "iappend_block io fbn din s =
     (if fbn < NDIRECT then
        (let (din, s) = (if xint (i_addrs din fbn) = 0
                         then (din\<lparr>i_addrs := (i_addrs din)(fbn := xint (freeblock s))\<rparr>, s\<lparr>freeblock := freeblock s + 1\<rparr>)
                         else (din, s))
         in Ret (xint (i_addrs din fbn), din) s)
      else
        let (din, s) = (if xint (i_addrs din NDIRECT) = 0
                        then (din\<lparr>i_addrs := (i_addrs din)(NDIRECT := xint (freeblock s))\<rparr>, s\<lparr>freeblock := freeblock s + 1\<rparr>)
                        else (din, s));
            k = 4 * (fbn - NDIRECT)
        in bindK (rsect io (xint (i_addrs din NDIRECT)) s) (\<lambda>indirect s.
           if get32 indirect k = 0 then
             let indirect = put32 indirect k (xint (freeblock s)); s = s\<lparr>freeblock := freeblock s + 1\<rparr>
             in bindK (wsect io (xint (i_addrs din NDIRECT)) indirect s) (\<lambda>_ s.
                Ret (xint (get32 indirect k), din) s)
           else Ret (xint (get32 indirect k), din) s))"

function iappend_loop ::
  "(nat \<Rightarrow> bool) \<Rightarrow> u8 list \<Rightarrow> u32 \<Rightarrow> inode \<Rightarrow> mkst \<Rightarrow> (mkst, u32 \<times> inode) outcome" where
  "iappend_loop io cs off din s =
     (if cs = [] then Ret (off, din) s
      else
        let fbn = unat (off div of_nat BSIZE)
        in if \<not> fbn < MAXFILE then Panic ''assert''
           else
             bindK (iappend_block io fbn din s) (\<lambda>(x, din) s.
             let n1 = min (length cs) ((fbn + 1) * BSIZE - unat off)
             in bindK (rsect io x s) (\<lambda>buf s.
                bindK (wsect io x (overlay (unat off - fbn * BSIZE) (take n1 cs) buf) s) (\<lambda>_ s.
                if n1 = 0 then Diverge else iappend_loop io (drop n1 cs) (off + of_nat n1) din s))))"
  by pat_completeness auto
termination by (relation "measure (\<lambda>(io, cs, off, din, s). length cs)") auto

declare iappend_loop.simps [simp del]

definition iappend :: "(nat \<Rightarrow> bool) \<Rightarrow> u32 \<Rightarrow> u8 list \<Rightarrow> mkst \<Rightarrow> (mkst, unit) outcome" where
  "iappend io inum cs s =
     bindK (rinode io inum s) (\<lambda>din s.
     bindK (iappend_loop io cs (xint (i_size din)) din s) (\<lambda>(off, din) s.
     winode io inum (din\<lparr>i_size := xint off\<rparr>) s))"

section \<open>The program\<close>

text \<open>A directory entry: the inode number and the name, cut or padded to \<open>DIRSIZ\<close> bytes.\<close>

definition mk_dirent :: "u32 \<Rightarrow> u8 list \<Rightarrow> u8 list" where
  "mk_dirent inum name =
     (let n = xshort (ucast inum)
      in [ucast n, ucast (drop_bit 8 n)] @ take DIRSIZ (name @ replicate DIRSIZ 0))"

fun read_chunks :: "nat \<Rightarrow> u8 list \<Rightarrow> u8 list list" where
  "read_chunks 0 cs = []"
| "read_chunks (Suc k) cs = (if cs = [] then [] else take BSIZE cs # read_chunks k (drop BSIZE cs))"

fun append_chunks :: "(nat \<Rightarrow> bool) \<Rightarrow> u32 \<Rightarrow> u8 list list \<Rightarrow> mkst \<Rightarrow> (mkst, unit) outcome" where
  "append_chunks io inum [] s = Ret () s"
| "append_chunks io inum (c # cs) s = bindK (iappend io inum c s) (\<lambda>_ s. append_chunks io inum cs s)"

text \<open>The loop over the arguments: a name and the content of the file, or \<open>None\<close> if it cannot be opened.\<close>

fun mkfs_files ::
  "(nat \<Rightarrow> bool) \<Rightarrow> u32 \<Rightarrow> (u8 list \<times> u8 list option) list \<Rightarrow> mkst \<Rightarrow> (mkst, unit) outcome" where
  "mkfs_files io rootino [] s = Ret () s"
| "mkfs_files io rootino ((name, file) # fs) s =
     (if 47 \<in> set name then Panic ''assert''
      else case file of
             None \<Rightarrow> Swtch 1 s
           | Some cs \<Rightarrow>
               let name = (if name \<noteq> [] \<and> hd name = 95 then tl name else name)
               in bindK (mk_ialloc io T_FILE s) (\<lambda>inum s.
                  bindK (iappend io rootino (mk_dirent inum name) s) (\<lambda>_ s.
                  bindK (append_chunks io inum (read_chunks (length cs) cs) s) (\<lambda>_ s.
                  mkfs_files io rootino fs s))))"

definition sb_bytes :: bytes where
  "sb_bytes =
     (let d = put32 (\<lambda>_. 0) 0 (sb_size mk_sb);
          d = put32 d 4 (sb_nblocks mk_sb);
          d = put32 d 8 (sb_ninodes mk_sb);
          d = put32 d 12 (sb_nlog mk_sb);
          d = put32 d 16 (sb_logstart mk_sb);
          d = put32 d 20 (sb_inodestart mk_sb)
      in put32 d 24 (sb_bmapstart mk_sb))"

definition mkfs_main ::
  "(nat \<Rightarrow> bool) \<Rightarrow> bool \<Rightarrow> (u8 list \<times> u8 list option) list \<Rightarrow> (mkst, unit) outcome" where
  "mkfs_main io opened fs =
     (let s = \<lparr>img = (\<lambda>_ _. 0), img_len = 0, freeinode = 1, freeblock = of_nat nmeta\<rparr>
      in if \<not> opened then Swtch 1 s
         else
           bindK (for_rangeK 0 (unat FSSIZE) (\<lambda>i s. wsect io (of_nat i) (\<lambda>_. 0) s) s) (\<lambda>_ s.
           bindK (wsect io 1 sb_bytes s) (\<lambda>_ s.
           bindK (mk_ialloc io T_DIR s) (\<lambda>rootino s.
           if rootino \<noteq> ROOTINO then Panic ''assert''
           else
             bindK (iappend io rootino (mk_dirent rootino [46]) s) (\<lambda>_ s.
             bindK (iappend io rootino (mk_dirent rootino [46, 46]) s) (\<lambda>_ s.
             bindK (mkfs_files io rootino fs s) (\<lambda>_ s.
             bindK (rinode io rootino s) (\<lambda>din s.
             let off = (xint (i_size din) div of_nat BSIZE + 1) * of_nat BSIZE
             in bindK (winode io rootino (din\<lparr>i_size := xint off\<rparr>) s) (\<lambda>_ s.
                bindK (mk_balloc io (unat (freeblock s)) s) (\<lambda>_ s.
                Swtch 0 s))))))))))"

section \<open>On-disk inodes\<close>

lemma xint_id [simp]: "xint x = x"
proof -
  have "xint x = get32 (put32 (\<lambda>_. 0) 0 x) 0" by (simp add: xint_def put32_def numeral_2_eq_2)
  then show ?thesis by simp
qed

lemma xshort_id [simp]: "xshort x = x"
  by (rule bit_word_eqI) (auto simp: xshort_def get16_def bit_simps)

lemma put_dinode_step:
  "put_dinode off ip d = for_range 0 (NDIRECT + 1) (\<lambda>i d. put32 d (off + 12 + 4 * i) (i_addrs ip i))
     (put32 (put16 (put16 (put16 (put16 d off (i_type ip)) (off + 2) (i_major ip)) (off + 4) (i_minor ip)) (off + 6) (i_nlink ip)) (off + 8) (i_size ip))"
  by (simp add: put_dinode_def Let_def)

lemma addrs_loop:
  "j < k \<Longrightarrow> get32 (for_range 0 k (\<lambda>i d. put32 d (b + 4 * i) (f i)) d) (b + 4 * j) = f j"
  "a + 2 \<le> b \<Longrightarrow> get16 (for_range 0 k (\<lambda>i d. put32 d (b + 4 * i) (f i)) d) a = get16 d a"
  "a + 4 \<le> b \<or> b + 4 * k \<le> a \<Longrightarrow> get32 (for_range 0 k (\<lambda>i d. put32 d (b + 4 * i) (f i)) d) a = get32 d a"
proof -
  let ?P = "\<lambda>n t. \<forall>j < n. get32 t (b + 4 * j) = f j"
  have "?P (0 + k) (for_range 0 k (\<lambda>i d. put32 d (b + 4 * i) (f i)) d)"
    by (rule for_range_inv [of ?P]) (auto simp: less_Suc_eq get32_put32_other)
  then show "j < k \<Longrightarrow> get32 (for_range 0 k (\<lambda>i d. put32 d (b + 4 * i) (f i)) d) (b + 4 * j) = f j" by simp
  let ?Q = "\<lambda>n t. get16 t a = get16 d a"
  assume "a + 2 \<le> b"
  then have "?Q (0 + k) (for_range 0 k (\<lambda>i d. put32 d (b + 4 * i) (f i)) d)"
    by (intro for_range_inv [of ?Q]) (auto simp: get16_def put32_def)
  then show "get16 (for_range 0 k (\<lambda>i d. put32 d (b + 4 * i) (f i)) d) a = get16 d a" .
next
  let ?R = "\<lambda>n t. get32 t a = get32 d a"
  assume "a + 4 \<le> b \<or> b + 4 * k \<le> a"
  then have "?R (0 + k) (for_range 0 k (\<lambda>i d. put32 d (b + 4 * i) (f i)) d)"
    by (intro for_range_inv [of ?R]) (auto simp: get32_put32_other)
  then show "get32 (for_range 0 k (\<lambda>i d. put32 d (b + 4 * i) (f i)) d) a = get32 d a" .
qed

lemma get16_put32_other: "a + 4 \<le> b \<or> b + 2 \<le> a \<Longrightarrow> get16 (put32 m a v) b = get16 m b"
  by (auto simp: get16_def put32_def)

lemma get32_put16_other: "a + 2 \<le> b \<or> b + 4 \<le> a \<Longrightarrow> get32 (put16 m a v) b = get32 m b"
  by (auto simp: get32_def put16_def)

text \<open>Reading back what was written, and reading another inode of the block.\<close>

lemma get_dinode_sel:
  "i_addrs (get_dinode off d ip) i = (if i < NDIRECT + 1 then get32 d (off + 12 + 4 * i) else i_addrs ip i)"
  "i_size (get_dinode off d ip) = get32 d (off + 8)" "i_type (get_dinode off d ip) = get16 d off"
  by (simp_all add: get_dinode_def)

lemma dinode_same:
  "i < NDIRECT + 1 \<Longrightarrow> i_addrs (get_dinode off (put_dinode off ip d) jp) i = i_addrs ip i"
  "i_size (get_dinode off (put_dinode off ip d) jp) = i_size ip" "i_type (get_dinode off (put_dinode off ip d) jp) = i_type ip"
proof -
  show "i_addrs (get_dinode off (put_dinode off ip d) jp) i = i_addrs ip i" if "i < NDIRECT + 1"
    unfolding get_dinode_sel put_dinode_step if_P [OF that] by (rule addrs_loop(1) [OF that])
  show "i_size (get_dinode off (put_dinode off ip d) jp) = i_size ip"
    unfolding get_dinode_sel put_dinode_step by (subst addrs_loop(3)) simp_all
  show "i_type (get_dinode off (put_dinode off ip d) jp) = i_type ip"
    unfolding get_dinode_sel put_dinode_step by (subst addrs_loop(2)) (simp_all add: get16_put32_other get16_put16_other)
qed

lemma dinode_other: "off + 64 \<le> b \<or> b + 64 \<le> off \<Longrightarrow> get_dinode b (put_dinode off ip d) jp = get_dinode b d jp"
proof -
  assume b: "off + 64 \<le> b \<or> b + 64 \<le> off"
  have w: "get16 (put_dinode off ip d) c = get16 d c" if "off + 64 \<le> c \<or> c + 2 \<le> off" for c
  proof -
    let ?Q = "\<lambda>n t. get16 t c = get16 (put32 (put16 (put16 (put16 (put16 d off (i_type ip)) (off + 2) (i_major ip)) (off + 4) (i_minor ip))
      (off + 6) (i_nlink ip)) (off + 8) (i_size ip)) c"
    have "?Q (0 + (NDIRECT + 1)) (put_dinode off ip d)" unfolding put_dinode_step
      by (rule for_range_inv [of ?Q]) (use that in \<open>auto simp: get16_put32_other NDIRECT_def\<close>)
    then show ?thesis using that by (auto simp: get16_put32_other get16_put16_other)
  qed
  have l: "get32 (put_dinode off ip d) c = get32 d c" if "off + 64 \<le> c \<or> c + 4 \<le> off" for c
    unfolding put_dinode_step using that by (subst addrs_loop(3)) (auto simp: NDIRECT_def get32_put32_other get32_put16_other)
  show ?thesis unfolding get_dinode_def using b by (auto simp: w l NDIRECT_def intro!: inode.equality)
qed

section \<open>Ownership of blocks\<close>

text \<open>
  Inode \<open>i\<close> of an image \<open>g\<close>, and the block in slot \<open>k\<close> of an inode: its direct blocks, its indirect block
  (slot 12), and the blocks that the indirect block names.
\<close>

definition ino_at :: "(nat \<Rightarrow> bytes) \<Rightarrow> nat \<Rightarrow> inode" where
  "ino_at g i = get_dinode (i mod 8 * 64) (g (32 + i div 8)) blank_inode"

definition slot :: "(nat \<Rightarrow> bytes) \<Rightarrow> inode \<Rightarrow> nat \<Rightarrow> u32" where
  "slot g ip k =
     (if k \<le> 12 then i_addrs ip k
      else if i_addrs ip 12 = 0 then 0 else get32 (g (unat (i_addrs ip 12))) (4 * (k - 13)))"

definition slots_of :: "(nat \<Rightarrow> bytes) \<Rightarrow> (nat \<Rightarrow> inode) \<Rightarrow> nat \<times> nat \<Rightarrow> u32" where
  "slots_of g D p = slot g (D (fst p)) (snd p)"

definition places :: "(nat \<times> nat) set" where
  "places = {..<208} \<times> {..<141}"

text \<open>
  The blocks between the metadata and the first free block \<open>fb\<close> are owned by one place each, no other block is
  owned, and everything from \<open>fb\<close> on is zero.
\<close>

definition owned_ok :: "(nat \<times> nat \<Rightarrow> u32) \<Rightarrow> nat \<Rightarrow> bool" where
  "owned_ok f fb \<longleftrightarrow> (\<forall>p \<in> places. f p \<noteq> 0 \<longrightarrow> 59 \<le> unat (f p) \<and> unat (f p) < fb) \<and> inj_on f {p \<in> places. f p \<noteq> 0}
     \<and> (\<forall>n \<in> {59..<fb}. \<exists>p \<in> places. f p \<noteq> 0 \<and> unat (f p) = n)"

definition mk_ok :: "(nat \<Rightarrow> bytes) \<Rightarrow> (nat \<Rightarrow> inode) \<Rightarrow> nat \<Rightarrow> bool" where
  "mk_ok g D fb \<longleftrightarrow> 59 \<le> fb \<and> fb < 2 ^ 20 \<and> g 1 = sb_bytes \<and> (\<forall>n \<ge> fb. g n = (\<lambda>_. 0)) \<and> owned_ok (slots_of g D) fb"

lemma owned_new:
  assumes "owned_ok f fb" "f p = 0" "59 \<le> fb" "fb < 2 ^ 20" "p \<in> places" "\<And>q. q \<in> places \<Longrightarrow> h q = (if q = p then of_nat fb else f q)"
  shows "owned_ok h (Suc fb)"
proof -
  have n: "unat (of_nat fb :: u32) = fb" using assms(4) by (intro unat_of_nat32) simp
  have range: "59 \<le> unat (h q) \<and> unat (h q) < Suc fb" if "q \<in> places" "h q \<noteq> 0" for q
  proof (cases "q = p")
    case True
    then show ?thesis using assms(3,6) that n by simp
  next
    case False
    then have "f q \<noteq> 0" using assms(6) that by simp
    then have "59 \<le> unat (f q) \<and> unat (f q) < fb" using assms(1) that(1) unfolding owned_ok_def by blast
    then show ?thesis using assms(6) that(1) False by simp
  qed
  have "q = r" if q: "q \<in> places" "h q \<noteq> 0" and r: "r \<in> places" "h r \<noteq> 0" and e: "h q = h r" for q r
  proof -
    have lt: "unat (f x) < fb" if "x \<in> places" "f x \<noteq> 0" for x using assms(1) that by (auto simp: owned_ok_def)
    have ne: "f x \<noteq> of_nat fb" if "x \<in> places" for x
    proof (cases "f x = 0")
      case True
      then show ?thesis using n assms(3) by auto
    next
      case False
      then show ?thesis using lt [OF that False] n by auto
    qed
    show ?thesis
    proof (cases "q = p \<or> r = p")
      case True
      then show ?thesis using e ne assms(6) q(1) r(1) by metis
    next
      case False
      then have "f q \<noteq> 0" "f r \<noteq> 0" "f q = f r" using assms(6) q r e by auto
      then show ?thesis using assms(1) q(1) r(1) unfolding owned_ok_def inj_on_def by blast
    qed
  qed
  moreover have "\<exists>q \<in> places. h q \<noteq> 0 \<and> unat (h q) = m" if m: "m \<in> {59..<Suc fb}" for m
  proof (cases "m = fb")
    case True
    have "h p = of_nat fb" "(of_nat fb :: u32) \<noteq> 0" using assms(3,5,6) n by auto
    then show ?thesis using True n assms(5) by (intro bexI [of _ p]) auto
  next
    case False
    then obtain q where q: "q \<in> places" "f q \<noteq> 0" "unat (f q) = m" using assms(1) m by (force simp: owned_ok_def)
    then have "h q = f q" using assms(2,6) by auto
    then show ?thesis using q by (intro bexI [of _ q]) auto
  qed
  ultimately show ?thesis using range unfolding owned_ok_def inj_on_def by blast
qed

lemma owned_cong:
  assumes "owned_ok f fb" "\<And>q. q \<in> places \<Longrightarrow> h q = f q"
  shows "owned_ok h fb"
proof -
  have "{p \<in> places. h p \<noteq> 0} = {p \<in> places. f p \<noteq> 0}" using assms(2) by auto
  moreover have "inj_on h {p \<in> places. f p \<noteq> 0} = inj_on f {p \<in> places. f p \<noteq> 0}" using assms(2) by (intro inj_on_cong) auto
  ultimately show ?thesis using assms by (simp add: owned_ok_def)
qed

lemma slot_zero_block: "g n = (\<lambda>_. 0) \<Longrightarrow> get32 (g n) a = 0"
  by (simp add: get32_def)

text \<open>A new block for a direct slot, or as the indirect block.\<close>

lemma alloc_addr:
  assumes ok: "mk_ok g D fb" and i: "i < 208" "k \<le> 12" "i_addrs (D i) k = 0" and b: "Suc fb < 2 ^ 20"
  shows "mk_ok g (D(i := (D i)\<lparr>i_addrs := (i_addrs (D i))(k := of_nat fb)\<rparr>)) (Suc fb)"
proof -
  let ?D = "D(i := (D i)\<lparr>i_addrs := (i_addrs (D i))(k := of_nat fb)\<rparr>)"
  have z: "g fb = (\<lambda>_. 0)" "59 \<le> fb" "fb < 2 ^ 20" using ok by (auto simp: mk_ok_def)
  have n: "unat (of_nat fb :: u32) = fb" using z(3) by (intro unat_of_nat32) simp
  have "slots_of g ?D q = (if q = (i, k) then of_nat fb else slots_of g D q)" for q
  proof (cases "fst q = i \<and> 12 < snd q \<and> k = 12")
    case True
    then show ?thesis using i(3) n z by (cases q) (auto simp: slots_of_def slot_def slot_zero_block)
  next
    case False
    then show ?thesis using i(2) by (cases q) (auto simp: slots_of_def slot_def)
  qed
  moreover have "slots_of g D (i, k) = 0" using i(2,3) by (simp add: slots_of_def slot_def)
  ultimately have "owned_ok (slots_of g ?D) (Suc fb)" using ok i owned_new [of "slots_of g D" fb "(i, k)"] by (simp add: mk_ok_def places_def)
  then show ?thesis using ok b by (simp add: mk_ok_def)
qed

lemma indirect_unique:
  assumes ok: "mk_ok g D fb" and p: "p \<in> places" "slots_of g D p \<noteq> 0" and i: "i < 208" "i_addrs (D i) 12 = slots_of g D p"
  shows "p = (i, 12)"
proof -
  have "(i, 12) \<in> places" "slots_of g D (i, 12) = slots_of g D p" using i by (auto simp: places_def slots_of_def slot_def)
  then show ?thesis using ok p unfolding mk_ok_def owned_ok_def inj_on_def by (metis (mono_tags, lifting) mem_Collect_eq)
qed

text \<open>A new block for an entry of the indirect block.\<close>

lemma alloc_entry:
  assumes ok: "mk_ok g D fb" and i: "i < 208" "j < 128" "i_addrs (D i) 12 = a" "a \<noteq> 0" "get32 (g (unat a)) (4 * j) = 0" and b: "Suc fb < 2 ^ 20"
  shows "mk_ok (g(unat a := put32 (g (unat a)) (4 * j) (of_nat fb))) D (Suc fb)"
proof -
  let ?g = "g(unat a := put32 (g (unat a)) (4 * j) (of_nat fb))"
  have a: "slots_of g D (i, 12) = a" "(i, 12) \<in> places" using i by (simp_all add: slots_of_def slot_def places_def)
  have r: "59 \<le> unat a" "unat a < fb" using ok a i(4) by (auto simp: mk_ok_def owned_ok_def)
  have "slots_of ?g D q = (if q = (i, 13 + j) then of_nat fb else slots_of g D q)" if q: "q \<in> places" for q
  proof -
    obtain i' l where q': "q = (i', l)" "i' < 208" "l < 141" using q by (auto simp: places_def)
    show ?thesis
    proof (cases "12 < l \<and> i_addrs (D i') 12 = a")
      case True
      then have "i' = i" using indirect_unique [OF ok a(2), of i'] a i(4) q'(2) by auto
      moreover have "l - 13 = j \<longleftrightarrow> l = 13 + j" using True by auto
      ultimately show ?thesis using True i q' by (auto simp: slots_of_def slot_def)
    next
      case False
      then have "q \<noteq> (i, 13 + j)" using i(3) q' by auto
      then show ?thesis using False q' by (auto simp: slots_of_def slot_def word_unat_eq_iff)
    qed
  qed
  moreover have "slots_of g D (i, 13 + j) = 0" using i by (simp add: slots_of_def slot_def)
  ultimately have "owned_ok (slots_of ?g D) (Suc fb)" using ok i owned_new [of "slots_of g D" fb "(i, 13 + j)"] by (simp add: mk_ok_def) (simp add: places_def)
  then show ?thesis using ok b r by (auto simp: mk_ok_def)
qed

text \<open>Writing the data of a block.\<close>

lemma write_data:
  assumes ok: "mk_ok g D fb" and p: "(i, k) \<in> places" "k \<noteq> 12" "slots_of g D (i, k) = x" "x \<noteq> 0"
  shows "mk_ok (g(unat x := y)) D fb" "59 \<le> unat x" "unat x < fb"
proof -
  show r: "59 \<le> unat x" "unat x < fb" using ok p by (auto simp: mk_ok_def owned_ok_def)
  have "slots_of (g(unat x := y)) D q = slots_of g D q" if q: "q \<in> places" for q
  proof -
    obtain i' l where q': "q = (i', l)" "i' < 208" using q by (auto simp: places_def)
    have "i_addrs (D i') 12 \<noteq> x" using indirect_unique [OF ok p(1) _ q'(2)] p by auto
    then show ?thesis using q' by (auto simp: slots_of_def slot_def word_unat_eq_iff)
  qed
  then have "owned_ok (slots_of (g(unat x := y)) D) fb" using ok owned_cong [of "slots_of g D" fb] by (simp add: mk_ok_def)
  then show "mk_ok (g(unat x := y)) D fb" using ok r by (auto simp: mk_ok_def)
qed

text \<open>Writing an inode back.\<close>

lemma ino_at_write:
  assumes k: "k \<le> 12"
  shows "i_addrs (ino_at (g(32 + i div 8 := put_dinode (i mod 8 * 64) ip (g (32 + i div 8)))) j) k = i_addrs (((ino_at g)(i := ip)) j) k"
proof (cases "j = i")
  case True
  then show ?thesis using k by (simp add: ino_at_def dinode_same(1) NDIRECT_def)
next
  case False
  then show ?thesis
  proof (cases "j div 8 = i div 8")
    case True
    then have "i mod 8 < j mod 8 \<or> j mod 8 < i mod 8" using False by (metis div_mod_decomp nat_neq_iff)
    then have "i mod 8 * 64 + 64 \<le> j mod 8 * 64 \<or> j mod 8 * 64 + 64 \<le> i mod 8 * 64" by auto
    then show ?thesis using True False by (simp add: ino_at_def dinode_other)
  next
    case neq: False
    then show ?thesis using False by (simp add: ino_at_def)
  qed
qed

lemma write_inode:
  assumes ok: "mk_ok g ((ino_at g)(i := ip)) fb" and i: "i < 208"
  shows "mk_ok (g(32 + i div 8 := put_dinode (i mod 8 * 64) ip (g (32 + i div 8))))
    (ino_at (g(32 + i div 8 := put_dinode (i mod 8 * 64) ip (g (32 + i div 8))))) fb"
proof -
  let ?g = "g(32 + i div 8 := put_dinode (i mod 8 * 64) ip (g (32 + i div 8)))" and ?D = "(ino_at g)(i := ip)"
  have blk: "32 + i div 8 < 59" "32 + i div 8 \<noteq> 1" using i by auto
  note a = ino_at_write [of _ g i ip]
  have "slots_of ?g (ino_at ?g) q = slots_of g ?D q" if q: "q \<in> places" for q
  proof -
    obtain j l where q': "q = (j, l)" "j < 208" "l < 141" using q by (auto simp: places_def)
    have "59 \<le> unat (i_addrs (?D j) 12)" if "i_addrs (?D j) 12 \<noteq> 0"
    proof -
      have "(j, 12) \<in> places" "slots_of g ?D (j, 12) = i_addrs (?D j) 12" using q' by (simp_all add: places_def slots_of_def slot_def)
      then show ?thesis using ok that by (metis mk_ok_def owned_ok_def)
    qed
    then have "?g (unat (i_addrs (?D j) 12)) = g (unat (i_addrs (?D j) 12))" if "i_addrs (?D j) 12 \<noteq> 0" using that blk(1) by auto
    then show ?thesis using q' a [of l j] a [of 12 j] by (simp add: slots_of_def slot_def)
  qed
  then have "owned_ok (slots_of ?g (ino_at ?g)) fb" using ok owned_cong [of "slots_of g ?D" fb] by (simp add: mk_ok_def)
  then show ?thesis using ok blk by (auto simp: mk_ok_def)
qed

section \<open>The program keeps the ownership\<close>

text \<open>
  What is shown of a part of the program: it may stop with an error message or a failed assertion; if it
  goes on, \<open>Q\<close> holds. It does not loop for ever.
\<close>

primrec safe :: "('s, 'a) outcome \<Rightarrow> ('a \<Rightarrow> 's \<Rightarrow> bool) \<Rightarrow> bool" where
  "safe (Ret x s) Q = Q x s"
| "safe (Panic m) Q = True"
| "safe (Undef m) Q = False"
| "safe (Swtch k s) Q = (k = 1)"
| "safe Diverge Q = False"

lemma safe_bind: "safe m P \<Longrightarrow> (\<And>x s. P x s \<Longrightarrow> safe (f x s) Q) \<Longrightarrow> safe (bindK m f) Q"
  by (cases m) auto

lemma safe_mono: "safe m P \<Longrightarrow> (\<And>x s. P x s \<Longrightarrow> Q x s) \<Longrightarrow> safe m Q"
  by (cases m) auto

lemma sect_pos_small: "unat x < 2 ^ 20 \<Longrightarrow> sect_pos x = unat x"
  by (simp add: sect_pos_def BSIZE_def unat_word_ariths)

lemma rsect_safe: "unat x < 2 ^ 20 \<Longrightarrow> safe (rsect io x s) (\<lambda>b t. t = s \<and> b = img s (unat x) \<and> unat x < img_len s)"
  by (auto simp: rsect_def sect_pos_small Let_def)

lemma wsect_safe:
  "unat x < img_len s \<Longrightarrow> img_len s \<le> 1000 \<Longrightarrow> safe (wsect io x y s) (\<lambda>_ t. t = s\<lparr>img := (img s)(unat x := y)\<rparr>)"
  by (auto simp: wsect_def sect_pos_small Let_def max_def intro: mkst.equality)

lemma mk_sb_eval: "sb_inodestart mk_sb = 32" "sb_bmapstart mk_sb = 58" "sb_size mk_sb = 1000"
  by (simp_all add: mk_sb_def nlog_def ninodeblocks_def NINODES_def IPB_def DINODE_SIZE_def NDIRECT_def LOGSIZE_def MAXOPBLOCKS_def BSIZE_def FSSIZE_def)

lemma inode_place:
  assumes "unat inum < 208"
  shows "unat (IBLOCK inum mk_sb) = 32 + unat inum div 8" "dinode_off inum = unat inum mod 8 * 64"
proof -
  have "unat (inum div 8) = unat inum div 8" by (simp add: unat_div)
  then show "unat (IBLOCK inum mk_sb) = 32 + unat inum div 8"
    using assms by (simp add: IBLOCK_def mk_sb_eval IPB_def DINODE_SIZE_def NDIRECT_def BSIZE_def unat_word_ariths)
  show "dinode_off inum = unat inum mod 8 * 64" by (simp add: dinode_off_def IPB_def DINODE_SIZE_def NDIRECT_def BSIZE_def)
qed

text \<open>The inodes that were not allocated yet have no blocks.\<close>

definition unused_blank :: "mkst \<Rightarrow> bool" where
  "unused_blank s \<longleftrightarrow> (\<forall>j k. unat (freeinode s) \<le> j \<and> j < 208 \<and> k \<le> 12 \<longrightarrow> i_addrs (ino_at (img s) j) k = 0)"

definition mk_inv :: "mkst \<Rightarrow> bool" where
  "mk_inv s \<longleftrightarrow> unused_blank s \<and> mk_ok (img s) (ino_at (img s)) (unat (freeblock s)) \<and> img_len s = 1000 \<and> unat (freeblock s) \<le> 1000"

text \<open>The invariant while inode \<open>i\<close> is in memory as \<open>din\<close>.\<close>

definition mk_fly :: "nat \<Rightarrow> inode \<Rightarrow> nat \<Rightarrow> mkst \<Rightarrow> bool" where
  "mk_fly i din b s \<longleftrightarrow> unused_blank s \<and> mk_ok (img s) ((ino_at (img s))(i := din)) (unat (freeblock s)) \<and> img_len s = 1000 \<and> unat (freeblock s) \<le> b"

lemma mk_ok_cong: "mk_ok g D fb \<Longrightarrow> (\<And>i. i < 208 \<Longrightarrow> E i = D i) \<Longrightarrow> mk_ok g E fb"
  unfolding mk_ok_def using owned_cong [of "slots_of g D" fb "slots_of g E"] by (auto simp: slots_of_def places_def)

lemma ino_at_upd: "59 \<le> n \<Longrightarrow> i < 208 \<Longrightarrow> ino_at (g(n := y)) i = ino_at g i"
  by (simp add: ino_at_def)

lemma unused_blank_upd:
  "unused_blank (s\<lparr>freeblock := x\<rparr>) = unused_blank s"
  "59 \<le> n \<Longrightarrow> unused_blank (s\<lparr>img := (img s)(n := y)\<rparr>) = unused_blank s"
  "59 \<le> n \<Longrightarrow> unused_blank (s\<lparr>freeblock := x, img := (img s)(n := y)\<rparr>) = unused_blank s"
  by (auto simp: unused_blank_def ino_at_upd)

lemma rinode_safe:
  "unat inum < 208 \<Longrightarrow> safe (rinode io inum s) (\<lambda>d t. t = s \<and> d = ino_at (img s) (unat inum))"
  unfolding rinode_def Let_def
  by (rule safe_bind [OF rsect_safe]) (auto simp: inode_place ino_at_def)

lemma winode_safe:
  assumes "unat inum < 208" "mk_fly (unat inum) ip 1000 s" "unat inum < unat (freeinode s)"
  shows "safe (winode io inum ip s) (\<lambda>_ t. mk_inv t \<and> freeinode t = freeinode s)"
  unfolding winode_def Let_def
proof (rule safe_bind [OF rsect_safe], goal_cases)
  case 1
  then show ?case using assms(1) by (simp add: inode_place)
next
  case (2 b t)
  let ?n = "32 + unat inum div 8" and ?y = "put_dinode (dinode_off inum) ip b"
  have "safe (wsect io (IBLOCK inum mk_sb) ?y t) (\<lambda>_ u. u = t\<lparr>img := (img t)(?n := ?y)\<rparr>)"
    using wsect_safe [of "IBLOCK inum mk_sb" t io ?y] assms 2 by (simp add: inode_place mk_fly_def)
  moreover have "unused_blank (t\<lparr>img := (img t)(?n := ?y)\<rparr>)"
    using assms 2 by (auto simp: unused_blank_def mk_fly_def inode_place ino_at_write)
  ultimately show ?case
    by (elim safe_mono) (use write_inode [of "img s" "unat inum" ip] assms 2 in \<open>auto simp: mk_inv_def mk_fly_def inode_place\<close>)
qed

lemma fly_alloc:
  assumes f: "mk_fly i din b s" and i: "i < 208" "k \<le> 12" "i_addrs din k = 0" and b: "b \<le> 1000"
  shows "mk_fly i (din\<lparr>i_addrs := (i_addrs din)(k := freeblock s)\<rparr>) (Suc (unat (freeblock s))) (s\<lparr>freeblock := freeblock s + 1\<rparr>)"
proof -
  have n: "unat (freeblock s + 1) = Suc (unat (freeblock s))" using f b by (simp add: mk_fly_def unat_word_ariths)
  show ?thesis
    using alloc_addr [of "img s" "(ino_at (img s))(i := din)" "unat (freeblock s)" i k] f i b n by (simp add: mk_fly_def unused_blank_upd)
qed

lemma fly_entry:
  assumes f: "mk_fly i din b s" and i: "i < 208" "j < 128" "i_addrs din 12 = a" "a \<noteq> 0" "get32 (img s (unat a)) (4 * j) = 0"
    and b: "b \<le> 1000"
  shows "mk_fly i din (Suc (unat (freeblock s)))
    (s\<lparr>freeblock := freeblock s + 1, img := (img s)(unat a := put32 (img s (unat a)) (4 * j) (freeblock s))\<rparr>)"
proof -
  let ?g = "(img s)(unat a := put32 (img s (unat a)) (4 * j) (freeblock s))" and ?D = "(ino_at (img s))(i := din)"
  have n: "unat (freeblock s + 1) = Suc (unat (freeblock s))" using f b by (simp add: mk_fly_def unat_word_ariths)
  have "slots_of (img s) ?D (i, 12) = a" "(i, 12) \<in> places" using i by (simp_all add: slots_of_def slot_def places_def)
  then have a: "59 \<le> unat a" using f i(4) by (auto simp: mk_fly_def mk_ok_def owned_ok_def)
  have "mk_ok ?g ?D (Suc (unat (freeblock s)))"
    using alloc_entry [of "img s" ?D "unat (freeblock s)" i j a] f i b by (simp add: mk_fly_def)
  then have "mk_ok ?g ((ino_at ?g)(i := din)) (Suc (unat (freeblock s)))"
    by (rule mk_ok_cong) (simp add: ino_at_upd [OF a])
  then show ?thesis using f n by (simp add: mk_fly_def unused_blank_upd a)
qed

lemma fly_write:
  assumes f: "mk_fly i din b s" and k: "i < 208" "k < 141" "k \<noteq> 12" "slot (img s) din k = x" "x \<noteq> 0"
  shows "mk_fly i din b (s\<lparr>img := (img s)(unat x := y)\<rparr>)" "59 \<le> unat x" "unat x < unat (freeblock s)"
proof -
  let ?g = "(img s)(unat x := y)" and ?D = "(ino_at (img s))(i := din)"
  have p: "mk_ok (img s) ?D (unat (freeblock s))" "(i, k) \<in> places" "slots_of (img s) ?D (i, k) = x"
    using f k by (auto simp: mk_fly_def slots_of_def places_def)
  note w = write_data [OF p(1,2) k(3) p(3) k(5)]
  show x: "59 \<le> unat x" "unat x < unat (freeblock s)" by (rule w)+
  have "mk_ok ?g ((ino_at ?g)(i := din)) (unat (freeblock s))" using w(1) by (rule mk_ok_cong) (simp add: ino_at_upd [OF x(1)])
  then show "mk_fly i din b (s\<lparr>img := ?g\<rparr>)" using f x by (simp add: mk_fly_def unused_blank_upd)
qed

text \<open>The slot of block number \<open>fbn\<close> of a file.\<close>

definition fbn_slot :: "nat \<Rightarrow> nat" where
  "fbn_slot fbn = (if fbn < NDIRECT then fbn else fbn + 1)"

definition block_found :: "nat \<Rightarrow> nat \<Rightarrow> u32 \<times> inode \<Rightarrow> mkst \<Rightarrow> bool" where
  "block_found i fbn = (\<lambda>(x, din) t. mk_fly i din 1001 t \<and> (unat x < 1000 \<longrightarrow> unat (freeblock t) \<le> 1000)
     \<and> slot (img t) din (fbn_slot fbn) = x \<and> x \<noteq> 0 \<and> unat x < 2 ^ 20)"

lemma mk_fly_mono: "mk_fly i din b s \<Longrightarrow> b \<le> c \<Longrightarrow> mk_fly i din c s"
  by (auto simp: mk_fly_def)

lemma fly_free: "mk_fly i din b s \<Longrightarrow> b \<le> 1001 \<Longrightarrow> freeblock s \<noteq> 0 \<and> unat (freeblock s) \<le> b \<and> img_len s = 1000"
  by (auto simp: mk_fly_def mk_ok_def)

lemma slot_bound: "mk_fly i din b s \<Longrightarrow> b \<le> 1001 \<Longrightarrow> i < 208 \<Longrightarrow> k < 141 \<Longrightarrow> slot (img s) din k \<noteq> 0 \<Longrightarrow> unat (slot (img s) din k) < unat (freeblock s)"
  unfolding mk_fly_def mk_ok_def owned_ok_def slots_of_def places_def by force

lemma append_direct:
  assumes f: "mk_fly i din 1000 s" and i: "i < 208" "fbn < NDIRECT"
  shows "safe (iappend_block io fbn din s) (\<lambda>r t. block_found i fbn r t \<and> freeinode t = freeinode s)"
proof (cases "i_addrs din fbn = 0")
  case True
  have "mk_fly i (din\<lparr>i_addrs := (i_addrs din)(fbn := freeblock s)\<rparr>) 1001 (s\<lparr>freeblock := freeblock s + 1\<rparr>)"
    using fly_alloc [OF f i(1) _ True] i fly_free [OF f] by (intro mk_fly_mono [OF fly_alloc [OF f i(1) _ True]]) (auto simp: NDIRECT_def)
  moreover have "unat (freeblock s) < 1000 \<Longrightarrow> unat (freeblock s + 1) \<le> 1000" by (simp add: unat_word_ariths)
  ultimately show ?thesis
    using True i fly_free [OF f] by (auto simp: iappend_block_def block_found_def fbn_slot_def slot_def NDIRECT_def)
next
  case False
  then have "unat (i_addrs din fbn) < unat (freeblock s)" using slot_bound [OF f, of fbn] i by (simp add: slot_def NDIRECT_def)
  then show ?thesis
    using False i fly_free [OF f] f by (auto simp: iappend_block_def block_found_def fbn_slot_def slot_def NDIRECT_def mk_fly_def)
qed

text \<open>The rest of the indirect case, once the indirect block exists.\<close>

lemma append_indirect:
  assumes f: "mk_fly i din 1001 s" and i: "i < 208" "j < 128" "i_addrs din 12 = a" "a \<noteq> 0"
    and fr: "unat a < 1000 \<Longrightarrow> unat (freeblock s) \<le> 1000"
  shows "safe (bindK (rsect io a s) (\<lambda>indirect s.
           if get32 indirect (4 * j) = 0 then
             let indirect = put32 indirect (4 * j) (freeblock s); s = s\<lparr>freeblock := freeblock s + 1\<rparr>
             in bindK (wsect io a indirect s) (\<lambda>_ s. Ret (get32 indirect (4 * j), din) s)
           else Ret (get32 indirect (4 * j), din) s))
    (\<lambda>r t. block_found i (12 + j) r t \<and> freeinode t = freeinode s)"
proof (rule safe_bind [OF rsect_safe], goal_cases)
  case 1
  then show ?case using slot_bound [OF f _ i(1), of 12] fly_free [OF f] i by (simp add: slot_def)
next
  case (2 b t)
  then have b: "t = s" "b = img s (unat a)" and a: "unat a < 1000" and s: "unat (freeblock s) \<le> 1000"
    using fly_free [OF f] fr by auto
  have f': "mk_fly i din 1000 s" using f s by (simp add: mk_fly_def)
  have sl: "slot (img s) din (13 + j) = get32 b (4 * j)" using i b by (simp add: slot_def)
  show ?case
  proof (cases "get32 b (4 * j) = 0")
    case True
    let ?y = "put32 b (4 * j) (freeblock s)"
    let ?t = "s\<lparr>freeblock := freeblock s + 1, img := (img s)(unat a := ?y)\<rparr>"
    have "mk_fly i din (Suc (unat (freeblock s))) ?t" using fly_entry [OF f' i] True b by simp
    then have t: "mk_fly i din 1001 ?t" using s by (rule_tac mk_fly_mono) auto
    have "unat (freeblock s) < 1000 \<Longrightarrow> unat (freeblock s + 1) \<le> 1000" by (simp add: unat_word_ariths)
    then have bf: "block_found i (12 + j) (get32 ?y (4 * j), din) ?t"
      using t i s fly_free [OF f'] by (simp add: block_found_def fbn_slot_def NDIRECT_def slot_def)
    have "safe (wsect io a ?y (s\<lparr>freeblock := freeblock s + 1\<rparr>)) (\<lambda>_ u. u = ?t)"
      using wsect_safe [of a "s\<lparr>freeblock := freeblock s + 1\<rparr>" io ?y] a fly_free [OF f] by simp
    then show ?thesis using True b bf by (simp add: Let_def) (erule safe_bind, simp)
  next
    case False
    then have "unat (get32 b (4 * j)) < unat (freeblock s)" using slot_bound [OF f' _ i(1), of "13 + j"] sl i by simp
    then show ?thesis using False b f s sl by (simp add: block_found_def fbn_slot_def NDIRECT_def)
  qed
qed

lemma iappend_block_safe:
  assumes f: "mk_fly i din 1000 s" and i: "i < 208" "fbn < MAXFILE"
  shows "safe (iappend_block io fbn din s) (\<lambda>r t. block_found i fbn r t \<and> freeinode t = freeinode s)"
proof (cases "fbn < NDIRECT")
  case True
  then show ?thesis using append_direct [OF f i(1)] by simp
next
  case dir: False
  then obtain j where j: "fbn = 12 + j" by (metis NDIRECT_def le_Suc_ex not_less)
  then have jl: "j < 128" using i(2) by (simp add: MAXFILE_def NINDIRECT_def NDIRECT_def BSIZE_def)
  show ?thesis
  proof (cases "i_addrs din 12 = 0")
    case True
    let ?d = "din\<lparr>i_addrs := (i_addrs din)(12 := freeblock s)\<rparr>" and ?s = "s\<lparr>freeblock := freeblock s + 1\<rparr>"
    have f': "mk_fly i ?d 1001 ?s" using fly_free [OF f] by (intro mk_fly_mono [OF fly_alloc [OF f i(1) _ True]]) auto
    have "unat (freeblock s) < 1000 \<Longrightarrow> unat (freeblock ?s) \<le> 1000" by (simp add: unat_word_ariths)
    then show ?thesis
      using append_indirect [OF f' i(1) jl refl, of io] True j fly_free [OF f] by (simp add: iappend_block_def NDIRECT_def Let_def cong: if_cong)
  next
    case False
    have "mk_fly i din 1001 s" by (rule mk_fly_mono [OF f]) simp
    then show ?thesis
      using append_indirect [of i din s j _ io] i(1) jl False j fly_free [OF f] by (simp add: iappend_block_def NDIRECT_def Let_def cong: if_cong)
  qed
qed

lemma mk_fly_size: "mk_fly i (din\<lparr>i_size := z\<rparr>) b s = mk_fly i din b s"
proof -
  have *: "mk_ok g (D(i := din\<lparr>i_size := z\<rparr>)) fb = mk_ok g (D(i := din)) fb" for g D fb
  proof -
    have "slots_of g (D(i := din\<lparr>i_size := z\<rparr>)) = slots_of g (D(i := din))" by (auto simp: slots_of_def slot_def fun_eq_iff)
    then show ?thesis by (simp add: mk_ok_def)
  qed
  show ?thesis by (simp add: mk_fly_def *)
qed

lemma iappend_loop_safe:
  assumes "mk_fly i din 1000 s" "i < 208"
  shows "safe (iappend_loop io cs off din s) (\<lambda>(off, din) t. mk_fly i din 1000 t \<and> freeinode t = freeinode s)"
  using assms
proof (induction "length cs" arbitrary: cs off din s rule: less_induct)
  case less
  let ?fbn = "unat (off div of_nat BSIZE)"
  show ?case
  proof (cases "cs = [] \<or> \<not> ?fbn < MAXFILE")
    case True
    then show ?thesis using less(2) by (subst iappend_loop.simps) (auto simp: Let_def)
  next
    case go: False
    let ?n1 = "min (length cs) ((?fbn + 1) * BSIZE - unat off)"
    have q: "?fbn = unat off div 512" by (simp add: BSIZE_def unat_div)
    then have n1: "?n1 \<noteq> 0" using go by (auto simp: BSIZE_def)
    have step: "safe (bindK (rsect io x t) (\<lambda>buf u. bindK (wsect io x (overlay (unat off - ?fbn * BSIZE) (take ?n1 cs) buf) u) (\<lambda>_ u.
        if ?n1 = 0 then Diverge else iappend_loop io (drop ?n1 cs) (off + of_nat ?n1) d u)))
        (\<lambda>(off, din) u. mk_fly i din 1000 u \<and> freeinode u = freeinode s)"
      if bf: "block_found i ?fbn (x, d) t" and fi: "freeinode t = freeinode s" for x d t
    proof (rule safe_bind [OF rsect_safe], goal_cases)
      case 1
      then show ?case using bf by (simp add: block_found_def)
    next
      case (2 buf u)
      then have x: "unat x < 1000" "u = t" and f: "mk_fly i d 1000 t"
        using bf by (auto simp: block_found_def mk_fly_def)
      let ?y = "overlay (unat off - ?fbn * BSIZE) (take ?n1 cs) buf"
      have k: "fbn_slot ?fbn < 141" "fbn_slot ?fbn \<noteq> 12" "slot (img t) d (fbn_slot ?fbn) = x" "x \<noteq> 0"
        using bf go by (auto simp: block_found_def fbn_slot_def NDIRECT_def MAXFILE_def NINDIRECT_def BSIZE_def)
      have w: "mk_fly i d 1000 (t\<lparr>img := (img t)(unat x := ?y)\<rparr>)" by (rule fly_write(1) [OF f less(3) k])
      have "safe (wsect io x ?y t) (\<lambda>_ v. v = t\<lparr>img := (img t)(unat x := ?y)\<rparr>)"
        using x f by (intro wsect_safe) (auto simp: mk_fly_def)
      then show ?case unfolding x(2)
      proof (rule safe_bind, goal_cases)
        case (1 r v)
        have l: "length (drop ?n1 cs) < length cs" using n1 by auto
        show ?case using less(1) [OF l, of d v "off + of_nat ?n1"] 1 w less(3) n1 fi by simp
      qed
    qed
    have e: "iappend_loop io cs off din s = bindK (iappend_block io ?fbn din s) (\<lambda>(x, d) t. bindK (rsect io x t) (\<lambda>buf u.
        bindK (wsect io x (overlay (unat off - ?fbn * BSIZE) (take ?n1 cs) buf) u) (\<lambda>_ u.
        if ?n1 = 0 then Diverge else iappend_loop io (drop ?n1 cs) (off + of_nat ?n1) d u)))"
      using go by (subst iappend_loop.simps) (simp only: Let_def if_False simp_thms de_Morgan_disj not_not)
    have b: "?fbn < MAXFILE" using go by simp
    show ?thesis unfolding e
    proof (rule safe_bind [OF iappend_block_safe [OF less(2,3) b]], goal_cases)
      case (1 r t)
      obtain x d where r: "r = (x, d)" by (cases r)
      show ?case using step [of x d t] 1 unfolding r by (simp only: prod.case)
    qed
  qed
qed

lemma iappend_safe:
  assumes s: "mk_inv s" and i: "unat inum < 208" "unat inum < unat (freeinode s)"
  shows "safe (iappend io inum cs s) (\<lambda>_ t. mk_inv t \<and> freeinode t = freeinode s)"
  unfolding iappend_def
proof (rule safe_bind [OF rinode_safe [OF i(1)]], goal_cases)
  case (1 din t)
  then have f: "mk_fly (unat inum) din 1000 t" using s by (simp add: mk_fly_def mk_inv_def)
  show ?case
  proof (rule safe_bind [OF iappend_loop_safe [OF f i(1)]], goal_cases)
    case (1 r u)
    then show ?case using winode_safe [of inum "snd r\<lparr>i_size := fst r\<rparr>" u io] \<open>t = s \<and> _\<close> i
      by (cases r) (simp add: mk_fly_size)
  qed
qed

lemma mk_ialloc_safe:
  assumes s: "mk_inv s" and i: "unat (freeinode s) < 208"
  shows "safe (mk_ialloc io type s) (\<lambda>inum t. mk_inv t \<and> inum = freeinode s \<and> unat (freeinode t) = Suc (unat (freeinode s)))"
proof -
  let ?i = "unat (freeinode s)" and ?s = "s\<lparr>freeinode := freeinode s + 1\<rparr>"
  let ?d = "blank_inode\<lparr>i_type := type, i_nlink := 1, i_size := 0\<rparr>"
  have n: "unat (freeinode s + 1) = Suc ?i" using i by (simp add: unat_word_ariths)
  have z: "i_addrs (ino_at (img s) ?i) k = 0" if "k \<le> 12" for k using s i that by (auto simp: mk_inv_def unused_blank_def)
  have "slots_of (img s) ((ino_at (img s))(?i := ?d)) q = slots_of (img s) (ino_at (img s)) q" for q
    using z by (simp add: slots_of_def slot_def blank_inode_def)
  then have "slots_of (img s) ((ino_at (img s))(?i := ?d)) = slots_of (img s) (ino_at (img s))" by blast
  then have f: "mk_fly ?i ?d 1000 ?s" using s n by (simp add: mk_fly_def mk_inv_def mk_ok_def unused_blank_def)
  have "safe (winode io (freeinode s) ?d ?s) (\<lambda>_ t. mk_inv t \<and> freeinode t = freeinode s + 1)"
    using winode_safe [OF i f] n by simp
  then show ?thesis unfolding mk_ialloc_def Let_def xshort_id xint_id by (rule safe_bind) (simp add: n)
qed

lemma append_chunks_safe:
  "mk_inv s \<Longrightarrow> unat inum < 208 \<Longrightarrow> unat inum < unat (freeinode s) \<Longrightarrow>
    safe (append_chunks io inum ds s) (\<lambda>_ t. mk_inv t \<and> freeinode t = freeinode s)"
proof (induction ds arbitrary: s)
  case (Cons d ds)
  show ?case unfolding append_chunks.simps
    by (rule safe_bind [OF iappend_safe [OF Cons(2-4)]]) (use Cons(1) Cons(3,4) in \<open>fastforce elim: safe_mono\<close>)
qed simp

lemma mkfs_files_safe:
  "mk_inv s \<Longrightarrow> 1 < unat (freeinode s) \<Longrightarrow> unat (freeinode s) + length fs \<le> 208 \<Longrightarrow>
    safe (mkfs_files io 1 fs s) (\<lambda>_ t. mk_inv t \<and> unat (freeinode t) = unat (freeinode s) + length fs)"
proof (induction fs arbitrary: s)
  case (Cons f fs)
  obtain name c where f: "f = (name, c)" by (cases f)
  show ?case
  proof (cases "47 \<in> set name \<or> c = None")
    case True
    then show ?thesis using f by (auto split: option.split)
  next
    case False
    then obtain cs where cs: "c = Some cs" by auto
    have fi: "unat (freeinode s) < 208" using Cons(4) by simp
    let ?nm = "if name \<noteq> [] \<and> hd name = 95 then tl name else name"
    have "safe (bindK (mk_ialloc io T_FILE s) (\<lambda>inum s. bindK (iappend io 1 (mk_dirent inum ?nm) s) (\<lambda>_ s.
        bindK (append_chunks io inum (read_chunks (length cs) cs) s) (\<lambda>_ s. mkfs_files io 1 fs s))))
        (\<lambda>_ t. mk_inv t \<and> unat (freeinode t) = unat (freeinode s) + length (f # fs))"
    proof (rule safe_bind [OF mk_ialloc_safe [OF Cons(2) fi]], goal_cases)
      case (1 inum t)
      then have t: "mk_inv t" "unat inum < 208" "unat inum < unat (freeinode t)" "unat (freeinode t) = Suc (unat (freeinode s))"
        using fi by auto
      then have r: "unat (1 :: u32) < 208" "unat (1 :: u32) < unat (freeinode t)" using Cons(3) by auto
      show ?case
      proof (rule safe_bind [OF iappend_safe [OF t(1) r]], goal_cases)
        case (1 _ u)
        then have u: "mk_inv u" "unat inum < unat (freeinode u)" "freeinode u = freeinode t" using t by auto
        show ?case
        proof (rule safe_bind [OF append_chunks_safe [OF u(1) t(2) u(2)]], goal_cases)
          case (1 _ v)
          then show ?case using Cons(1) [of v] Cons(3,4) t(4) u(3) by simp
        qed
      qed
    qed
    then show ?thesis using False f cs by (simp add: Let_def)
  qed
qed simp

section \<open>The bitmap\<close>

lemma mk_bitmap_free: "bm_free (mk_bitmap n) i \<longleftrightarrow> n \<le> i"
proof -
  let ?P = "\<lambda>k d. \<forall>i. bm_free d i \<longleftrightarrow> k \<le> i"
  have e: "(\<lambda>i (d :: bytes). d(i div 8 := d (i div 8) OR push_bit (i mod 8) 0x1)) = (\<lambda>i d. bm_set d i)"
    by (simp add: bm_set_def bm_mask_def)
  have z: "?P 0 (\<lambda>_. 0)" by (simp add: bm_free_def)
  have s: "?P (Suc k) (bm_set d k)" if d: "?P k d" for k d
  proof
    fix i
    have "bm_free (bm_set d k) i \<longleftrightarrow> i \<noteq> k \<and> k \<le> i" using d by (simp only: bm_set_free)
    then show "bm_free (bm_set d k) i \<longleftrightarrow> Suc k \<le> i" by linarith
  qed
  have "?P (0 + n) (mk_bitmap n)" unfolding mk_bitmap_def e by (rule for_range_inv [of ?P, OF z]) (rule s)
  then show ?thesis by simp
qed

section \<open>The image is consistent\<close>

lemma safe_for:
  assumes "P a s" "\<And>i s. a \<le> i \<Longrightarrow> i < a + k \<Longrightarrow> P i s \<Longrightarrow> safe (body i s) (\<lambda>_ t. P (Suc i) t)"
  shows "safe (for_rangeK a k body s) (\<lambda>_ t. P (a + k) t)"
  using assms
proof (induction k arbitrary: a s)
  case (Suc k)
  have "safe (body a s) (\<lambda>_ t. P (Suc a) t)" using Suc.prems by auto
  moreover have "safe (for_rangeK (Suc a) k body t) (\<lambda>_ u. P (Suc a + k) u)" if "P (Suc a) t" for t
    using Suc.prems that by (intro Suc.IH) auto
  ultimately show ?case by (auto elim!: safe_bind)
qed simp

text \<open>The first sectors: all zero, then the superblock.\<close>

definition zeroed :: "nat \<Rightarrow> mkst \<Rightarrow> bool" where
  "zeroed n s \<longleftrightarrow> s = \<lparr>img = (\<lambda>_ _. 0), img_len = n, freeinode = 1, freeblock = 59\<rparr>"

lemma wsect_zeroed: "i < 1000 \<Longrightarrow> zeroed i s \<Longrightarrow> safe (wsect io (of_nat i) (\<lambda>_. 0) s) (\<lambda>_ t. zeroed (Suc i) t)"
  by (auto simp: wsect_def zeroed_def sect_pos_small unat_of_nat32 Let_def)

lemma nmeta_eval: "of_nat nmeta = (59 :: u32)" "unat FSSIZE = 1000"
  by (simp_all add: nmeta_def nlog_def ninodeblocks_def nbitmap_def NINODES_def IPB_def DINODE_SIZE_def NDIRECT_def LOGSIZE_def MAXOPBLOCKS_def BSIZE_def FSSIZE_def)

lemma ino_at_zero: "g (32 + i div 8) = (\<lambda>_. 0) \<Longrightarrow> k \<le> 12 \<Longrightarrow> i_addrs (ino_at g i) k = 0"
  by (simp add: ino_at_def get_dinode_sel NDIRECT_def get32_def)

lemma mk_inv_zeroed:
  assumes "zeroed 1000 s"
  shows "mk_inv (s\<lparr>img := (img s)(1 := sb_bytes)\<rparr>)"
proof -
  let ?g = "(\<lambda>_ _. 0)(1 := sb_bytes) :: nat \<Rightarrow> bytes"
  have z: "i_addrs (ino_at ?g i) k = 0" if "k \<le> 12" for i k using that by (intro ino_at_zero) auto
  then have "slots_of ?g (ino_at ?g) p = 0" for p by (simp add: slots_of_def slot_def)
  then have "owned_ok (slots_of ?g (ino_at ?g)) 59" by (simp add: owned_ok_def)
  then show ?thesis using assms z by (simp add: mk_inv_def mk_ok_def unused_blank_def zeroed_def)
qed

definition consistent :: "mkst \<Rightarrow> bool" where
  "consistent t \<longleftrightarrow>
     (let fb = unat (freeblock t)
      in img t 1 = sb_bytes \<and> 59 \<le> fb \<and> fb \<le> 1000
         \<and> (\<forall>b. bm_free (img t (unat (BBLOCK 0 mk_sb))) b \<longleftrightarrow> fb \<le> b)
         \<and> owned_ok (slots_of (img t) (ino_at (img t))) fb)"

lemma mk_balloc_safe:
  assumes s: "mk_inv s"
  shows "safe (mk_balloc io (unat (freeblock s)) s) (\<lambda>_ t. consistent t)"
proof -
  let ?fb = "unat (freeblock s)" and ?g = "(img s)(58 := mk_bitmap (unat (freeblock s)))"
  have own: "owned_ok (slots_of (img s) (ino_at (img s))) ?fb" and fb: "59 \<le> ?fb" "?fb \<le> 1000" and sb: "img s 1 = sb_bytes"
    using s by (auto simp: mk_inv_def mk_ok_def)
  have "slots_of ?g (ino_at ?g) q = slots_of (img s) (ino_at (img s)) q" if q: "q \<in> places" for q
  proof -
    obtain j l where q': "q = (j, l)" "j < 208" using q by (auto simp: places_def)
    then have e: "ino_at ?g j = ino_at (img s) j" by (auto simp: ino_at_def)
    have "(j, 12) \<in> places" using q' by (simp add: places_def)
    then have "59 \<le> unat (i_addrs (ino_at (img s) j) 12)" if "i_addrs (ino_at (img s) j) 12 \<noteq> 0"
      using own that by (force simp: owned_ok_def slots_of_def slot_def)
    then show ?thesis using q' e by (auto simp: slots_of_def slot_def)
  qed
  then have o: "owned_ok (slots_of ?g (ino_at ?g)) ?fb" using owned_cong [OF own] by blast
  have b: "unat (BBLOCK 0 mk_sb) = 58" "unat (sb_bmapstart mk_sb) = 58" by (simp_all add: BBLOCK_def mk_sb_eval)
  have "safe (wsect io (sb_bmapstart mk_sb) (mk_bitmap ?fb) s) (\<lambda>_ t. t = s\<lparr>img := ?g\<rparr>)"
    using wsect_safe [of "sb_bmapstart mk_sb" s io "mk_bitmap ?fb"] s b by (simp add: mk_inv_def)
  then have "safe (wsect io (sb_bmapstart mk_sb) (mk_bitmap ?fb) s) (\<lambda>_ t. consistent t)"
  proof (rule safe_mono)
    fix x t
    assume "t = s\<lparr>img := ?g\<rparr>"
    then show "consistent t" using o b fb sb by (simp add: consistent_def mk_bitmap_free)
  qed
  then show ?thesis by (simp add: mk_balloc_def)
qed

text \<open>The program ends: with success and \<open>Q\<close>, with an error message, or with a failed assertion.\<close>

definition exits :: "('s, 'a) outcome \<Rightarrow> ('s \<Rightarrow> bool) \<Rightarrow> bool" where
  "exits m Q \<longleftrightarrow> (\<exists>t. m = Swtch 0 t \<and> Q t) \<or> (\<exists>t. m = Swtch 1 t) \<or> (\<exists>e. m = Panic e)"

lemma exits_bind: "safe m P \<Longrightarrow> (\<And>x s. P x s \<Longrightarrow> exits (f x s) Q) \<Longrightarrow> exits (bindK m f) Q"
  by (cases m) (auto simp: exits_def)

text \<open>The end of the program: the size of the root directory is rounded up and the bitmap is written.\<close>

lemma mkfs_finish:
  assumes s: "mk_inv s" "1 < unat (freeinode s)"
  shows "exits (bindK (rinode io 1 s) (\<lambda>din s. bindK (winode io 1 (din\<lparr>i_size := z din\<rparr>) s) (\<lambda>_ s.
      bindK (mk_balloc io (unat (freeblock s)) s) (\<lambda>_ s. Swtch 0 s)))) consistent"
proof (rule exits_bind [OF rinode_safe], goal_cases)
  case (2 din t)
  then have f: "mk_fly (unat (1 :: u32)) (din\<lparr>i_size := z din\<rparr>) 1000 t"
    using s by (simp add: mk_fly_size) (simp add: mk_fly_def mk_inv_def)
  have r: "unat (1 :: u32) < 208" "unat (1 :: u32) < unat (freeinode t)" using 2 s by auto
  show ?case
  proof (rule exits_bind [OF winode_safe [OF r(1) f r(2)]], goal_cases)
    case (1 _ u)
    then show ?case by (intro exits_bind [OF mk_balloc_safe]) (auto simp: exits_def)
  qed
qed simp

lemma mkfs_image:
  assumes "length fs \<le> 206"
  shows "exits (mkfs_main io opened fs) consistent"
proof (cases opened)
  case True
  let ?s = "\<lparr>img = (\<lambda>_ _. 0), img_len = 0, freeinode = 1, freeblock = 59\<rparr>"
  have "zeroed 0 ?s" by (simp add: zeroed_def)
  then have z: "safe (for_rangeK 0 1000 (\<lambda>i s. wsect io (of_nat i) (\<lambda>_. 0) s) ?s) (\<lambda>_ t. zeroed (0 + 1000) t)"
    by (rule safe_for [of zeroed]) (use wsect_zeroed in auto)
  show ?thesis unfolding mkfs_main_def Let_def nmeta_eval if_not_P [OF not_not [THEN iffD2, OF True]]
  proof (rule exits_bind [OF z], goal_cases)
    case (1 _ s)
    then have "safe (wsect io 1 sb_bytes s) (\<lambda>_ t. t = s\<lparr>img := (img s)(1 := sb_bytes)\<rparr>)"
      using wsect_safe [of 1 s io sb_bytes] by (simp add: zeroed_def)
    then show ?case
    proof (rule exits_bind, goal_cases)
      case (1 _ t)
      then have t: "mk_inv t" "unat (freeinode t) < 208" "freeinode t = 1"
        using mk_inv_zeroed [of s] \<open>zeroed (0 + 1000) s\<close> by (auto simp: zeroed_def)
      show ?case
      proof (rule exits_bind [OF mk_ialloc_safe [OF t(1,2)]], goal_cases)
        case (1 r u)
        then have u: "mk_inv u" "r = 1" "unat (freeinode u) = 2" using t by auto
        then have l: "unat (1 :: u32) < 208" "unat (1 :: u32) < unat (freeinode u)" by auto
        show ?case unfolding u(2) ROOTINO_def simp_thms if_False
        proof (rule exits_bind [OF iappend_safe [OF u(1) l]], goal_cases)
          case (1 _ v)
          then have v: "mk_inv v" "unat (1 :: u32) < unat (freeinode v)" "unat (freeinode v) = 2" using u by auto
          show ?case
          proof (rule exits_bind [OF iappend_safe [OF v(1) l(1) v(2)]], goal_cases)
            case (1 _ w)
            then have w: "mk_inv w" "1 < unat (freeinode w)" "unat (freeinode w) + length fs \<le> 208" using v assms by auto
            show ?case
            proof (rule exits_bind [OF mkfs_files_safe [OF w]], goal_cases)
              case (1 _ x)
              then have x: "mk_inv x" "1 < unat (freeinode x)" using w by auto
              show ?case by (rule mkfs_finish [OF x])
            qed
          qed
        qed
      qed
    qed
  qed
qed (simp add: mkfs_main_def exits_def)

section \<open>An image with an empty root directory\<close>

text \<open>On a host whose calls succeed, short appends to inode \<open>i\<close> go through.\<close>

definition small :: "nat \<Rightarrow> nat \<Rightarrow> nat \<Rightarrow> mkst \<Rightarrow> bool" where
  "small i z n s \<longleftrightarrow> img_len s = 1000 \<and> 59 \<le> unat (freeblock s) \<and> unat (freeblock s) \<le> n \<and> i_size (ino_at (img s) i) = of_nat z
     \<and> (i_addrs (ino_at (img s) i) 0 = 0 \<or> 59 \<le> unat (i_addrs (ino_at (img s) i) 0) \<and> unat (i_addrs (ino_at (img s) i) 0) < 1000)"

lemma rsect_ret: "unat x < 1000 \<Longrightarrow> img_len s = 1000 \<Longrightarrow> rsect (\<lambda>_. True) x s = Ret (img s (unat x)) s"
  by (simp add: rsect_def sect_pos_small)

lemma wsect_ret: "unat x < 1000 \<Longrightarrow> img_len s = 1000 \<Longrightarrow> wsect (\<lambda>_. True) x y s = Ret () (s\<lparr>img := (img s)(unat x := y)\<rparr>)"
  by (simp add: wsect_def sect_pos_small Let_def max_def)

lemma rinode_ret: "unat inum < 208 \<Longrightarrow> img_len s = 1000 \<Longrightarrow> rinode (\<lambda>_. True) inum s = Ret (ino_at (img s) (unat inum)) s"
  by (simp add: rinode_def rsect_ret inode_place ino_at_def)

lemma winode_ret:
  "unat inum < 208 \<Longrightarrow> img_len s = 1000 \<Longrightarrow> winode (\<lambda>_. True) inum ip s =
    Ret () (s\<lparr>img := (img s)(32 + unat inum div 8 := put_dinode (unat inum mod 8 * 64) ip (img s (32 + unat inum div 8)))\<rparr>)"
  by (simp add: winode_def rsect_ret wsect_ret inode_place)

lemma ino_at_same:
  "i_size (ino_at (g(32 + i div 8 := put_dinode (i mod 8 * 64) ip b)) i) = i_size ip"
  "k \<le> 12 \<Longrightarrow> i_addrs (ino_at (g(32 + i div 8 := put_dinode (i mod 8 * 64) ip b)) i) k = i_addrs ip k"
  by (simp_all add: ino_at_def dinode_same NDIRECT_def)

lemma winode_small:
  assumes "unat inum < 208" "img_len s = 1000" "59 \<le> unat (freeblock s)" "unat (freeblock s) \<le> n" "i_size ip = of_nat z"
    "i_addrs ip 0 = 0 \<or> 59 \<le> unat (i_addrs ip 0) \<and> unat (i_addrs ip 0) < 1000"
  shows "returns (winode (\<lambda>_. True) inum ip s) (\<lambda>_ t. small (unat inum) z n t \<and> freeinode t = freeinode s)"
  using assms by (simp add: winode_ret small_def ino_at_same)

lemma iappend_loop_nil: "iappend_loop io [] off din s = Ret (off, din) s"
  by (simp add: iappend_loop.simps)

lemma iappend_small:
  assumes s: "small (unat inum) z n s" and i: "unat inum < 208" and z: "cs \<noteq> []" "z + length cs < 512" "n < 999"
  shows "returns (iappend (\<lambda>_. True) inum cs s) (\<lambda>_ t. small (unat inum) (z + length cs) (Suc n) t \<and> freeinode t = freeinode s)"
proof -
  let ?d = "ino_at (img s) (unat inum)" and ?off = "of_nat z :: u32"
  define d where "d = (if i_addrs ?d 0 = 0 then ?d\<lparr>i_addrs := (i_addrs ?d)(0 := freeblock s)\<rparr> else ?d)"
  define u where "u = (if i_addrs ?d 0 = 0 then s\<lparr>freeblock := freeblock s + 1\<rparr> else s)"
  have off: "unat ?off = z" using z by (intro unat_of_nat32) auto
  have fbn: "unat (?off div of_nat BSIZE) = 0" using off z by (simp add: unat_div BSIZE_def)
  have n1: "unat (freeblock s + 1) = unat (freeblock s) + 1" using s z by (simp add: small_def unat_word_ariths)
  have blk: "iappend_block (\<lambda>_. True) 0 ?d s = Ret (i_addrs d 0, d) u"
    by (simp add: iappend_block_def d_def u_def NDIRECT_def Let_def)
  have x: "59 \<le> unat (i_addrs d 0)" "unat (i_addrs d 0) < 1000" and u: "img_len u = 1000" "59 \<le> unat (freeblock u)" "unat (freeblock u) \<le> Suc n" "freeinode u = freeinode s"
    using s z n1 by (auto simp: d_def u_def small_def)
  define y where "y = overlay z cs (img u (unat (i_addrs d 0)))"
  have m: "min (length cs) (BSIZE - z) = length cs" using z by (simp add: BSIZE_def)
  have mf: "0 < MAXFILE" by (simp add: MAXFILE_def NDIRECT_def)
  have loop: "iappend_loop (\<lambda>_. True) cs ?off ?d s = Ret (?off + of_nat (length cs), d) (u\<lparr>img := (img u)(unat (i_addrs d 0) := y)\<rparr>)"
    using z(1) by (subst iappend_loop.simps)
      (simp add: fbn blk m off mf Let_def rsect_ret wsect_ret x u iappend_loop_nil y_def)
  have "returns (winode (\<lambda>_. True) inum (d\<lparr>i_size := ?off + of_nat (length cs)\<rparr>) (u\<lparr>img := (img u)(unat (i_addrs d 0) := y)\<rparr>))
     (\<lambda>_ t. small (unat inum) (z + length cs) (Suc n) t \<and> freeinode t = freeinode (u\<lparr>img := (img u)(unat (i_addrs d 0) := y)\<rparr>))"
    using i x u by (intro winode_small) auto
  moreover have "i_size ?d = ?off" "img_len s = 1000" using s by (auto simp: small_def)
  ultimately show ?thesis unfolding iappend_def by (simp add: rinode_ret i loop u)
qed

lemma zero_loop:
  "returns (for_rangeK 0 1000 (\<lambda>i s. wsect (\<lambda>_. True) (of_nat i) (\<lambda>_. 0) s)
    \<lparr>img = (\<lambda>_ _. 0), img_len = 0, freeinode = 1, freeblock = 59\<rparr>) (\<lambda>_ t. zeroed (0 + 1000) t)"
proof (rule for_rangeK_total [of zeroed])
  show "zeroed 0 \<lparr>img = (\<lambda>_ _. 0), img_len = 0, freeinode = 1, freeblock = 59\<rparr>" by (simp add: zeroed_def)
  fix i s
  assume "i < 0 + 1000" "zeroed i s"
  then show "returns (wsect (\<lambda>_. True) (of_nat i) (\<lambda>_. 0) s) (\<lambda>_ t. zeroed (Suc i) t)"
    by (auto simp: wsect_def zeroed_def sect_pos_small unat_of_nat32 Let_def)
qed

definition done_ok :: "(mkst, unit) outcome \<Rightarrow> bool" where
  "done_ok m \<longleftrightarrow> (\<exists>t. m = Swtch 0 t)"

lemma done_bind: "returns m P \<Longrightarrow> (\<And>x s. P x s \<Longrightarrow> done_ok (f x s)) \<Longrightarrow> done_ok (bindK m f)"
  by (cases m) auto

lemma length_mk_dirent: "length (mk_dirent i name) = 16" "mk_dirent i name \<noteq> []"
  by (simp_all add: mk_dirent_def Let_def DIRSIZ_def)

lemma mkfs_empty: "done_ok (mkfs_main (\<lambda>_. True) True [])"
  unfolding mkfs_main_def Let_def nmeta_eval
proof (simp only: simp_thms if_False, rule done_bind [OF zero_loop], goal_cases)
  case (1 _ s)
  let ?s = "s\<lparr>img := (img s)(1 := sb_bytes)\<rparr>"
  have s: "img_len s = 1000" "freeinode s = 1" "freeblock s = 59" using 1 by (auto simp: zeroed_def)
  have "wsect (\<lambda>_. True) 1 sb_bytes s = Ret () ?s" using s by (simp add: wsect_ret)
  moreover have "returns (mk_ialloc (\<lambda>_. True) T_DIR ?s) (\<lambda>r t. r = 1 \<and> small 1 0 60 t)"
  proof -
    have "returns (winode (\<lambda>_. True) 1 (blank_inode\<lparr>i_type := T_DIR, i_nlink := 1, i_size := 0\<rparr>) (?s\<lparr>freeinode := 2\<rparr>))
       (\<lambda>_ t. small (unat (1 :: u32)) 0 60 t \<and> freeinode t = freeinode (?s\<lparr>freeinode := 2\<rparr>))"
      using s by (intro winode_small) (auto simp: blank_inode_def)
    then show ?thesis using s by (auto simp: mk_ialloc_def Let_def elim: returns_mono)
  qed
  ultimately show ?case
  proof (simp, elim done_bind, goal_cases)
    case (1 r t)
    then have t: "r = 1" "small (unat (1 :: u32)) 0 60 t" by auto
    have app: "returns (iappend (\<lambda>_. True) 1 (mk_dirent 1 name) u) (\<lambda>_ v. small (unat (1 :: u32)) (z + 16) (Suc n) v)"
      if "small (unat (1 :: u32)) z n u" "z + 16 < 512" "n < 999" for z n name u
      using iappend_small [OF that(1), of "mk_dirent 1 name"] that by (auto simp: length_mk_dirent elim!: returns_mono)
    show ?case unfolding t(1) ROOTINO_def simp_thms if_False
    proof (rule done_bind [OF app [OF t(2)]], goal_cases)
      case (3 _ u)
      show ?case
      proof (rule done_bind [OF app [OF 3]], goal_cases)
        case (3 _ v)
        then have v: "img_len v = 1000" "59 \<le> unat (freeblock v)" "unat (freeblock v) \<le> 62"
          "i_addrs (ino_at (img v) 1) 0 = 0 \<or> 59 \<le> unat (i_addrs (ino_at (img v) 1) 0) \<and> unat (i_addrs (ino_at (img v) 1) 0) < 1000"
          by (auto simp: small_def)
        have b: "unat (sb_bmapstart mk_sb) = 58" by (simp add: mk_sb_eval)
        show ?case using v b by (simp add: rinode_ret winode_ret mk_balloc_def wsect_ret BSIZE_def done_ok_def Let_def)
      qed simp_all
    qed simp_all
  qed
qed

lemma owned_bij:
  assumes "owned_ok f fb"
  shows "bij_betw (\<lambda>p. unat (f p)) {p \<in> places. f p \<noteq> 0} {59..<fb}"
proof (rule bij_betw_imageI)
  show "inj_on (\<lambda>p. unat (f p)) {p \<in> places. f p \<noteq> 0}" using assms by (simp add: owned_ok_def inj_on_def word_unat_eq_iff)
  show "(\<lambda>p. unat (f p)) ` {p \<in> places. f p \<noteq> 0} = {59..<fb}"
  proof (rule set_eqI)
    fix n
    show "n \<in> (\<lambda>p. unat (f p)) ` {p \<in> places. f p \<noteq> 0} \<longleftrightarrow> n \<in> {59..<fb}"
    proof
      assume "n \<in> {59..<fb}"
      then obtain p where "p \<in> places" "f p \<noteq> 0" "unat (f p) = n" using assms unfolding owned_ok_def by blast
      then show "n \<in> (\<lambda>p. unat (f p)) ` {p \<in> places. f p \<noteq> 0}" by blast
    qed (use assms in \<open>auto simp: owned_ok_def\<close>)
  qed
qed

section \<open>The property\<close>

text \<open>
  C37. \<open>mkfs\<close> builds a consistent image. With at most 206 input files, which is as many as the inode blocks
  hold, it always ends: with a failed assertion, with an error message, or with an image that has its superblock in
  sector 1 and in which the bitmap, read as the kernel reads it, marks exactly the blocks before the
  first free one as used. Each of these blocks behind the metadata is referenced by exactly one direct
  slot, indirect slot or entry of an indirect block of the inodes, and nothing else is referenced.
\<close>

theorem mkfs_consistent:
  assumes "length fs \<le> 206"
  shows "(\<exists>t. mkfs_main io opened fs = Swtch 0 t \<and> img t 1 = sb_bytes
           \<and> 59 \<le> unat (freeblock t) \<and> unat (freeblock t) \<le> unat FSSIZE
           \<and> (\<forall>b. bm_free (img t (unat (BBLOCK 0 mk_sb))) b \<longleftrightarrow> unat (freeblock t) \<le> b)
           \<and> (let f = slots_of (img t) (ino_at (img t)); used = {p \<in> places. f p \<noteq> 0}
              in bij_betw (\<lambda>p. unat (f p)) used {59..<unat (freeblock t)}))
         \<or> (\<exists>t. mkfs_main io opened fs = Swtch 1 t) \<or> (\<exists>e. mkfs_main io opened fs = Panic e)"
proof -
  consider (ok) t where "mkfs_main io opened fs = Swtch 0 t" "consistent t"
    | (err) "(\<exists>t. mkfs_main io opened fs = Swtch 1 t) \<or> (\<exists>e. mkfs_main io opened fs = Panic e)"
    using mkfs_image [OF assms, of io opened] unfolding exits_def by blast
  then show ?thesis
  proof cases
    case ok
    then show ?thesis by (intro disjI1 exI [of _ t]) (simp add: consistent_def Let_def nmeta_eval owned_bij)
  qed (rule disjI2)
qed

theorem mkfs_consistent_witness:
  "\<exists>t. mkfs_main (\<lambda>_. True) True [] = Swtch 0 t \<and> img t 1 = sb_bytes
     \<and> (\<forall>b. bm_free (img t (unat (BBLOCK 0 mk_sb))) b \<longleftrightarrow> unat (freeblock t) \<le> b)"
proof -
  obtain t where "mkfs_main (\<lambda>_. True) True [] = Swtch 0 t" using mkfs_empty unfolding done_ok_def by blast
  then show ?thesis using mkfs_consistent [of "[]" "\<lambda>_. True" True] by (auto simp: Let_def)
qed

end
