(* ===== verification/Spec2Isabelle.thy ===== *)
theory Spec2Isabelle
  imports Xv6_String Xv6_Spinlock Xv6_Console_Out Xv6_Kalloc Xv6_Vm Xv6_Rand Xv6_Proc Xv6_Sched Xv6_Sleep
    Xv6_Sleeplock Xv6_Bio Xv6_Log Xv6_Inode Xv6_Args Xv6_Proc_Debug Xv6_Console_In Xv6_Fs Xv6_File Xv6_Life
    Xv6_Sysfile Xv6_Kbd Xv6_Trap Xv6_Bio_Inv Xv6_Log_Inv Xv6_Ulib Xv6_Grep Xv6_Sh Xv6_Umalloc Xv6_Uprogs
    Xv6_Example Xv6_Pipe_Inv Xv6_Txn Xv6_Alloc_Inv Xv6_Ide Xv6_Mp Xv6_Devices Xv6_Mkfs
begin

text \<open>
  A verification development of the operating system xv6 for the x86 in this repository, with the
  changes of its laboratory course: a three-level scheduler, a log of system calls, alarms, a console
  with history and completion, and some system calls. File names below are those of src/src.

  \<^bold>\<open>How code is modelled.\<close> A function of the kernel is a HOL function from a state to an
  \<open>outcome\<close> (\<open>Xv6_Prelude\<close>): it returns (\<open>Ret\<close>), panics (\<open>Panic\<close>), leaves the defined behaviour of C
  (\<open>Undef\<close>), gives up the processor (\<open>Swtch\<close>) or never comes back (\<open>Diverge\<close>). \<open>bindK\<close> is the semicolon;
  \<open>returns m Q\<close> is total and \<open>on_ret m Q\<close> partial correctness. Machine integers are words of their
  width. The state of the kernel is one extensible record that grows from theory to theory: locks,
  console, page allocator, page tables, processes, sleep locks, buffers and disk, log, inodes, files,
  trap state. Each component's operations work on every extension of its layer. One thread of the
  kernel is modelled between two context switches; what it does after a switch is a definition of its
  own with the suffix \<open>_resume\<close>. Where other processors matter (spin locks, \<open>sleep\<close> against \<open>wakeup\<close>, a
  crash of the machine), the steps are those of an \<open>inductive\<close> relation.

  User programs are functions over a world that only system calls change; the record \<open>calls\<close> of system
  calls is their parameter, and what a theorem relies on of it is a named hypothesis.

  \<^bold>\<open>The kernel, bottom up.\<close>
  \<^item> \<open>Xv6_String\<close>: string.c; each routine equals a one-line reference.
  \<^item> \<open>Xv6_Spinlock\<close>: spinlock.c and the processor state of proc.h, first as steps of several
    processors (mutual exclusion), then as the set of locks held that the rest of the kernel uses; a
    simulation connects the two. The locale \<open>mutex\<close> is the contract of a lock.
  \<^item> \<open>Xv6_Console_Out\<close>, \<open>Xv6_Console_In\<close>, \<open>Xv6_Kbd\<close>: console.c, kbd.c, output of uart.c.
  \<^item> \<open>Xv6_Kalloc\<close>: kalloc.c; the free list lies in the pages; locale \<open>page_allocator\<close>.
  \<^item> \<open>Xv6_Vm\<close>: vm.c; \<open>pt_lookup\<close> is the walk that the processor does, and the lemmas say how the routines
    change it.
  \<^item> \<open>Xv6_Rand\<close>: rand.c; intervals and even bins.
  \<^item> \<open>Xv6_Proc\<close>, \<open>Xv6_Sched\<close>, \<open>Xv6_Sleep\<close>, \<open>Xv6_Proc_Debug\<close>, \<open>Xv6_Life\<close>: proc.c and exec.c; the operations on
    the process table, what the scheduler picks, that no wakeup is lost, and the invariant of the table
    under every sequence of operations.
  \<^item> \<open>Xv6_Sleeplock\<close>: sleeplock.c, a second interpretation of \<open>mutex\<close>.
  \<^item> \<open>Xv6_Bio\<close>, \<open>Xv6_Bio_Inv\<close>: memide.c and bio.c; the ring of buffers is a list, and the cache is a
    transparent layer over the disk (locale \<open>block_store\<close>).
  \<^item> \<open>Xv6_Log\<close>, \<open>Xv6_Log_Inv\<close>: log.c; a commit is atomic under crashes at any point, also of recovery.
  \<^item> \<open>Xv6_Inode\<close>, \<open>Xv6_Fs\<close>: fs.c. \<open>Xv6_File\<close>: file.c and pipe.c.
  \<^item> \<open>Xv6_Args\<close>, \<open>Xv6_Sysfile\<close>, \<open>Xv6_Trap\<close>: syscall.c, sysfile.c, sysproc.c, trap.c.
  \<^item> \<open>Xv6_Pipe_Inv\<close>: a pipe is a queue of bytes, and neither end is left asleep when it could go on.
  \<^item> \<open>Xv6_Txn\<close>, \<open>Xv6_Alloc_Inv\<close>: what an operation of the file system does between \<open>begin_op\<close> and \<open>end_op\<close> to
    the blocks it sees, and with it the allocation of disk blocks (\<open>balloc\<close>, \<open>bfree\<close> over the bitmap).
  \<^item> \<open>Xv6_Example\<close>: the concrete states in which the theorems are applied.

  \<^bold>\<open>Devices.\<close> Ports (\<open>ports\<close>) and memory-mapped registers (\<open>mmio\<close>) are parameters of the model.
  \<^item> \<open>Xv6_Ide\<close>: ide.c. \<open>ata_drive\<close> states the documented behaviour of the drive; under it the driver keeps a
    queue of requests, serves the oldest at each interrupt, and has the effect of memide.c. Its
    \<open>iderw\<close> and \<open>ideintr\<close> are \<open>iderw_pio\<close> and \<open>ideintr_pio\<close>, because memide.c has the same names.
  \<^item> \<open>Xv6_Mp\<close>: mp.c; a valid table of processors is read entry by entry, and an entry of unknown type
    makes the loop run for ever.
  \<^item> \<open>Xv6_Devices\<close>: uart.c, picirq.c, ioapic.c, lapic.c with the real-time clock.

  \<^bold>\<open>Building the disk.\<close> \<open>Xv6_Mkfs\<close>: mkfs.c, which runs on the host; \<open>mk_ialloc\<close> and \<open>mk_balloc\<close> are its \<open>ialloc\<close> and
  \<open>balloc\<close>. A finished image is consistent: the kernel's reading of the bitmap and the references of the
  inodes agree, block for block. Sectors on which the host's calls fail are a parameter.

  \<^bold>\<open>User programs.\<close>
  \<^item> \<open>Xv6_Ulib\<close>: ulib.c and printf.c; numbers are read back as they are printed.
  \<^item> \<open>Xv6_Umalloc\<close>: umalloc.c; blocks of a program never overlap, and the walks around the list end.
  \<^item> \<open>Xv6_Grep\<close>: grep.c; the matcher decides the language of its pattern, and the program prints the
    matching lines.
  \<^item> \<open>Xv6_Sh\<close>: sh.c; the parser ends on every line and finds the words that were typed.
  \<^item> \<open>Xv6_Uprogs\<close>: the small programs; \<open>wc\<close> counts, \<open>cat\<close> copies.

  \<^bold>\<open>Fuel.\<close> Loops over the address space have one unit of fuel for each page and one more, walks
  around the ring of buffers \<open>NBUF + 1\<close>, the parser of the shell a number linear in the length of the
  line, and \<open>malloc\<close> \<open>2 ^ 34\<close>; the theorems show that this is enough. Loops of user programs that run as
  long as a system call delivers have fuel as an argument, and the theorems say how much is enough for
  an input of a given length.

  \<^bold>\<open>Constants.\<close> A macro of the source that names a number is a definition of the same name (\<open>LAPIC_ID\<close> and
  \<open>LAPIC_ERROR\<close> stand for ID and ERROR of lapic.c); the source map lists data and operations, not most of these.

  \<^bold>\<open>Not modelled.\<close> The assembly files (their effect is the outcome \<open>Swtch\<close> and the trap frame), the
  loading of descriptor tables, the start-up code main.c and bootmain.c, foo.c (floating point)
  and the test program usertests.c. Caches, memory ordering and the timing of the hardware are outside
  the model.
\<close>

end
